(* ===== verification/Prelude.thy ===== *)
theory Prelude
  imports Main "HOL-Library.Word" "HOL-Library.Char_ord" "HOL-Library.List_Lexorder" "HOL-Library.Multiset" "HOL-Library.AList"
begin

text \<open>
  Shared vocabulary of the development: Go's values and the generic facts every component uses.

  A Go \<open>string\<close> and a \<open>[]byte\<close> are lists of bytes (\<open>char\<close> is one byte), \<open>len\<close> counts bytes, and
  Go's \<open><\<close> on strings is the bytewise lexicographic order of \<open>HOL-Library.List_Lexorder\<close>.
  A Go \<open>int\<close> or \<open>int64\<close> is an \<open>int\<close>; where the source guards against 64-bit overflow the
  bound \<open>max_int\<close> is written out. Unsigned counters are words of their width.
  A \<open>time.Time\<close> is an \<open>instant\<close>: the nanoseconds since Go's zero time, so \<open>IsZero\<close> is \<open>t = 0\<close>,
  and \<open>Before\<close>, \<open>After\<close>, \<open>Equal\<close> are \<open><\<close>, \<open>>\<close>, \<open>=\<close>; locations and monotonic readings, which none of the
  modelled code observes, are left out.
  A Go function that returns \<open>(T, error)\<close> returns a sum, \<open>Inl\<close> for the error. \<open>on_ok\<close> is the
  \<open>if err != nil { return ..., err }\<close> step between two calls.
\<close>

section \<open>Results\<close>

definition on_ok :: "'e + 'a \<Rightarrow> ('a \<Rightarrow> 'e + 'b) \<Rightarrow> 'e + 'b" where
  "on_ok r f = (case r of Inl e \<Rightarrow> Inl e | Inr x \<Rightarrow> f x)"

definition is_ok :: "'e + 'a \<Rightarrow> bool" where
  "is_ok r = (case r of Inl _ \<Rightarrow> False | Inr _ \<Rightarrow> True)"

text \<open>\<open>fail_if err k\<close>: a validator that returned an error pointer; nil lets the function go on.\<close>

definition fail_if :: "'e option \<Rightarrow> 'e + 'a \<Rightarrow> 'e + 'a" where
  "fail_if err k = (case err of Some e \<Rightarrow> Inl e | None \<Rightarrow> k)"

lemma on_ok_simps [simp]:
  "on_ok (Inl e) f = Inl e" "on_ok (Inr x) f = f x"
  by (simp_all add: on_ok_def)

lemma is_ok_simps [simp]: "is_ok (Inr x)" "\<not> is_ok (Inl e)"
  by (simp_all add: is_ok_def)

lemma fail_if_simps [simp]: "fail_if None k = k" "fail_if (Some e) k = Inl e"
  by (simp_all add: fail_if_def)

lemma on_ok_eq_Inr_iff [simp]: "on_ok r f = Inr y \<longleftrightarrow> (\<exists>x. r = Inr x \<and> f x = Inr y)"
  by (cases r) auto

lemma Inr_eq_on_ok_iff [simp]: "Inr y = on_ok r f \<longleftrightarrow> (\<exists>x. r = Inr x \<and> f x = Inr y)"
  by (cases r) auto

lemma on_ok_eq_Inl_iff: "on_ok r f = Inl e \<longleftrightarrow> r = Inl e \<or> (\<exists>x. r = Inr x \<and> f x = Inl e)"
  by (cases r) auto

lemma fail_if_eq_Inr_iff [simp]: "fail_if err k = Inr y \<longleftrightarrow> err = None \<and> k = Inr y"
  by (cases err) auto

lemma fail_if_eq_Inl_iff: "fail_if err k = Inl e \<longleftrightarrow> err = Some e \<or> err = None \<and> k = Inl e"
  by (cases err) auto

lemma is_ok_iff: "is_ok r \<longleftrightarrow> (\<exists>x. r = Inr x)"
  by (cases r) auto

lemma if_Inl_eq_Inr_iff [simp]: "(if b then Inl e else k) = Inr y \<longleftrightarrow> \<not> b \<and> k = Inr y"
  by auto

text \<open>A loop that stops at the first error: \<open>for _, x := range xs\<close> filling an output slice.\<close>

fun map_ok :: "('a \<Rightarrow> 'e + 'b) \<Rightarrow> 'a list \<Rightarrow> 'e + 'b list" where
  "map_ok f [] = Inr []"
| "map_ok f (x # xs) = on_ok (f x) (\<lambda>y. on_ok (map_ok f xs) (\<lambda>ys. Inr (y # ys)))"

lemma map_ok_eq_Inr_iff: "map_ok f xs = Inr ys \<longleftrightarrow> list_all2 (\<lambda>x y. f x = Inr y) xs ys"
  by (induction xs arbitrary: ys) (auto simp: list_all2_Cons1)

lemma map_ok_length: "map_ok f xs = Inr ys \<Longrightarrow> length ys = length xs"
  by (simp add: map_ok_eq_Inr_iff list_all2_lengthD)

lemma map_ok_id: "(\<And>x. x \<in> set xs \<Longrightarrow> f x = Inr x) \<Longrightarrow> map_ok f xs = Inr xs"
  by (induction xs) auto

lemma map_ok_set: "map_ok f xs = Inr ys \<Longrightarrow> y \<in> set ys \<Longrightarrow> \<exists>x \<in> set xs. f x = Inr y"
  by (induction xs arbitrary: ys) auto

section \<open>Integers and lengths\<close>

definition max_int :: int where
  "max_int = 9223372036854775807"

abbreviation len :: "'a list \<Rightarrow> int" where
  "len xs \<equiv> int (length xs)"

type_synonym instant = int
type_synonym duration = int

section \<open>Sorting\<close>

text \<open>
  \<open>sort.Slice\<close> with a comparison. The source only sorts with strict comparisons on a key; Go does
  not promise stability, and the results below that depend on the order either hold for keys that are
  pairwise different, where the sorted list is unique, or do not look at the order among equal keys.
\<close>

fun insert_by :: "('a \<Rightarrow> 'a \<Rightarrow> bool) \<Rightarrow> 'a \<Rightarrow> 'a list \<Rightarrow> 'a list" where
  "insert_by lt x [] = [x]"
| "insert_by lt x (y # ys) = (if lt y x then y # insert_by lt x ys else x # y # ys)"

definition sort_slice :: "('a \<Rightarrow> 'a \<Rightarrow> bool) \<Rightarrow> 'a list \<Rightarrow> 'a list" where
  "sort_slice lt xs = foldr (insert_by lt) xs []"

lemma mset_insert_by [simp]: "mset (insert_by lt x ys) = add_mset x (mset ys)"
  by (induction ys) auto

lemma mset_sort_slice [simp]: "mset (sort_slice lt xs) = mset xs"
  unfolding sort_slice_def by (induction xs) auto

lemma set_sort_slice [simp]: "set (sort_slice lt xs) = set xs"
  using mset_sort_slice [of lt xs] by (metis set_mset_mset)

lemma length_sort_slice [simp]: "length (sort_slice lt xs) = length xs"
  using mset_sort_slice [of lt xs] by (metis size_mset)

lemma distinct_sort_slice [simp]: "distinct (map f (sort_slice lt xs)) = distinct (map f xs)"
  using mset_sort_slice [of lt xs] by (metis distinct_count_atmost_1 mset_map set_map set_sort_slice)

locale key_order =
  fixes lt :: "'a \<Rightarrow> 'a \<Rightarrow> bool" and key :: "'a \<Rightarrow> 'k :: linorder"
  assumes lt_key: "lt x y \<longleftrightarrow> key x < key y"
begin

lemma insert_by_insort: "insert_by lt x ys = insort_key key x ys"
  by (induction ys) (auto simp: lt_key)

lemma sort_slice_sort_key: "sort_slice lt xs = sort_key key xs"
  unfolding sort_slice_def sort_key_def by (induction xs) (auto simp: insert_by_insort)

lemma sorted_sort_slice: "sorted (map key (sort_slice lt xs))"
  by (simp add: sort_slice_sort_key)

lemma sort_slice_ascending: "sorted_wrt (\<lambda>x y. \<not> lt y x) (sort_slice lt xs)"
  using sorted_sort_slice [of xs] by (simp add: sorted_map lt_key not_less)

text \<open>Whatever algorithm sorts, and in whatever order a map is walked, keys that differ pairwise fix the result.\<close>

lemma sort_slice_unique:
  assumes "mset ys = mset xs" "sorted (map key ys)" "inj_on key (set xs)"
  shows "sort_slice lt xs = ys"
proof -
  have "inj_on key (set ys)"
    using assms(1,3) by (metis mset_eq_setD)
  then have "sort_slice lt ys = ys"
    using assms(2) by (simp add: sort_slice_sort_key sort_key_id_if_sorted)
  moreover have "sort_slice lt xs = sort_slice lt ys"
    unfolding sort_slice_sort_key
    by (rule sort_key_inj_key_eq) (use assms in auto)
  ultimately show ?thesis by simp
qed

end

text \<open>
  The order the program keeps messages in: newest first, equal instants by descending identifier.
  A smaller key is a newer message.
\<close>

datatype recency = Recency (recency_time: instant) (recency_name: string)

instantiation recency :: linorder
begin

definition less_eq_recency :: "recency \<Rightarrow> recency \<Rightarrow> bool" where
  "r \<le> s \<longleftrightarrow> recency_time s < recency_time r \<or> recency_time r = recency_time s \<and> recency_name s \<le> recency_name r"

definition less_recency :: "recency \<Rightarrow> recency \<Rightarrow> bool" where
  "r < s \<longleftrightarrow> recency_time s < recency_time r \<or> recency_time r = recency_time s \<and> recency_name s < recency_name r"

instance
  by standard (auto simp: less_eq_recency_def less_recency_def recency.expand)

end

datatype listing = Listing (listing_time: instant) (listing_name: string)

text \<open>Chats are listed by last activity, newest first, equal times by ascending identifier.\<close>

instantiation listing :: linorder
begin

definition less_eq_listing :: "listing \<Rightarrow> listing \<Rightarrow> bool" where
  "r \<le> s \<longleftrightarrow> listing_time s < listing_time r \<or> listing_time r = listing_time s \<and> listing_name r \<le> listing_name s"

definition less_listing :: "listing \<Rightarrow> listing \<Rightarrow> bool" where
  "r < s \<longleftrightarrow> listing_time s < listing_time r \<or> listing_time r = listing_time s \<and> listing_name r < listing_name s"

instance
  by standard (auto simp: less_eq_listing_def less_listing_def listing.expand)

end

end
