(* ===== verification/Utf8.thy ===== *)
theory Utf8
  imports Prelude
begin

text \<open>
  The part of Go's \<open>unicode/utf8\<close>, \<open>unicode\<close> and \<open>strings\<close> packages the source uses: decoding one rune with
  Go's table of accepted ranges, encoding one, splitting a string into the runes a \<open>range\<close> loop visits,
  validity, \<open>IsControl\<close>, \<open>strings.Map\<close> and \<open>strings.TrimSpace\<close>. A malformed byte decodes to
  \<open>RuneError\<close> with width 1, while a well-formed U+FFFD has width 3, so \<open>bad_rune\<close> tells them apart the
  way the source does.
\<close>

section \<open>Decoding and encoding one rune\<close>

type_synonym rune = nat

definition byte :: "char \<Rightarrow> nat" where
  "byte c = of_char c"

definition rune_error :: rune where
  "rune_error = 65533"

definition byte_in :: "nat \<Rightarrow> nat \<Rightarrow> char \<Rightarrow> bool" where
  "byte_in lo hi c \<longleftrightarrow> lo \<le> byte c \<and> byte c \<le> hi"

text \<open>Go's \<open>first\<close> table: the width of the sequence a leading byte starts and the range of its second byte.\<close>

definition leading :: "nat \<Rightarrow> (nat \<times> nat \<times> nat) option" where
  "leading b =
     (if b < 194 then None
      else if b \<le> 223 then Some (2, 128, 191)
      else if b = 224 then Some (3, 160, 191)
      else if b = 237 then Some (3, 128, 159)
      else if b \<le> 239 then Some (3, 128, 191)
      else if b = 240 then Some (4, 144, 191)
      else if b \<le> 243 then Some (4, 128, 191)
      else if b = 244 then Some (4, 128, 143)
      else None)"

definition decode_rune :: "string \<Rightarrow> rune \<times> nat" where
  "decode_rune s =
     (case s of
        [] \<Rightarrow> (rune_error, 0)
      | b0 # s1 \<Rightarrow>
          if byte b0 < 128 then (byte b0, 1)
          else
            (case leading (byte b0) of
               None \<Rightarrow> (rune_error, 1)
             | Some (n, lo, hi) \<Rightarrow>
                 (case s1 of
                    [] \<Rightarrow> (rune_error, 1)
                  | b1 # s2 \<Rightarrow>
                      if \<not> byte_in lo hi b1 then (rune_error, 1)
                      else if n = 2 then ((byte b0 mod 32) * 64 + byte b1 mod 64, 2)
                      else
                        (case s2 of
                           [] \<Rightarrow> (rune_error, 1)
                         | b2 # s3 \<Rightarrow>
                             if \<not> byte_in 128 191 b2 then (rune_error, 1)
                             else if n = 3 then
                               ((byte b0 mod 16) * 4096 + (byte b1 mod 64) * 64 + byte b2 mod 64, 3)
                             else
                               (case s3 of
                                  [] \<Rightarrow> (rune_error, 1)
                                | b3 # _ \<Rightarrow>
                                    if \<not> byte_in 128 191 b3 then (rune_error, 1)
                                    else ((byte b0 mod 8) * 262144 + (byte b1 mod 64) * 4096
                                          + (byte b2 mod 64) * 64 + byte b3 mod 64, 4))))))"

definition encode_rune :: "rune \<Rightarrow> string" where
  "encode_rune r =
     (if r < 128 then [char_of r]
      else if r < 2048 then [char_of (192 + r div 64), char_of (128 + r mod 64)]
      else if r < 55296 \<or> 57343 < r \<and> r < 65536 then
        [char_of (224 + r div 4096), char_of (128 + r div 64 mod 64), char_of (128 + r mod 64)]
      else if 65535 < r \<and> r < 1114112 then
        [char_of (240 + r div 262144), char_of (128 + r div 4096 mod 64),
         char_of (128 + r div 64 mod 64), char_of (128 + r mod 64)]
      else [char_of (239::nat), char_of (191::nat), char_of (189::nat)])"

lemma byte_char_of [simp]: "n < 256 \<Longrightarrow> byte (char_of n) = n"
  by (simp add: byte_def)

lemma char_of_byte [simp]: "char_of (byte c) = c"
  by (simp add: byte_def)

lemma byte_less_256 [simp]: "byte c < 256"
  by (simp add: byte_def)

text \<open>The loop \<open>for offset, r := range s\<close>: the runes of a string with the bytes each was read from.\<close>

definition bad_rune :: "rune \<times> string \<Rightarrow> bool" where
  "bad_rune c \<longleftrightarrow> fst c = rune_error \<and> length (snd c) = 1"

lemma decode_rune_width:
  "snd (decode_rune s) \<le> length s" "s \<noteq> [] \<Longrightarrow> 0 < snd (decode_rune s)" "snd (decode_rune s) \<le> 4"
  by (auto simp: decode_rune_def split: list.splits option.splits prod.splits if_splits)

function runes :: "string \<Rightarrow> (rune \<times> string) list" where
  "runes s =
     (if s = [] then []
      else (fst (decode_rune s), take (snd (decode_rune s)) s) # runes (drop (snd (decode_rune s)) s))"
  by pat_completeness auto
termination
  by (relation "measure length") (use decode_rune_width(2) in force)+

declare runes.simps [simp del]

definition valid_utf8 :: "string \<Rightarrow> bool" where
  "valid_utf8 s \<longleftrightarrow> (\<forall>c \<in> set (runes s). \<not> bad_rune c)"

lemma runes_Nil [simp]: "runes [] = []"
  by (simp add: runes.simps)

lemma valid_utf8_Nil [simp]: "valid_utf8 []"
  by (simp add: valid_utf8_def)

lemma runes_nonempty:
  "s \<noteq> [] \<Longrightarrow> runes s = (fst (decode_rune s), take (snd (decode_rune s)) s) # runes (drop (snd (decode_rune s)) s)"
  by (subst runes.simps) simp

lemma concat_runes [simp]: "concat (map snd (runes s)) = s"
proof (induction s rule: runes.induct)
  case (1 s)
  then show ?case by (cases "s = []") (auto simp: runes_nonempty)
qed

lemma runes_width: "c \<in> set (runes s) \<Longrightarrow> 0 < length (snd c) \<and> length (snd c) \<le> 4"
proof (induction s arbitrary: c rule: runes.induct)
  case (1 s)
  then have ne: "s \<noteq> []" by auto
  then consider "c = (fst (decode_rune s), take (snd (decode_rune s)) s)"
    | "c \<in> set (runes (drop (snd (decode_rune s)) s))"
    using "1.prems" by (auto simp: runes_nonempty)
  then show ?case
  proof cases
    case 1
    then show ?thesis using ne decode_rune_width [of s] by simp
  next
    case 2
    then show ?thesis using "1.IH" [OF ne] by blast
  qed
qed

section \<open>Splitting a concatenation\<close>

text \<open>A well-formed rune is recognised by its own bytes, whatever follows.\<close>

lemma leading_ge: "leading b = Some x \<Longrightarrow> 128 \<le> b"
  by (auto simp: leading_def split: if_splits)

lemma leading_width: "leading b = Some (n, lo, hi) \<Longrightarrow> n = 2 \<or> n = 3 \<or> n = 4"
  by (auto simp: leading_def split: if_splits)

lemma decode_rune_1: "byte b0 < 128 \<Longrightarrow> decode_rune (b0 # s) = (byte b0, 1)"
  by (simp add: decode_rune_def)

lemma decode_rune_2:
  "leading (byte b0) = Some (2, lo, hi) \<Longrightarrow> byte_in lo hi b1 \<Longrightarrow>
    decode_rune (b0 # b1 # s) = (byte b0 mod 32 * 64 + byte b1 mod 64, 2)"
  using leading_ge [of "byte b0"] by (simp add: decode_rune_def)

lemma decode_rune_3:
  "leading (byte b0) = Some (3, lo, hi) \<Longrightarrow> byte_in lo hi b1 \<Longrightarrow> byte_in 128 191 b2 \<Longrightarrow>
    decode_rune (b0 # b1 # b2 # s) = (byte b0 mod 16 * 4096 + byte b1 mod 64 * 64 + byte b2 mod 64, 3)"
  using leading_ge [of "byte b0"] by (simp add: decode_rune_def)

lemma decode_rune_4:
  "leading (byte b0) = Some (4, lo, hi) \<Longrightarrow> byte_in lo hi b1 \<Longrightarrow> byte_in 128 191 b2 \<Longrightarrow> byte_in 128 191 b3 \<Longrightarrow>
    decode_rune (b0 # b1 # b2 # b3 # s) =
      (byte b0 mod 8 * 262144 + byte b1 mod 64 * 4096 + byte b2 mod 64 * 64 + byte b3 mod 64, 4)"
  using leading_ge [of "byte b0"] by (simp add: decode_rune_def)

lemmas decode_rune_ok = decode_rune_1 decode_rune_2 decode_rune_3 decode_rune_4

text \<open>What a decoded rune says about the string: the inversion of the four equations above.\<close>

lemma decode_rune_cases:
  assumes "decode_rune s = (r, n)" "\<not> (r = rune_error \<and> n \<le> 1)"
  obtains
    (one) b0 s' where "s = b0 # s'" "byte b0 < 128" "r = byte b0" "n = 1"
  | (two) b0 b1 s' lo hi where "s = b0 # b1 # s'" "leading (byte b0) = Some (2, lo, hi)" "byte_in lo hi b1"
      "r = byte b0 mod 32 * 64 + byte b1 mod 64" "n = 2"
  | (three) b0 b1 b2 s' lo hi where "s = b0 # b1 # b2 # s'" "leading (byte b0) = Some (3, lo, hi)"
      "byte_in lo hi b1" "byte_in 128 191 b2"
      "r = byte b0 mod 16 * 4096 + byte b1 mod 64 * 64 + byte b2 mod 64" "n = 3"
  | (four) b0 b1 b2 b3 s' lo hi where "s = b0 # b1 # b2 # b3 # s'" "leading (byte b0) = Some (4, lo, hi)"
      "byte_in lo hi b1" "byte_in 128 191 b2" "byte_in 128 191 b3"
      "r = byte b0 mod 8 * 262144 + byte b1 mod 64 * 4096 + byte b2 mod 64 * 64 + byte b3 mod 64" "n = 4"
proof -
  obtain b0 s1 where s: "s = b0 # s1"
    using assms by (cases s) (auto simp: decode_rune_def)
  show thesis
  proof (cases "byte b0 < 128")
    case True
    then show thesis using assms(1) s one by (simp add: decode_rune_1)
  next
    case False
    obtain w lo hi where l: "leading (byte b0) = Some (w, lo, hi)"
      using assms s False by (cases "leading (byte b0)") (auto simp: decode_rune_def)
    obtain b1 s2 where s1: "s1 = b1 # s2" and b1: "byte_in lo hi b1"
      using assms s l False by (cases s1) (auto simp: decode_rune_def split: if_splits)
    show thesis
    proof (cases "w = 2")
      case True
      then show thesis using assms(1) s s1 b1 l two by (simp add: decode_rune_2)
    next
      case w: False
      obtain b2 s3 where s2: "s2 = b2 # s3" and b2: "byte_in 128 191 b2"
        using assms s l s1 b1 w False by (cases s2) (auto simp: decode_rune_def split: if_splits)
      show thesis
      proof (cases "w = 3")
        case True
        then show thesis using assms(1) s s1 b1 s2 b2 l three by (simp add: decode_rune_3)
      next
        case w3: False
        obtain b3 s4 where s3: "s3 = b3 # s4" and b3: "byte_in 128 191 b3"
          using assms s l s1 b1 s2 b2 w w3 False by (cases s3) (auto simp: decode_rune_def split: if_splits)
        have "w = 4" using leading_width [OF l] w w3 by simp
        then show thesis using assms(1) s s1 b1 s2 b2 s3 b3 l four by (simp add: decode_rune_4)
      qed
    qed
  qed
qed

lemma decode_rune_take:
  assumes "decode_rune s = (r, n)" "\<not> (r = rune_error \<and> n \<le> 1)"
  shows "decode_rune (take n s @ t) = (r, n)"
  using assms by (cases rule: decode_rune_cases) (simp_all add: decode_rune_ok)

lemma decode_rune_append:
  assumes "decode_rune s = (r, n)" "\<not> (r = rune_error \<and> n \<le> 1)"
  shows "decode_rune (s @ t) = (r, n)"
  using assms by (cases rule: decode_rune_cases) (simp_all add: decode_rune_ok)

lemma valid_utf8_step:
  assumes "s \<noteq> []"
  shows "valid_utf8 s \<longleftrightarrow> \<not> (fst (decode_rune s) = rune_error \<and> snd (decode_rune s) = 1)
    \<and> valid_utf8 (drop (snd (decode_rune s)) s)"
  using assms decode_rune_width [of s]
  by (auto simp: valid_utf8_def runes_nonempty bad_rune_def)

lemma runes_append_valid: "valid_utf8 s \<Longrightarrow> runes (s @ t) = runes s @ runes t"
proof (induction s rule: runes.induct)
  case (1 s)
  show ?case
  proof (cases "s = []")
    case True
    then show ?thesis by simp
  next
    case False
    obtain r n where rn: "decode_rune s = (r, n)" by fastforce
    have n: "n \<le> length s" "0 < n" using decode_rune_width [of s] False rn by auto
    have ok: "\<not> (r = rune_error \<and> n \<le> 1)" "valid_utf8 (drop n s)"
      using "1.prems" False rn n by (auto simp: valid_utf8_step [OF False])
    have "runes (s @ t) = (r, take n s) # runes (drop n s @ t)"
      using False n decode_rune_append [OF rn ok(1)] by (simp add: runes_nonempty)
    also have "\<dots> = (r, take n s) # runes (drop n s) @ runes t"
      using "1.IH" False rn ok(2) by simp
    finally show ?thesis using False rn by (simp add: runes_nonempty)
  qed
qed

lemma valid_utf8_append: "valid_utf8 s \<Longrightarrow> valid_utf8 (s @ t) \<longleftrightarrow> valid_utf8 t"
  by (auto simp: valid_utf8_def runes_append_valid)

lemma runes_chunk: "c \<in> set (runes s) \<Longrightarrow> \<not> bad_rune c \<Longrightarrow> runes (snd c) = [c]"
proof (induction s arbitrary: c rule: runes.induct)
  case (1 s)
  show ?case
  proof (cases "s = []")
    case True
    with "1.prems" show ?thesis by simp
  next
    case False
    obtain r n where rn: "decode_rune s = (r, n)" by fastforce
    have n: "n \<le> length s" "0 < n" using decode_rune_width [of s] False rn by auto
    show ?thesis
    proof (cases "c = (r, take n s)")
      case True
      have ok: "\<not> (r = rune_error \<and> n \<le> 1)"
        using "1.prems"(2) True n by (auto simp: bad_rune_def)
      show ?thesis
        using True n False decode_rune_take [OF rn ok, of "[]"] by (simp add: runes_nonempty)
    next
      case False
      then have "c \<in> set (runes (drop n s))"
        using "1.prems"(1) \<open>s \<noteq> []\<close> rn by (simp add: runes_nonempty)
      then show ?thesis using "1.IH" "1.prems"(2) \<open>s \<noteq> []\<close> rn by simp
    qed
  qed
qed

lemma valid_chunk: "c \<in> set (runes s) \<Longrightarrow> \<not> bad_rune c \<Longrightarrow> valid_utf8 (snd c)"
  by (simp add: valid_utf8_def runes_chunk)

section \<open>Encoding is the inverse of decoding\<close>

definition valid_rune :: "rune \<Rightarrow> bool" where
  "valid_rune r \<longleftrightarrow> r < 55296 \<or> 57343 < r \<and> r < 1114112"

lemma valid_rune_error [simp]: "valid_rune rune_error"
  by (simp add: valid_rune_def rune_error_def)

lemma encode_rune_invalid: "\<not> valid_rune r \<Longrightarrow> encode_rune r = encode_rune rune_error"
  by (auto simp: encode_rune_def valid_rune_def rune_error_def)

lemma length_encode_rune: "0 < length (encode_rune r)" "length (encode_rune r) \<le> 4"
  by (auto simp: encode_rune_def)

lemma encode_rune_nonempty [simp]: "encode_rune r \<noteq> []"
  using length_encode_rune(1) [of r] by auto

lemma mod_shift:
  "x < 32 \<Longrightarrow> (192 + x) mod 32 = (x::nat)" "x < 16 \<Longrightarrow> (224 + x) mod 16 = x"
  "x < 8 \<Longrightarrow> (240 + x) mod 8 = x" "x < 64 \<Longrightarrow> (128 + x) mod 64 = x"
  using mod_mult_self2 [of x 32 6] mod_mult_self2 [of x 16 14] mod_mult_self2 [of x 8 30]
    mod_mult_self2 [of x 64 2]
  by (simp_all add: add.commute)

text \<open>A rune in base 64, the digits UTF-8 spreads over the bytes.\<close>

lemma digits2: "z < 64 \<Longrightarrow> (y * 64 + z) div 64 = (y::nat)" "z < 64 \<Longrightarrow> (y * 64 + z) mod 64 = z"
  by simp_all

lemma digits3:
  assumes "y < 64" "z < (64::nat)"
  shows "(x * 4096 + y * 64 + z) div 4096 = x" "(x * 4096 + y * 64 + z) div 64 mod 64 = y"
    "(x * 4096 + y * 64 + z) mod 64 = z"
proof -
  have e: "x * 4096 + y * 64 + z = (x * 64 + y) * 64 + z" by simp
  have d: "(x * 4096 + y * 64 + z) div 64 = x * 64 + y" unfolding e using assms by (simp add: digits2)
  show "(x * 4096 + y * 64 + z) mod 64 = z" unfolding e by (rule digits2(2) [OF assms(2)])
  show "(x * 4096 + y * 64 + z) div 64 mod 64 = y" unfolding d using assms(1) by (simp add: digits2)
  have "(x * 4096 + y * 64 + z) div (64 * 64) = x" unfolding div_mult2_eq d using assms(1) by (simp add: digits2)
  then show "(x * 4096 + y * 64 + z) div 4096 = x" by simp
qed

lemma digits4:
  assumes "y < 64" "z < 64" "w < (64::nat)"
  shows "(x * 262144 + y * 4096 + z * 64 + w) div 262144 = x"
    "(x * 262144 + y * 4096 + z * 64 + w) div 4096 mod 64 = y"
    "(x * 262144 + y * 4096 + z * 64 + w) div 64 mod 64 = z"
    "(x * 262144 + y * 4096 + z * 64 + w) mod 64 = w"
proof -
  have e: "x * 262144 + y * 4096 + z * 64 + w = (x * 64 + y) * 4096 + z * 64 + w" by simp
  note d = digits3 [OF assms(2,3), of "x * 64 + y", folded e]
  show "(x * 262144 + y * 4096 + z * 64 + w) mod 64 = w" by (rule d(3))
  show "(x * 262144 + y * 4096 + z * 64 + w) div 64 mod 64 = z" by (rule d(2))
  show "(x * 262144 + y * 4096 + z * 64 + w) div 4096 mod 64 = y"
    unfolding d(1) using assms(1) by (simp add: digits2)
  have "(x * 262144 + y * 4096 + z * 64 + w) div (4096 * 64) = x"
    unfolding div_mult2_eq d(1) using assms(1) by (simp add: digits2)
  then show "(x * 262144 + y * 4096 + z * 64 + w) div 262144 = x" by simp
qed

lemma to_digits2: "\<exists>y z. r = y * 64 + z \<and> z < (64::nat)"
  by (rule exI [of _ "r div 64"], rule exI [of _ "r mod 64"]) simp

lemma to_digits3: "\<exists>x y z. r = x * 4096 + y * 64 + z \<and> y < 64 \<and> z < (64::nat)"
proof -
  obtain q z where q: "r = q * 64 + z" "z < 64" using to_digits2 by blast
  obtain x y where "q = x * 64 + y" "y < 64" using to_digits2 by blast
  with q show ?thesis by (intro exI [of _ x] exI [of _ y] exI [of _ z]) simp
qed

lemma to_digits4: "\<exists>x y z w. r = x * 262144 + y * 4096 + z * 64 + w \<and> y < 64 \<and> z < 64 \<and> w < (64::nat)"
proof -
  obtain q z w where q: "r = q * 4096 + z * 64 + w" "z < 64" "w < 64" using to_digits3 by blast
  obtain x y where "q = x * 64 + y" "y < 64" using to_digits2 by blast
  with q show ?thesis by (intro exI [of _ x] exI [of _ y] exI [of _ z] exI [of _ w]) simp
qed

lemma leading_2I: "194 \<le> b \<Longrightarrow> b \<le> 223 \<Longrightarrow> leading b = Some (2, 128, 191)"
  by (simp add: leading_def)

lemma leading_3I:
  assumes "x < 16" "y < 64" "x = 0 \<Longrightarrow> 32 \<le> y" "x = 13 \<Longrightarrow> y < 32"
  obtains lo hi where "leading (224 + x) = Some (3, lo, hi)" "lo \<le> 128 + y" "128 + y \<le> hi"
  using assms by (cases "x = 0"; cases "x = 13") (auto simp: leading_def)

lemma leading_4I:
  assumes "x \<le> 4" "y < 64" "x = 0 \<Longrightarrow> 16 \<le> y" "x = 4 \<Longrightarrow> y < 16"
  obtains lo hi where "leading (240 + x) = Some (4, lo, hi)" "lo \<le> 128 + y" "128 + y \<le> hi"
  using assms by (cases "x = 0"; cases "x = 4") (auto simp: leading_def)

lemma decode_encode_rune:
  assumes "valid_rune r"
  shows "decode_rune (encode_rune r @ t) = (r, length (encode_rune r))"
proof -
  consider "r < 128" | "128 \<le> r" "r < 2048" | "2048 \<le> r" "r < 65536" "r < 55296 \<or> 57343 < r"
    | "65536 \<le> r" "r < 1114112"
    using assms by (fastforce simp: valid_rune_def)
  then show ?thesis
  proof cases
    case 1
    then show ?thesis by (simp add: encode_rune_def decode_rune_1)
  next
    case 2
    obtain x y where r: "r = x * 64 + y" "y < 64" using to_digits2 by blast
    have x: "2 \<le> x" "x < 32" using 2 r by linarith+
    show ?thesis
      using 2 r x decode_rune_2 [of "char_of (192 + x)" 128 191 "char_of (128 + y)" t]
      by (simp add: encode_rune_def byte_in_def leading_2I mod_shift digits2)
  next
    case 3
    obtain x y z where r: "r = x * 4096 + y * 64 + z" "y < 64" "z < 64" using to_digits3 by blast
    have x: "x < 16" using 3 r by linarith
    have "x = 0 \<Longrightarrow> 32 \<le> y" "x = 13 \<Longrightarrow> y < 32" using 3 r by linarith+
    then obtain lo hi where lh: "leading (224 + x) = Some (3, lo, hi)" "lo \<le> 128 + y" "128 + y \<le> hi"
      using leading_3I [OF x r(2)] by blast
    have e: "encode_rune r = [char_of (224 + x), char_of (128 + y), char_of (128 + z)]"
      using 3 digits3 [OF r(2,3), of x] by (auto simp: encode_rune_def simp flip: r(1))
    show ?thesis
      unfolding e using r x lh
        decode_rune_3 [of "char_of (224 + x)" lo hi "char_of (128 + y)" "char_of (128 + z)" t]
      by (simp add: byte_in_def mod_shift)
  next
    case 4
    obtain x y z w where r: "r = x * 262144 + y * 4096 + z * 64 + w" "y < 64" "z < 64" "w < 64"
      using to_digits4 by blast
    have x: "x \<le> 4" using 4 r by linarith
    have "x = 0 \<Longrightarrow> 16 \<le> y" "x = 4 \<Longrightarrow> y < 16" using 4 r by linarith+
    then obtain lo hi where lh: "leading (240 + x) = Some (4, lo, hi)" "lo \<le> 128 + y" "128 + y \<le> hi"
      using leading_4I [OF x r(2)] by blast
    have e: "encode_rune r = [char_of (240 + x), char_of (128 + y), char_of (128 + z), char_of (128 + w)]"
      using 4 digits4 [OF r(2,3,4), of x] by (auto simp: encode_rune_def simp flip: r(1))
    show ?thesis
      unfolding e using r x lh
        decode_rune_4 [of "char_of (240 + x)" lo hi "char_of (128 + y)" "char_of (128 + z)" "char_of (128 + w)" t]
      by (simp add: byte_in_def mod_shift)
  qed
qed

text \<open>The other direction: a rune that decodes well is encoded back to the bytes it was read from.\<close>

lemma leading_2D: "leading b = Some (2, lo, hi) \<Longrightarrow> 194 \<le> b \<and> b \<le> 223 \<and> lo = 128 \<and> hi = 191"
  by (auto simp: leading_def split: if_splits)

lemma leading_3D:
  "leading b = Some (3, lo, hi) \<Longrightarrow> 224 \<le> b \<and> b \<le> 239 \<and> 128 \<le> lo \<and> hi \<le> 191
    \<and> (b = 224 \<longrightarrow> lo = 160) \<and> (b = 237 \<longrightarrow> hi = 159)"
  by (auto simp: leading_def split: if_splits)

lemma leading_4D:
  "leading b = Some (4, lo, hi) \<Longrightarrow> 240 \<le> b \<and> b \<le> 244 \<and> 128 \<le> lo \<and> hi \<le> 191
    \<and> (b = 240 \<longrightarrow> lo = 144) \<and> (b = 244 \<longrightarrow> hi = 143)"
  by (auto simp: leading_def split: if_splits)

lemma byte_eqD: "byte c = n \<Longrightarrow> char_of n = c"
  by auto

lemma encode_decode_rune:
  assumes "decode_rune s = (r, n)" "\<not> (r = rune_error \<and> n \<le> 1)"
  shows "encode_rune r = take n s \<and> valid_rune r"
  using assms
proof (cases rule: decode_rune_cases)
  case (one b0 s')
  then show ?thesis by (simp add: encode_rune_def valid_rune_def)
next
  case (two b0 b1 s' lo hi)
  obtain x where x: "byte b0 = 192 + x" "2 \<le> x" "x < 32"
    using leading_2D [OF two(2)] by (auto simp: nat_le_iff_add dest!: le_Suc_ex)
  obtain y where y: "byte b1 = 128 + y" "y < 64"
    using two(3) leading_2D [OF two(2)] by (auto simp: byte_in_def dest!: le_Suc_ex)
  have "r = x * 64 + y" using two x y by (simp add: mod_shift)
  then show ?thesis
    using two(1,5) x y byte_eqD [OF x(1)] byte_eqD [OF y(1)]
    by (auto simp: encode_rune_def valid_rune_def)
next
  case (three b0 b1 b2 s' lo hi)
  obtain x where x: "byte b0 = 224 + x" "x < 16"
    using leading_3D [OF three(2)] by (auto dest!: le_Suc_ex)
  obtain y where y: "byte b1 = 128 + y" "y < 64"
    using three(3) leading_3D [OF three(2)] by (auto simp: byte_in_def dest!: le_Suc_ex)
  obtain z where z: "byte b2 = 128 + z" "z < 64"
    using three(4) by (auto simp: byte_in_def dest!: le_Suc_ex)
  have r: "r = x * 4096 + y * 64 + z" using three x y z by (simp add: mod_shift)
  have range: "x = 0 \<Longrightarrow> 32 \<le> y" "x = 13 \<Longrightarrow> y < 32"
    using leading_3D [OF three(2)] three(3) x y by (auto simp: byte_in_def)
  have "x = 0 \<or> x = 13 \<or> 1 \<le> x \<and> x \<le> 12 \<or> 14 \<le> x" by linarith
  then have "2048 \<le> r \<and> r < 65536 \<and> (r < 55296 \<or> 57343 < r)" using r range x(2) y(2) z(2) by auto
  moreover have "r div 4096 = x" "r div 64 mod 64 = y" "r mod 64 = z"
    using digits3 [OF y(2) z(2), of x, folded r] by simp_all
  ultimately show ?thesis
    using three(1,6) byte_eqD [OF x(1)] byte_eqD [OF y(1)] byte_eqD [OF z(1)]
    by (auto simp: encode_rune_def valid_rune_def)
next
  case (four b0 b1 b2 b3 s' lo hi)
  obtain x where x: "byte b0 = 240 + x" "x \<le> 4"
    using leading_4D [OF four(2)] by (auto dest!: le_Suc_ex)
  obtain y where y: "byte b1 = 128 + y" "y < 64"
    using four(3) leading_4D [OF four(2)] by (auto simp: byte_in_def dest!: le_Suc_ex)
  obtain z where z: "byte b2 = 128 + z" "z < 64"
    using four(4) by (auto simp: byte_in_def dest!: le_Suc_ex)
  obtain w where w: "byte b3 = 128 + w" "w < 64"
    using four(5) by (auto simp: byte_in_def dest!: le_Suc_ex)
  have r: "r = x * 262144 + y * 4096 + z * 64 + w" using four x y z w by (simp add: mod_shift)
  have range: "x = 0 \<Longrightarrow> 16 \<le> y" "x = 4 \<Longrightarrow> y < 16"
    using leading_4D [OF four(2)] four(3) x y by (auto simp: byte_in_def)
  have "x = 0 \<or> x = 4 \<or> 1 \<le> x \<and> x \<le> 3" using x(2) by linarith
  then have "65536 \<le> r \<and> r < 1114112" using r range y(2) z(2) w(2) by auto
  moreover have "r div 262144 = x" "r div 4096 mod 64 = y" "r div 64 mod 64 = z" "r mod 64 = w"
    using digits4 [OF y(2) z(2) w(2), of x, folded r] by simp_all
  ultimately show ?thesis
    using four(1,7) byte_eqD [OF x(1)] byte_eqD [OF y(1)] byte_eqD [OF z(1)] byte_eqD [OF w(1)]
    by (auto simp: encode_rune_def valid_rune_def)
qed

section \<open>Runs of runes\<close>

lemma runes_encode_rune: "valid_rune r \<Longrightarrow> runes (encode_rune r @ t) = (r, encode_rune r) # runes t"
  using decode_encode_rune [of r t] by (simp add: runes_nonempty)

lemma good_encode_rune: "\<not> bad_rune (r, encode_rune r)"
  by (auto simp: bad_rune_def rune_error_def encode_rune_def)

lemma runes_encode_all:
  "\<forall>r \<in> set rs. valid_rune r \<Longrightarrow> runes (concat (map encode_rune rs)) = map (\<lambda>r. (r, encode_rune r)) rs"
  by (induction rs) (auto simp: runes_encode_rune)

lemma valid_encode_all: "valid_utf8 (concat (map encode_rune rs))"
proof -
  define canon where "canon r = (if valid_rune r then r else rune_error)" for r
  have "map encode_rune rs = map encode_rune (map canon rs)"
    by (auto simp: canon_def intro: encode_rune_invalid)
  moreover have "valid_utf8 (concat (map encode_rune (map canon rs)))"
    unfolding valid_utf8_def by (subst runes_encode_all) (auto simp: canon_def good_encode_rune)
  ultimately show ?thesis by (simp only:)
qed

lemma runes_good:
  "c \<in> set (runes s) \<Longrightarrow> \<not> bad_rune c \<Longrightarrow> valid_rune (fst c) \<and> snd c = encode_rune (fst c)"
proof -
  assume c: "c \<in> set (runes s)" "\<not> bad_rune c"
  have ne: "snd c \<noteq> []" using runes_width [OF c(1)] by auto
  have rc: "runes (snd c) = [c]" using runes_chunk [OF c] .
  then have cc: "(fst (decode_rune (snd c)), take (snd (decode_rune (snd c))) (snd c)) = c"
    unfolding runes_nonempty [OF ne] by (simp only: list.inject)
  have d: "fst c = fst (decode_rune (snd c))" "snd c = take (snd (decode_rune (snd c))) (snd c)"
    by (metis cc fst_conv, metis cc snd_conv)
  have w: "length (snd c) = snd (decode_rune (snd c))"
    using d(2) decode_rune_width(1) [of "snd c"] by (metis length_take min.absorb2)
  have "\<not> (fst c = rune_error \<and> length (snd c) \<le> 1)"
    using c(2) ne by (cases "length (snd c)") (auto simp: bad_rune_def)
  then show ?thesis
    using encode_decode_rune [of "snd c" "fst c" "length (snd c)"] d(1) w by (metis prod.collapse take_all order_refl)
qed

lemma valid_runes_canonical: "valid_utf8 s \<Longrightarrow> c \<in> set (runes s) \<Longrightarrow> valid_rune (fst c) \<and> snd c = encode_rune (fst c)"
  by (simp add: valid_utf8_def runes_good)

text \<open>\<open>strings.Map\<close> with a mapping that drops nothing; a malformed byte is mapped as \<open>RuneError\<close>.\<close>

definition strings_Map :: "(rune \<Rightarrow> rune) \<Rightarrow> string \<Rightarrow> string" where
  "strings_Map f s = concat (map (\<lambda>c. encode_rune (f (fst c))) (runes s))"

lemma valid_strings_Map [simp]: "valid_utf8 (strings_Map f s)"
  using valid_encode_all [of "map (f \<circ> fst) (runes s)"] by (simp add: strings_Map_def comp_def)

lemma runes_strings_Map:
  assumes "\<And>c. c \<in> set (runes s) \<Longrightarrow> valid_rune (f (fst c))"
  shows "map fst (runes (strings_Map f s)) = map (\<lambda>c. f (fst c)) (runes s)"
proof -
  have "runes (concat (map encode_rune (map (\<lambda>c. f (fst c)) (runes s))))
    = map (\<lambda>r. (r, encode_rune r)) (map (\<lambda>c. f (fst c)) (runes s))"
    by (rule runes_encode_all) (use assms in auto)
  then show ?thesis by (simp add: strings_Map_def comp_def)
qed

lemma strings_Map_id: "valid_utf8 s \<Longrightarrow> (\<And>c. c \<in> set (runes s) \<Longrightarrow> f (fst c) = fst c) \<Longrightarrow> strings_Map f s = s"
proof -
  assume v: "valid_utf8 s" and f: "\<And>c. c \<in> set (runes s) \<Longrightarrow> f (fst c) = fst c"
  have e: "map (\<lambda>c. encode_rune (f (fst c))) (runes s) = map snd (runes s)"
    by (rule map_cong) (use f valid_runes_canonical [OF v] in auto)
  show ?thesis unfolding strings_Map_def e by simp
qed

section \<open>Character classes\<close>

definition is_control :: "rune \<Rightarrow> bool" where
  "is_control r \<longleftrightarrow> r \<le> 31 \<or> 127 \<le> r \<and> r \<le> 159"

definition has_control :: "string \<Rightarrow> bool" where
  "has_control s \<longleftrightarrow> (\<exists>c \<in> set (runes s). is_control (fst c))"

text \<open>The mapping the source passes to \<open>strings.Map\<close>: a control character becomes a blank.\<close>

definition blank_control :: "rune \<Rightarrow> rune" where
  "blank_control r = (if is_control r then 32 else r)"

lemma is_control_blank [simp]: "\<not> is_control (blank_control r)"
  by (simp add: blank_control_def is_control_def)

lemma valid_blank_control: "valid_rune r \<Longrightarrow> valid_rune (blank_control r)"
  by (simp add: blank_control_def valid_rune_def)

lemma length_encode_blank: "length (encode_rune (blank_control r)) \<le> length (encode_rune r)"
  by (auto simp: blank_control_def encode_rune_def is_control_def)

lemma no_control_Map: "valid_utf8 s \<Longrightarrow> \<not> has_control (strings_Map blank_control s)"
proof -
  assume v: "valid_utf8 s"
  have m: "map fst (runes (strings_Map blank_control s)) = map (\<lambda>c. blank_control (fst c)) (runes s)"
    by (rule runes_strings_Map) (simp add: valid_blank_control valid_runes_canonical [OF v])
  have "fst c \<in> set (map (\<lambda>c. blank_control (fst c)) (runes s))" if "c \<in> set (runes (strings_Map blank_control s))" for c
    using that m by (metis list.set_map image_eqI)
  then show ?thesis by (fastforce simp: has_control_def)
qed

lemma length_Map_blank: "valid_utf8 s \<Longrightarrow> length (strings_Map blank_control s) \<le> length s"
proof -
  assume v: "valid_utf8 s"
  have "sum_list (map (\<lambda>c. length (encode_rune (blank_control (fst c)))) (runes s)) \<le> sum_list (map (\<lambda>c. length (snd c)) (runes s))"
    by (rule sum_list_mono) (use valid_runes_canonical [OF v] length_encode_blank in auto)
  moreover have "sum_list (map (\<lambda>c. length (snd c)) (runes s)) = length s"
    using arg_cong [OF concat_runes, of length s] unfolding length_concat by (simp add: comp_def)
  ultimately show ?thesis by (simp add: strings_Map_def length_concat comp_def)
qed

lemma Map_blank_id: "valid_utf8 s \<Longrightarrow> \<not> has_control s \<Longrightarrow> strings_Map blank_control s = s"
  by (rule strings_Map_id) (auto simp: has_control_def blank_control_def)

text \<open>\<open>unicode.IsSpace\<close> and \<open>strings.TrimSpace\<close>.\<close>

definition is_space :: "rune \<Rightarrow> bool" where
  "is_space r \<longleftrightarrow> 9 \<le> r \<and> r \<le> 13 \<or> r = 32 \<or> r = 133 \<or> r = 160 \<or> r = 5760 \<or> 8192 \<le> r \<and> r \<le> 8202
     \<or> r = 8232 \<or> r = 8233 \<or> r = 8239 \<or> r = 8287 \<or> r = 12288"

definition trim_runes :: "(rune \<times> string) list \<Rightarrow> (rune \<times> string) list" where
  "trim_runes cs = rev (dropWhile (\<lambda>c. is_space (fst c)) (rev (dropWhile (\<lambda>c. is_space (fst c)) cs)))"

definition TrimSpace :: "string \<Rightarrow> string" where
  "TrimSpace s = concat (map snd (trim_runes (runes s)))"

lemma set_trim_runes: "set (trim_runes cs) \<subseteq> set cs"
  unfolding trim_runes_def by (auto dest!: set_dropWhileD)

lemma trim_runes_sublist: "\<exists>us vs. cs = us @ trim_runes cs @ vs"
proof -
  let ?P = "\<lambda>c. is_space (fst c)"
  obtain us where 1: "cs = us @ dropWhile ?P cs" by (metis takeWhile_dropWhile_id)
  obtain vs where "rev (dropWhile ?P cs) = vs @ dropWhile ?P (rev (dropWhile ?P cs))"
    by (metis takeWhile_dropWhile_id)
  then have "dropWhile ?P cs = trim_runes cs @ rev vs"
    unfolding trim_runes_def by (metis rev_append rev_rev_ident)
  with 1 show ?thesis by metis
qed

lemma length_TrimSpace: "length (TrimSpace s) \<le> length s"
proof -
  obtain us vs where "runes s = us @ trim_runes (runes s) @ vs" using trim_runes_sublist by blast
  then have "concat (map snd (runes s)) = concat (map snd us) @ TrimSpace s @ concat (map snd vs)"
    unfolding TrimSpace_def by (metis concat_append map_append)
  then have "s = concat (map snd us) @ TrimSpace s @ concat (map snd vs)" by simp
  then show ?thesis by (metis le_add1 le_add2 length_append order_trans)
qed

lemma runes_TrimSpace: "valid_utf8 s \<Longrightarrow> runes (TrimSpace s) = trim_runes (runes s)"
proof -
  assume v: "valid_utf8 s"
  have c: "\<forall>c \<in> set (trim_runes (runes s)). valid_rune (fst c) \<and> snd c = encode_rune (fst c)"
    using set_trim_runes valid_runes_canonical [OF v] by blast
  then have "map snd (trim_runes (runes s)) = map encode_rune (map fst (trim_runes (runes s)))" by simp
  then have "runes (TrimSpace s) = map (\<lambda>r. (r, encode_rune r)) (map fst (trim_runes (runes s)))"
    unfolding TrimSpace_def using c by (simp add: runes_encode_all del: map_map)
  also have "\<dots> = trim_runes (runes s)"
    unfolding map_map by (rule map_idI) (use c in \<open>auto simp: prod_eq_iff\<close>)
  finally show ?thesis .
qed

lemma valid_TrimSpace: "valid_utf8 s \<Longrightarrow> valid_utf8 (TrimSpace s)"
  using set_trim_runes by (fastforce simp: valid_utf8_def [of "TrimSpace s"] runes_TrimSpace valid_utf8_def [of s])

lemma no_control_TrimSpace: "valid_utf8 s \<Longrightarrow> \<not> has_control s \<Longrightarrow> \<not> has_control (TrimSpace s)"
  using set_trim_runes by (fastforce simp: has_control_def runes_TrimSpace)

lemma trim_runes_idem: "trim_runes (trim_runes cs) = trim_runes cs"
proof -
  let ?P = "\<lambda>c :: rune \<times> string. is_space (fst c)"
  define ds where "ds = dropWhile ?P cs"
  have hd: "ds = [] \<or> \<not> ?P (hd ds)" unfolding ds_def by (metis hd_dropWhile)
  define es where "es = rev (dropWhile ?P (rev ds))"
  have "dropWhile ?P es = es"
  proof (cases "es = []")
    case False
    obtain vs where "ds = es @ vs"
      unfolding es_def by (metis rev_append rev_rev_ident takeWhile_dropWhile_id)
    then have "hd es = hd ds" "ds \<noteq> []" using False by auto
    then show ?thesis using hd False by (cases es) auto
  qed simp
  moreover have "dropWhile ?P (rev es) = rev es"
    unfolding es_def by (simp add: dropWhile_idem)
  ultimately show ?thesis unfolding trim_runes_def ds_def [symmetric] es_def [symmetric] by simp
qed

lemma TrimSpace_idem: "valid_utf8 s \<Longrightarrow> TrimSpace (TrimSpace s) = TrimSpace s"
  by (simp add: TrimSpace_def [of "TrimSpace s"] runes_TrimSpace trim_runes_idem) (simp add: TrimSpace_def)

end
