(* ===== verification/Validation.thy ===== *)
theory Validation
  imports Utf8
begin

text \<open>
  Validation and normalisation of untrusted text: the content-free error values, the three identifier
  types with their constructors, the bounded UTF-8 normalisers and the overflow-checked byte sum of
  \<open>internal/model/normalize.go\<close>, \<open>model.go\<close> and \<open>store.go\<close>. A validator that returns a nil or
  non-nil \<open>*ValidationError\<close> returns an option; \<open>strings.Clone\<close> is the identity on values.
\<close>

section \<open>Errors\<close>

datatype validation_code =
  Required | InvalidUTF8 | ControlCharacter | TooLong | SizeExceeded | InvalidValue

text \<open>
  The package returns either a \<open>*ValidationError\<close> (code, field, limit) or an \<open>errors.New\<close> text.
\<close>

datatype model_error =
    ValidationError (err_code: validation_code) (err_field: string) (err_limit: int)
  | PlainError string

definition newValidationError :: "validation_code \<Rightarrow> string \<Rightarrow> int \<Rightarrow> model_error" where
  "newValidationError code field limit = ValidationError code field limit"

section \<open>Identifiers\<close>

definition MaxIdentifierBytes :: int where "MaxIdentifierBytes = 512"
definition MaxRetainedTextBytes :: int where "MaxRetainedTextBytes = 16 * 1024"
definition MaxNormalizedEventBytes :: int where "MaxNormalizedEventBytes = 32 * 1024"
definition normalizedEventEnvelopeBytes :: int where "normalizedEventEnvelopeBytes = 256"

lemmas size_limits = MaxIdentifierBytes_def MaxRetainedTextBytes_def MaxNormalizedEventBytes_def
  normalizedEventEnvelopeBytes_def

datatype chat_id = ChatID (chat_id_value: string)
datatype contact_id = ContactID (contact_id_value: string)
datatype message_id = MessageID (message_id_value: string)

definition validateIdentifier :: "string \<Rightarrow> string \<Rightarrow> model_error option" where
  "validateIdentifier value field =
     (if value = [] then Some (newValidationError Required field 0)
      else if len value > MaxIdentifierBytes then Some (newValidationError TooLong field MaxIdentifierBytes)
      else if \<not> valid_utf8 value then Some (newValidationError InvalidUTF8 field MaxIdentifierBytes)
      else if \<exists>c \<in> set (runes value). fst c = 0 \<or> is_control (fst c) then
        Some (newValidationError ControlCharacter field MaxIdentifierBytes)
      else None)"

definition NewChatID :: "string \<Rightarrow> model_error + chat_id" where
  "NewChatID value = fail_if (validateIdentifier value ''chat_id'') (Inr (ChatID value))"

definition NewContactID :: "string \<Rightarrow> model_error + contact_id" where
  "NewContactID value = fail_if (validateIdentifier value ''contact_id'') (Inr (ContactID value))"

definition NewMessageID :: "string \<Rightarrow> model_error + message_id" where
  "NewMessageID value = fail_if (validateIdentifier value ''message_id'') (Inr (MessageID value))"

text \<open>What an accepted identifier is: bounded, well-formed and printable text, never empty.\<close>

definition clean_text :: "int \<Rightarrow> string \<Rightarrow> bool" where
  "clean_text limit v \<longleftrightarrow> v \<noteq> [] \<and> len v \<le> limit \<and> valid_utf8 v \<and> \<not> has_control v"

abbreviation valid_identifier :: "string \<Rightarrow> bool" where
  "valid_identifier \<equiv> clean_text MaxIdentifierBytes"

lemma control_or_zero: "(\<exists>c \<in> set (runes v). fst c = 0 \<or> is_control (fst c)) \<longleftrightarrow> has_control v"
  unfolding has_control_def by (rule bex_cong) (auto simp: is_control_def)

lemma validateIdentifier_None [simp]: "validateIdentifier v f = None \<longleftrightarrow> valid_identifier v"
  by (auto simp: validateIdentifier_def control_or_zero clean_text_def)

lemma clean_text_nonempty [simp]: "\<not> clean_text n []"
  by (simp add: clean_text_def)

lemma clean_text_len: "clean_text n v \<Longrightarrow> len v \<le> n"
  by (simp add: clean_text_def)

lemma clean_text_mono: "clean_text n v \<Longrightarrow> n \<le> m \<Longrightarrow> clean_text m v"
  by (auto simp: clean_text_def)

text \<open>
  The contract the three constructors share: \<open>make\<close> succeeds exactly on clean text up to the limit
  and the value it builds reads back the text it was given.
\<close>

locale bounded_id =
  fixes limit :: int and make :: "string \<Rightarrow> model_error + 'id" and val :: "'id \<Rightarrow> string"
  assumes make_eq_Inr: "make v = Inr i \<longleftrightarrow> clean_text limit v \<and> val i = v"
begin

lemma make_val: "clean_text limit (val i) \<Longrightarrow> make (val i) = Inr i"
  by (simp add: make_eq_Inr)

lemma make_clean: "make v = Inr i \<Longrightarrow> clean_text limit (val i)"
  by (simp add: make_eq_Inr)

lemma make_idempotent: "make v = Inr i \<Longrightarrow> make (val i) = Inr i"
  by (simp add: make_eq_Inr)

lemma make_inject: "make v = Inr i \<Longrightarrow> make w = Inr i \<Longrightarrow> v = w"
  by (simp add: make_eq_Inr)

lemma make_fails: "\<not> clean_text limit v \<Longrightarrow> \<exists>e. make v = Inl e"
  by (cases "make v") (auto simp: make_eq_Inr)

end

interpretation chat_ids: bounded_id MaxIdentifierBytes NewChatID chat_id_value
  by unfold_locales (auto simp: NewChatID_def chat_id.expand)

interpretation contact_ids: bounded_id MaxIdentifierBytes NewContactID contact_id_value
  by unfold_locales (auto simp: NewContactID_def contact_id.expand)

interpretation message_ids: bounded_id MaxIdentifierBytes NewMessageID message_id_value
  by unfold_locales (auto simp: NewMessageID_def message_id.expand)

lemma new_id_iff [simp]:
  "NewChatID v = Inr i \<longleftrightarrow> valid_identifier v \<and> i = ChatID v"
  "NewContactID v = Inr j \<longleftrightarrow> valid_identifier v \<and> j = ContactID v"
  "NewMessageID v = Inr k \<longleftrightarrow> valid_identifier v \<and> k = MessageID v"
  by (auto simp: NewChatID_def NewContactID_def NewMessageID_def)

lemma new_id_ok:
  "valid_identifier v \<Longrightarrow> NewChatID v = Inr (ChatID v)"
  "valid_identifier v \<Longrightarrow> NewContactID v = Inr (ContactID v)"
  "valid_identifier v \<Longrightarrow> NewMessageID v = Inr (MessageID v)"
  by simp_all

lemma is_ok_new_id [simp]:
  "is_ok (NewChatID v) \<longleftrightarrow> valid_identifier v"
  "is_ok (NewContactID v) \<longleftrightarrow> valid_identifier v"
  "is_ok (NewMessageID v) \<longleftrightarrow> valid_identifier v"
  by (auto simp: is_ok_iff)

section \<open>Bounded normalisation\<close>

text \<open>
  The slow path of both normalisers, \<open>for offset := 0; offset < len(value); \<dots>\<close>: each step decodes
  one rune at \<open>offset\<close>, so the loop runs over the runes of the value. \<open>out\<close> is the builder.
\<close>

fun normalize_loop :: "int \<Rightarrow> string \<Rightarrow> (rune \<times> string) list \<Rightarrow> string \<times> bool" where
  "normalize_loop limit out [] = (out, False)"
| "normalize_loop limit out (c # rest) =
     (let outputBytes = (if bad_rune c then len (encode_rune rune_error) else len (snd c))
      in if len out > limit - outputBytes then (out, True)
         else normalize_loop limit (out @ (if bad_rune c then encode_rune rune_error else snd c)) rest)"

definition NormalizeText :: "string \<Rightarrow> string \<times> bool" where
  "NormalizeText value =
     (if value = [] then ([], False)
      else
        let prefixBytes = (if len value > MaxRetainedTextBytes then MaxRetainedTextBytes else len value);
            prefix = take (nat prefixBytes) value
        in if valid_utf8 prefix then (prefix, prefixBytes < len value)
           else normalize_loop MaxRetainedTextBytes [] (runes value))"

definition normalizeBoundedUTF8 :: "string \<Rightarrow> int \<Rightarrow> string \<times> bool" where
  "normalizeBoundedUTF8 value maxBytes =
     (if value = [] then ([], False)
      else if maxBytes \<le> 0 then ([], True)
      else
        let prefixBytes = (if len value > maxBytes then maxBytes else len value);
            prefix = take (nat prefixBytes) value
        in if valid_utf8 prefix then (prefix, prefixBytes < len value)
           else normalize_loop maxBytes [] (runes value))"

lemma NormalizeText_bounded: "NormalizeText v = normalizeBoundedUTF8 v MaxRetainedTextBytes"
proof -
  have "\<not> MaxRetainedTextBytes \<le> 0" by (simp add: MaxRetainedTextBytes_def)
  then show ?thesis by (simp add: NormalizeText_def normalizeBoundedUTF8_def)
qed

definition repair :: "rune \<times> string \<Rightarrow> string" where
  "repair c = (if bad_rune c then encode_rune rune_error else snd c)"

lemma normalize_loop_Cons:
  "normalize_loop limit out (c # rest) =
     (if limit < len out + len (repair c) then (out, True) else normalize_loop limit (out @ repair c) rest)"
  by (simp add: repair_def)

declare normalize_loop.simps(2) [simp del]

lemma repair_nonempty: "c \<in> set (runes s) \<Longrightarrow> repair c \<noteq> []"
  using runes_width [of c s] by (auto simp: repair_def)

lemma valid_repair: "c \<in> set (runes s) \<Longrightarrow> valid_utf8 (repair c)"
  using valid_encode_all [of "[rune_error]"] by (simp add: repair_def valid_chunk)

lemma normalize_loop_length: "len out \<le> limit \<Longrightarrow> len (fst (normalize_loop limit out cs)) \<le> limit"
  by (induction cs arbitrary: out) (auto simp: normalize_loop_Cons)

lemma normalize_loop_valid:
  "valid_utf8 out \<Longrightarrow> (\<And>c. c \<in> set cs \<Longrightarrow> valid_utf8 (repair c)) \<Longrightarrow> valid_utf8 (fst (normalize_loop limit out cs))"
  by (induction cs arbitrary: out) (auto simp: normalize_loop_Cons valid_utf8_append)

lemma normalize_loop_complete:
  "snd (normalize_loop limit out cs) = False \<Longrightarrow> fst (normalize_loop limit out cs) = out @ concat (map repair cs)"
  by (induction cs arbitrary: out) (auto simp: normalize_loop_Cons split: if_splits)

lemma normalize_loop_fits:
  "len out + len (concat (map repair cs)) \<le> limit \<Longrightarrow> normalize_loop limit out (cs @ ds) = normalize_loop limit (out @ concat (map repair cs)) ds"
  by (induction cs arbitrary: out) (auto simp: normalize_loop_Cons)

lemma normalize_loop_full:
  assumes "\<And>c. c \<in> set cs \<Longrightarrow> repair c \<noteq> []"
  shows "normalize_loop (len out) out cs = (out, cs \<noteq> [])"
  using assms by (cases cs) (auto simp: normalize_loop_Cons)

lemma repair_valid: "valid_utf8 s \<Longrightarrow> concat (map repair (runes s)) = s"
proof -
  assume v: "valid_utf8 s"
  have "map repair (runes s) = map snd (runes s)"
    using v by (auto simp: valid_utf8_def repair_def)
  then show ?thesis by (simp only: concat_runes)
qed

text \<open>The fast path, taken when the bounded prefix is well-formed, computes what the loop would.\<close>

lemma normalize_fast_path:
  assumes "valid_utf8 (take n v)"
  shows "normalize_loop (int n) [] (runes v) = (take n v, n < length v)"
proof -
  let ?p = "take n v" and ?q = "drop n v"
  have r: "runes v = runes ?p @ runes ?q"
    using runes_append_valid [OF assms, of ?q] by simp
  have p: "concat (map repair (runes ?p)) = ?p" using repair_valid [OF assms] .
  have "normalize_loop (int n) [] (runes ?p @ runes ?q) = normalize_loop (int n) ?p (runes ?q)"
    using normalize_loop_fits [of "[]" "runes ?p" "int n" "runes ?q"] p by simp
  also have "\<dots> = (?p, n < length v)"
  proof (cases "n < length v")
    case True
    then have "len ?p = int n" "?q \<noteq> []" by simp_all
    moreover have "runes ?q \<noteq> []" using \<open>?q \<noteq> []\<close> by (simp add: runes_nonempty)
    ultimately show ?thesis
      using normalize_loop_full [of "runes ?q" ?p] repair_nonempty True by auto
  qed simp
  finally show ?thesis by (simp only: r)
qed

lemma normalizeBoundedUTF8_eq_loop:
  assumes "0 < n"
  shows "normalizeBoundedUTF8 v n = normalize_loop n [] (runes v)"
proof -
  define k where "k = nat (if len v > n then n else len v)"
  have k: "int k = (if len v > n then n else len v)" using assms by (simp add: k_def)
  show ?thesis
  proof (cases "valid_utf8 (take k v)")
    case True
    show ?thesis
    proof (cases "len v > n")
      case True
      then have "int k = n" using k by simp
      then show ?thesis
        using normalize_fast_path [OF \<open>valid_utf8 (take k v)\<close>] assms True \<open>valid_utf8 (take k v)\<close>
        by (auto simp: normalizeBoundedUTF8_def Let_def)
    next
      case False
      then have "k = length v" "valid_utf8 v" using k \<open>valid_utf8 (take k v)\<close> by auto
      then show ?thesis
        using normalize_loop_fits [of "[]" "runes v" n "[]"] repair_valid [of v] assms False
        by (auto simp: normalizeBoundedUTF8_def)
    qed
  next
    case False
    then show ?thesis using assms k_def by (auto simp: normalizeBoundedUTF8_def Let_def)
  qed
qed

lemma normalizeBoundedUTF8_zero: "n \<le> 0 \<Longrightarrow> normalizeBoundedUTF8 v n = ([], v \<noteq> [])"
  by (simp add: normalizeBoundedUTF8_def)

lemma normalizeBoundedUTF8_valid [simp]: "valid_utf8 (fst (normalizeBoundedUTF8 v n))"
  by (cases "0 < n")
    (auto simp: normalizeBoundedUTF8_eq_loop normalizeBoundedUTF8_zero valid_repair intro: normalize_loop_valid)

lemma normalizeBoundedUTF8_len: "0 \<le> n \<Longrightarrow> len (fst (normalizeBoundedUTF8 v n)) \<le> n"
  using normalize_loop_length [of "[]" n "runes v"]
  by (cases "0 < n") (auto simp: normalizeBoundedUTF8_eq_loop normalizeBoundedUTF8_zero)

lemma normalizeBoundedUTF8_id: "valid_utf8 v \<Longrightarrow> len v \<le> n \<Longrightarrow> normalizeBoundedUTF8 v n = (v, False)"
proof (cases "v = []")
  case False
  assume "valid_utf8 v" "len v \<le> n"
  moreover have "0 < len v" using False by simp
  then have "0 < n" using \<open>len v \<le> n\<close> by linarith
  ultimately show ?thesis by (auto simp: normalizeBoundedUTF8_def)
qed (simp add: normalizeBoundedUTF8_def)

lemma normalizeBoundedUTF8_idem:
  "0 \<le> n \<Longrightarrow> normalizeBoundedUTF8 (fst (normalizeBoundedUTF8 v n)) n = (fst (normalizeBoundedUTF8 v n), False)"
  by (rule normalizeBoundedUTF8_id) (simp_all add: normalizeBoundedUTF8_len)

lemma NormalizeText_valid [simp]: "valid_utf8 (fst (NormalizeText v))"
  by (simp add: NormalizeText_bounded)

lemma NormalizeText_len: "len (fst (NormalizeText v)) \<le> MaxRetainedTextBytes"
  unfolding NormalizeText_bounded by (rule normalizeBoundedUTF8_len) (simp add: MaxRetainedTextBytes_def)

lemma NormalizeText_id: "valid_utf8 v \<Longrightarrow> len v \<le> MaxRetainedTextBytes \<Longrightarrow> NormalizeText v = (v, False)"
  by (simp add: NormalizeText_bounded normalizeBoundedUTF8_id)

text \<open>Truncation of well-formed text cuts at a rune boundary and loses less than one rune of the limit.\<close>

lemma normalize_loop_prefix:
  assumes "\<And>c. c \<in> set cs \<Longrightarrow> \<not> bad_rune c \<and> snd c \<noteq> [] \<and> length (snd c) \<le> 4"
    and "normalize_loop limit out cs = (res, True)"
  shows "\<exists>vs. out @ concat (map snd cs) = res @ vs \<and> vs \<noteq> [] \<and> limit - 4 < len res"
  using assms
proof (induction cs arbitrary: out)
  case Nil
  then show ?case by simp
next
  case (Cons c cs)
  have c: "repair c = snd c" "snd c \<noteq> []" "length (snd c) \<le> 4"
    using Cons.prems(1) by (simp_all add: repair_def)
  show ?case
  proof (cases "limit < len out + len (snd c)")
    case True
    then have "res = out" using Cons.prems(2) c by (simp add: normalize_loop_Cons)
    then show ?thesis using True c by (intro exI [of _ "concat (map snd (c # cs))"]) auto
  next
    case False
    then show ?thesis using Cons.IH [of "out @ snd c"] Cons.prems c by (simp add: normalize_loop_Cons)
  qed
qed

lemma normalizeBoundedUTF8_prefix:
  assumes "valid_utf8 v" "normalizeBoundedUTF8 v n = (t, True)" "0 < n"
  shows "\<exists>vs. v = t @ vs \<and> vs \<noteq> [] \<and> n - 4 < len t"
  using normalize_loop_prefix [of "runes v" n "[]" t] assms runes_width
  by (fastforce simp: normalizeBoundedUTF8_eq_loop valid_utf8_def)

section \<open>Overflow-checked sums\<close>

text \<open>\<open>checkedByteSum\<close>: the running total of a variadic call; \<open>None\<close> is \<open>(0, false)\<close>.\<close>

fun checked_sum_from :: "int \<Rightarrow> int list \<Rightarrow> int option" where
  "checked_sum_from acc [] = Some acc"
| "checked_sum_from acc (part # parts) =
     (if part < 0 \<or> acc > max_int - part then None else checked_sum_from (acc + part) parts)"

definition checkedByteSum :: "int list \<Rightarrow> int option" where
  "checkedByteSum parts = checked_sum_from 0 parts"

lemma checked_sum_from_Some_iff:
  "0 \<le> acc \<Longrightarrow> acc \<le> max_int \<Longrightarrow> checked_sum_from acc parts = Some s \<longleftrightarrow>
    (\<forall>p \<in> set parts. 0 \<le> p) \<and> acc + sum_list parts \<le> max_int \<and> s = acc + sum_list parts"
proof (induction parts arbitrary: acc)
  case Nil
  then show ?case by auto
next
  case (Cons p ps)
  have nn: "(\<forall>q \<in> set ps. 0 \<le> q) \<longrightarrow> 0 \<le> sum_list ps" by (simp add: sum_list_nonneg)
  show ?case
  proof (cases "p < 0 \<or> acc > max_int - p")
    case True
    then show ?thesis using Cons.prems nn by force
  next
    case False
    then show ?thesis using Cons.IH [of "acc + p"] Cons.prems nn by (auto simp: add.assoc)
  qed
qed

lemma checkedByteSum_Some_iff:
  "checkedByteSum parts = Some s \<longleftrightarrow> (\<forall>p \<in> set parts. 0 \<le> p) \<and> sum_list parts \<le> max_int \<and> s = sum_list parts"
  using checked_sum_from_Some_iff [of 0 parts s] by (auto simp: checkedByteSum_def max_int_def)

lemma checkedByteSum_small:
  "(\<And>p. p \<in> set parts \<Longrightarrow> 0 \<le> p) \<Longrightarrow> sum_list parts \<le> max_int \<Longrightarrow> checkedByteSum parts = Some (sum_list parts)"
  by (simp add: checkedByteSum_Some_iff)

section \<open>Plain ASCII\<close>

lemma ascii_runes: "list_all (\<lambda>c. byte c < 128) s \<Longrightarrow> runes s = map (\<lambda>c. (byte c, [c])) s"
  by (induction s) (simp_all add: runes_nonempty decode_rune_1)

lemma ascii_valid: "list_all (\<lambda>c. byte c < 128) s \<Longrightarrow> valid_utf8 s"
  by (fastforce simp: valid_utf8_def ascii_runes bad_rune_def rune_error_def list_all_iff)

lemma ascii_clean:
  assumes "s \<noteq> []" "len s \<le> n" "list_all (\<lambda>c. 32 \<le> byte c \<and> byte c < 127) s"
  shows "clean_text n s"
proof -
  have "list_all (\<lambda>c. byte c < 128) s" using assms(3) by (fastforce simp: list_all_iff)
  then show ?thesis
    using assms by (fastforce simp: clean_text_def ascii_valid has_control_def ascii_runes is_control_def list_all_iff)
qed

lemmas ascii_eval = byte_def MaxIdentifierBytes_def

section \<open>Properties\<close>

text \<open>An identifier constructor accepts exactly the non-empty, bounded, valid UTF-8 strings without control
  characters, and keeps them byte for byte.\<close>

theorem identifiers_exact:
  "(NewChatID v = Inr c \<longleftrightarrow> clean_text MaxIdentifierBytes v \<and> chat_id_value c = v)
   \<and> (NewContactID v = Inr k \<longleftrightarrow> clean_text MaxIdentifierBytes v \<and> contact_id_value k = v)
   \<and> (NewMessageID v = Inr m \<longleftrightarrow> clean_text MaxIdentifierBytes v \<and> message_id_value m = v)"
  by (intro conjI chat_ids.make_eq_Inr contact_ids.make_eq_Inr message_ids.make_eq_Inr)

text \<open>C15: The fast path of the bounded normaliser computes what the rune-by-rune loop computes.\<close>

theorem normalize_fast_path_equivalent:
  assumes "0 < n"
  shows "normalizeBoundedUTF8 v n = normalize_loop n [] (runes v)"
  by (rule normalizeBoundedUTF8_eq_loop [OF assms])

theorem normalize_fast_path_equivalent_witness:
  "normalizeBoundedUTF8 [CHR ''a'', CHR 0xFF, CHR ''b''] 4 = ([CHR ''a'', CHR 0xEF, CHR 0xBF, CHR 0xBD], True)"
  by (subst normalize_fast_path_equivalent)
    (simp_all add: runes_nonempty decode_rune_def leading_def byte_def bad_rune_def encode_rune_def rune_error_def char_of_def bit_0
      normalize_loop.simps)

text \<open>C11: A normalised text is valid UTF-8 within its bound, normalising it again changes nothing, a valid text that
  fits is kept, and a valid text that does not fit is cut to a proper prefix that wastes fewer than four bytes.\<close>

theorem normalize_contract:
  assumes "0 < n" "normalizeBoundedUTF8 v n = (t, shortened)"
  shows "valid_utf8 t \<and> len t \<le> n \<and> normalizeBoundedUTF8 t n = (t, False)
    \<and> (valid_utf8 v \<longrightarrow> (if len v \<le> n then t = v \<and> \<not> shortened
         else shortened \<and> (\<exists>rest. v = t @ rest \<and> rest \<noteq> [] \<and> n - 4 < len t)))"
proof -
  have t: "t = fst (normalizeBoundedUTF8 v n)" using assms(2) by simp
  have out: "valid_utf8 t" "len t \<le> n" "normalizeBoundedUTF8 t n = (t, False)"
    using assms(1) normalizeBoundedUTF8_len [of n v] normalizeBoundedUTF8_idem [of n v] by (simp_all add: t)
  have "if len v \<le> n then t = v \<and> \<not> shortened else shortened \<and> (\<exists>rest. v = t @ rest \<and> rest \<noteq> [] \<and> n - 4 < len t)"
    if v: "valid_utf8 v"
  proof (cases "len v \<le> n")
    case True
    then show ?thesis using assms(2) normalizeBoundedUTF8_id [OF v True] by simp
  next
    case False
    have "shortened"
    proof (rule ccontr)
      assume "\<not> shortened"
      then have "normalize_loop n [] (runes v) = (t, False)" using assms normalizeBoundedUTF8_eq_loop [OF assms(1)] by simp
      then have "t = v" using normalize_loop_complete [of n "[]" "runes v"] repair_valid [OF v] by simp
      then show False using out(2) False by simp
    qed
    then show ?thesis using False normalizeBoundedUTF8_prefix [OF v _ assms(1)] assms(2) by auto
  qed
  then show ?thesis using out by blast
qed

theorem normalize_contract_witness:
  "normalizeBoundedUTF8 ''abc'' 2 = (''ab'', True) \<and> normalizeBoundedUTF8 ''ab'' 2 = (''ab'', False)"
proof -
  have short: "normalizeBoundedUTF8 ''abc'' 2 = (''ab'', True)"
    by (simp add: normalizeBoundedUTF8_def ascii_valid byte_def)
  show ?thesis using normalize_contract [OF _ short] short by simp
qed

end
