(* ===== verification/Media.thy ===== *)
theory Media
  imports Validation
begin

text \<open>
  Media descriptors and reply quotes: \<open>internal/model/media.go\<close>, \<open>sticker_send.go\<close> and
  \<open>text_quote.go\<close>. A \<open>MediaKind\<close> is kept as the 8-bit value it is, so that values outside the
  enumeration can be stated and are rejected where the code rejects them.
\<close>

section \<open>Media\<close>

type_synonym media_kind = "8 word"

definition MediaImage :: media_kind where "MediaImage = 1"
definition MediaVideo :: media_kind where "MediaVideo = 2"
definition MediaDocument :: media_kind where "MediaDocument = 3"
definition MediaAudio :: media_kind where "MediaAudio = 4"
definition MediaSticker :: media_kind where "MediaSticker = 5"

lemmas media_kinds = MediaImage_def MediaVideo_def MediaDocument_def MediaAudio_def MediaSticker_def

definition MaxMediaNameBytes :: int where "MaxMediaNameBytes = 512"
definition MaxMediaMIMEBytes :: int where "MaxMediaMIMEBytes = 256"
definition MaxMediaDirectPathBytes :: int where "MaxMediaDirectPathBytes = 3072"
definition MaxMediaKeyBytes :: int where "MaxMediaKeyBytes = 64"
definition MaxMediaHashBytes :: int where "MaxMediaHashBytes = 64"
definition MaxOutgoingMediaBytes :: int where "MaxOutgoingMediaBytes = 100 * 2 ^ 20"

lemmas media_limits = MaxMediaNameBytes_def MaxMediaMIMEBytes_def MaxMediaDirectPathBytes_def
  MaxMediaKeyBytes_def MaxMediaHashBytes_def

record media =
  media_kind :: media_kind
  media_name :: string
  media_mimeType :: string
  media_directPath :: string
  media_mediaKey :: string
  media_fileSHA256 :: string
  media_fileEncSHA256 :: string
  media_declaredBytes :: "64 word"

definition zero_media :: media where
  "zero_media = \<lparr>media_kind = 0, media_name = [], media_mimeType = [], media_directPath = [],
     media_mediaKey = [], media_fileSHA256 = [], media_fileEncSHA256 = [], media_declaredBytes = 0\<rparr>"

definition validMediaKind :: "media_kind \<Rightarrow> bool" where
  "validMediaKind kind \<longleftrightarrow> MediaImage \<le> kind \<and> kind \<le> MediaSticker"

definition media_kind_String :: "media_kind \<Rightarrow> string" where
  "media_kind_String kind =
     (if kind = MediaImage then ''image''
      else if kind = MediaVideo then ''video''
      else if kind = MediaDocument then ''document''
      else if kind = MediaAudio then ''audio''
      else if kind = MediaSticker then ''sticker''
      else '''')"

definition normalizeMediaField :: "string \<Rightarrow> int \<Rightarrow> string" where
  "normalizeMediaField value limit = strings_Map blank_control (fst (normalizeBoundedUTF8 value limit))"

definition NewMedia :: "media_kind \<Rightarrow> string \<Rightarrow> string \<Rightarrow> model_error + media" where
  "NewMedia kind name mimeType =
     (if \<not> validMediaKind kind then Inl (newValidationError InvalidValue ''media_kind'' 0)
      else Inr (zero_media\<lparr>media_kind := kind,
        media_name := normalizeMediaField name MaxMediaNameBytes,
        media_mimeType := normalizeMediaField mimeType MaxMediaMIMEBytes\<rparr>))"

definition validDownloadMetadata :: "string \<Rightarrow> string \<Rightarrow> string \<Rightarrow> string \<Rightarrow> bool" where
  "validDownloadMetadata path key hash encHash \<longleftrightarrow>
     (if path = [] \<or> hd path \<noteq> CHR ''/'' \<or> len path > MaxMediaDirectPathBytes \<or> \<not> valid_utf8 path
         \<or> len key = 0 \<or> len key > MaxMediaKeyBytes \<or> len hash = 0 \<or> len hash > MaxMediaHashBytes
         \<or> len encHash = 0 \<or> len encHash > MaxMediaHashBytes
      then False
      else \<not> (\<exists>c \<in> set (runes path). is_control (fst c)))"

definition NewDownloadableMedia ::
  "media_kind \<Rightarrow> string \<Rightarrow> string \<Rightarrow> string \<Rightarrow> string \<Rightarrow> string \<Rightarrow> string \<Rightarrow> 64 word \<Rightarrow> model_error + media" where
  "NewDownloadableMedia kind name mimeType directPath mediaKey fileSHA256 fileEncSHA256 declaredBytes =
     on_ok (NewMedia kind name mimeType) (\<lambda>media.
       if \<not> validDownloadMetadata directPath mediaKey fileSHA256 fileEncSHA256
       then Inl (newValidationError InvalidValue ''media_download'' 0)
       else Inr (media\<lparr>media_directPath := directPath, media_mediaKey := mediaKey,
         media_fileSHA256 := fileSHA256, media_fileEncSHA256 := fileEncSHA256,
         media_declaredBytes := declaredBytes\<rparr>))"

text \<open>\<open>Download()\<close>: the descriptor is the media value itself, present when it has a direct path.\<close>

definition media_Download :: "media \<Rightarrow> media option" where
  "media_Download media = (if media_directPath media = [] then None else Some media)"

definition validateMedia :: "media \<Rightarrow> model_error option" where
  "validateMedia media =
     (if media = zero_media then None
      else if \<not> validMediaKind (media_kind media) then Some (newValidationError InvalidValue ''media_kind'' 0)
      else if len (media_name media) > MaxMediaNameBytes then
        Some (newValidationError TooLong ''media_name'' MaxMediaNameBytes)
      else if len (media_mimeType media) > MaxMediaMIMEBytes then
        Some (newValidationError TooLong ''media_mime_type'' MaxMediaMIMEBytes)
      else if media_directPath media \<noteq> [] \<and> \<not> validDownloadMetadata (media_directPath media)
          (media_mediaKey media) (media_fileSHA256 media) (media_fileEncSHA256 media) then
        Some (newValidationError InvalidValue ''media_download'' 0)
      else if media_directPath media = [] \<and> (media_mediaKey media \<noteq> [] \<or> media_fileSHA256 media \<noteq> []
          \<or> media_fileEncSHA256 media \<noteq> [] \<or> media_declaredBytes media \<noteq> 0) then
        Some (newValidationError InvalidValue ''media_download'' 0)
      else None)"

definition cloneMedia :: "media \<Rightarrow> model_error + media" where
  "cloneMedia media =
     fail_if (validateMedia media)
       (if media = zero_media then Inr zero_media
        else Inr \<lparr>media_kind = media_kind media, media_name = media_name media,
          media_mimeType = media_mimeType media, media_directPath = media_directPath media,
          media_mediaKey = media_mediaKey media, media_fileSHA256 = media_fileSHA256 media,
          media_fileEncSHA256 = media_fileEncSHA256 media, media_declaredBytes = media_declaredBytes media\<rparr>)"

text \<open>Fields that went through the normaliser: bounded, well-formed, printable.\<close>

definition clean_field :: "int \<Rightarrow> string \<Rightarrow> bool" where
  "clean_field limit v \<longleftrightarrow> len v \<le> limit \<and> valid_utf8 v \<and> \<not> has_control v"

lemma clean_field_Nil [simp]: "0 \<le> n \<Longrightarrow> clean_field n []"
  by (simp add: clean_field_def has_control_def)

lemma normalizeMediaField_clean: "0 \<le> n \<Longrightarrow> clean_field n (normalizeMediaField v n)"
  using length_Map_blank [of "fst (normalizeBoundedUTF8 v n)"] normalizeBoundedUTF8_len [of n v]
  by (simp add: normalizeMediaField_def clean_field_def no_control_Map)

lemma normalizeMediaField_id: "clean_field n v \<Longrightarrow> normalizeMediaField v n = v"
  by (simp add: normalizeMediaField_def clean_field_def normalizeBoundedUTF8_id Map_blank_id)

lemma zero_kind_invalid [simp]: "\<not> validMediaKind 0"
  by (simp add: validMediaKind_def media_kinds)

lemma zero_media_simps [simp]:
  "media_kind zero_media = 0" "media_name zero_media = []" "media_mimeType zero_media = []"
  "media_directPath zero_media = []" "media_mediaKey zero_media = []" "media_fileSHA256 zero_media = []"
  "media_fileEncSHA256 zero_media = []" "media_declaredBytes zero_media = 0"
  by (simp_all add: zero_media_def)

lemma validMediaKind_nonzero: "validMediaKind (media_kind m) \<Longrightarrow> m \<noteq> zero_media"
  by auto

lemma validateMedia_None_iff:
  "validateMedia m = None \<longleftrightarrow> m = zero_media \<or>
     (validMediaKind (media_kind m) \<and> len (media_name m) \<le> MaxMediaNameBytes
      \<and> len (media_mimeType m) \<le> MaxMediaMIMEBytes
      \<and> (if media_directPath m \<noteq> []
         then validDownloadMetadata (media_directPath m) (media_mediaKey m) (media_fileSHA256 m) (media_fileEncSHA256 m)
         else media_mediaKey m = [] \<and> media_fileSHA256 m = [] \<and> media_fileEncSHA256 m = [] \<and> media_declaredBytes m = 0))"
  by (auto simp: validateMedia_def)

lemma validateMedia_zero [simp]: "validateMedia zero_media = None"
  by (simp add: validateMedia_def)

lemma cloneMedia_eq: "cloneMedia m = fail_if (validateMedia m) (Inr m)"
  by (cases "validateMedia m") (auto simp: cloneMedia_def)

lemma NewMedia_eq_Inr:
  "NewMedia k n t = Inr m \<longleftrightarrow> validMediaKind k \<and>
     m = zero_media\<lparr>media_kind := k, media_name := normalizeMediaField n MaxMediaNameBytes,
       media_mimeType := normalizeMediaField t MaxMediaMIMEBytes\<rparr>"
  by (auto simp: NewMedia_def)

lemma NewMedia_fields:
  assumes "NewMedia k n t = Inr m"
  shows "validMediaKind (media_kind m)" "clean_field MaxMediaNameBytes (media_name m)"
    "clean_field MaxMediaMIMEBytes (media_mimeType m)" "media_directPath m = []" "media_mediaKey m = []"
    "media_fileSHA256 m = []" "media_fileEncSHA256 m = []" "media_declaredBytes m = 0" "media_kind m = k"
  using assms normalizeMediaField_clean [of MaxMediaNameBytes n] normalizeMediaField_clean [of MaxMediaMIMEBytes t]
  by (auto simp: NewMedia_eq_Inr media_limits)

lemma NewMedia_valid: "NewMedia k n t = Inr m \<Longrightarrow> validateMedia m = None"
  using NewMedia_fields [of k n t m] by (simp add: validateMedia_None_iff clean_field_def)

text \<open>Plain descriptors, the ones \<open>NewMedia\<close> builds: building one again from its accessors changes nothing.\<close>

definition plain_media :: "media \<Rightarrow> bool" where
  "plain_media m \<longleftrightarrow> validMediaKind (media_kind m) \<and> clean_field MaxMediaNameBytes (media_name m)
     \<and> clean_field MaxMediaMIMEBytes (media_mimeType m) \<and> media_directPath m = [] \<and> media_mediaKey m = []
     \<and> media_fileSHA256 m = [] \<and> media_fileEncSHA256 m = [] \<and> media_declaredBytes m = 0"

lemma NewMedia_plain: "NewMedia k n t = Inr m \<Longrightarrow> plain_media m"
  using NewMedia_fields [of k n t m] by (simp add: plain_media_def)

lemma NewMedia_accessors: "plain_media m \<Longrightarrow> NewMedia (media_kind m) (media_name m) (media_mimeType m) = Inr m"
  by (auto simp: plain_media_def NewMedia_eq_Inr normalizeMediaField_id zero_media_def)

lemma NewDownloadableMedia_eq_Inr:
  "NewDownloadableMedia k n t p key h e d = Inr m \<longleftrightarrow>
     (\<exists>b. NewMedia k n t = Inr b \<and> validDownloadMetadata p key h e \<and>
       m = b\<lparr>media_directPath := p, media_mediaKey := key, media_fileSHA256 := h, media_fileEncSHA256 := e,
         media_declaredBytes := d\<rparr>)"
  by (auto simp: NewDownloadableMedia_def)

lemma validDownloadMetadata_path: "validDownloadMetadata p key h e \<Longrightarrow> p \<noteq> []"
  by (auto simp: validDownloadMetadata_def)

lemma NewDownloadableMedia_valid: "NewDownloadableMedia k n t p key h e d = Inr m \<Longrightarrow> validateMedia m = None"
  using NewMedia_fields [of k n t] validDownloadMetadata_path [of p key h e]
  by (auto simp: NewDownloadableMedia_eq_Inr validateMedia_None_iff clean_field_def)

lemma media_bytes_bounded:
  assumes "validateMedia m = None"
  shows "len (media_name m) \<le> 512" "len (media_mimeType m) \<le> 256" "len (media_directPath m) \<le> 3072"
    "len (media_mediaKey m) \<le> 64" "len (media_fileSHA256 m) \<le> 64" "len (media_fileEncSHA256 m) \<le> 64"
  using assms by (auto simp: validateMedia_None_iff validDownloadMetadata_def media_limits split: if_splits)

section \<open>Outgoing stickers\<close>

definition StickerWidth :: "32 word" where "StickerWidth = 512"
definition StickerHeight :: "32 word" where "StickerHeight = 512"
definition MaxStaticStickerBytes :: "64 word" where "MaxStaticStickerBytes = 100 * 1024"
definition MaxAnimatedStickerBytes :: "64 word" where "MaxAnimatedStickerBytes = 500 * 1024"

record sticker_metadata =
  sticker_width :: "32 word"
  sticker_height :: "32 word"
  sticker_animated :: bool

definition sticker_ValidFor :: "sticker_metadata \<Rightarrow> 64 word \<Rightarrow> bool" where
  "sticker_ValidFor m bytes \<longleftrightarrow>
     (if sticker_width m \<noteq> StickerWidth \<or> sticker_height m \<noteq> StickerHeight \<or> bytes = 0 then False
      else if sticker_animated m then bytes \<le> MaxAnimatedStickerBytes
      else bytes \<le> MaxStaticStickerBytes)"

definition NewStickerSendMetadata :: "32 word \<Rightarrow> 32 word \<Rightarrow> bool \<Rightarrow> 64 word \<Rightarrow> sticker_metadata \<times> bool" where
  "NewStickerSendMetadata width height animated bytes =
     (let metadata = \<lparr>sticker_width = width, sticker_height = height, sticker_animated = animated\<rparr>
      in (metadata, sticker_ValidFor metadata bytes))"

definition zero_sticker :: sticker_metadata where
  "zero_sticker = \<lparr>sticker_width = 0, sticker_height = 0, sticker_animated = False\<rparr>"

definition sticker_IsZero :: "sticker_metadata \<Rightarrow> bool" where
  "sticker_IsZero m \<longleftrightarrow> m = zero_sticker"

lemma zero_sticker_invalid: "\<not> sticker_ValidFor zero_sticker bytes"
  by (simp add: sticker_ValidFor_def zero_sticker_def StickerWidth_def)

end
