(* ===== verification/Quote.thy ===== *)
theory Quote
  imports Media
begin

text \<open>
  Reply quotes, \<open>internal/model/text_quote.go\<close>: a bounded same-chat reference with an excerpt cut at
  a rune boundary, the two constructors, the participant and the rebuild that the message validator
  runs over every quote it is handed.
\<close>

definition MaxQuoteTextBytes :: int where "MaxQuoteTextBytes = 1024"

record text_quote =
  quote_id :: message_id
  quote_text :: string
  quote_fromMe :: bool
  quote_media :: media
  quote_participantID :: chat_id

definition zero_quote :: text_quote where
  "zero_quote = \<lparr>quote_id = MessageID [], quote_text = [], quote_fromMe = False, quote_media = zero_media,
     quote_participantID = ChatID []\<rparr>"

text \<open>\<open>utf8.RuneStart\<close>, and the loop \<open>for !utf8.RuneStart(text[end]) { end-- }\<close>: \<open>None\<close> is the panic of
  an index that ran below zero.\<close>

definition rune_start :: "char \<Rightarrow> bool" where
  "rune_start c \<longleftrightarrow> byte c div 64 \<noteq> 2"

fun back_to_rune_start :: "string \<Rightarrow> nat \<Rightarrow> nat option" where
  "back_to_rune_start text 0 = (if rune_start (text ! 0) then Some 0 else None)"
| "back_to_rune_start text (Suc e) =
     (if rune_start (text ! Suc e) then Some (Suc e) else back_to_rune_start text e)"

definition index_panic :: model_error where
  "index_panic = PlainError ''index out of range''"

definition newQuote :: "string \<Rightarrow> string \<Rightarrow> bool \<Rightarrow> media \<Rightarrow> bool \<Rightarrow> model_error + text_quote" where
  "newQuote qid text fromMe media requireText =
     on_ok (NewMessageID qid) (\<lambda>messageID.
       if requireText \<and> text = [] then Inl (newValidationError Required ''quote_text'' 0)
       else if len text > MaxRetainedTextBytes then Inl (newValidationError TooLong ''quote_text'' MaxRetainedTextBytes)
       else if \<not> valid_utf8 text then Inl (newValidationError InvalidUTF8 ''quote_text'' MaxQuoteTextBytes)
       else
         (case (if len text > MaxQuoteTextBytes then back_to_rune_start text (nat MaxQuoteTextBytes)
                else Some (length text)) of
            None \<Rightarrow> Inl index_panic
          | Some e \<Rightarrow> Inr \<lparr>quote_id = messageID, quote_text = take e text, quote_fromMe = fromMe,
              quote_media = media, quote_participantID = ChatID []\<rparr>))"

definition NewTextQuote :: "string \<Rightarrow> string \<Rightarrow> bool \<Rightarrow> model_error + text_quote" where
  "NewTextQuote qid text fromMe = newQuote qid text fromMe zero_media True"

definition NewMediaQuote :: "string \<Rightarrow> string \<Rightarrow> bool \<Rightarrow> media \<Rightarrow> model_error + text_quote" where
  "NewMediaQuote qid caption fromMe media =
     (if media_kind media = 0 then Inl (newValidationError Required ''quote_media'' 0)
      else on_ok (NewMedia (media_kind media) (media_name media) (media_mimeType media))
        (\<lambda>owned. newQuote qid caption fromMe owned False))"

definition quote_WithParticipant :: "text_quote \<Rightarrow> string \<Rightarrow> model_error + text_quote" where
  "quote_WithParticipant q qid = on_ok (NewChatID qid) (\<lambda>participant. Inr (q\<lparr>quote_participantID := participant\<rparr>))"

definition rebuild_quote :: "text_quote \<Rightarrow> model_error + text_quote" where
  "rebuild_quote q =
     (if media_kind (quote_media q) \<noteq> 0
      then NewMediaQuote (message_id_value (quote_id q)) (quote_text q) (quote_fromMe q) (quote_media q)
      else NewTextQuote (message_id_value (quote_id q)) (quote_text q) (quote_fromMe q))"

definition cloneTextQuote :: "text_quote \<Rightarrow> model_error + text_quote" where
  "cloneTextQuote q =
     (if q = zero_quote then Inr zero_quote
      else if len (quote_text q) > MaxQuoteTextBytes then Inl (newValidationError TooLong ''quote_text'' MaxQuoteTextBytes)
      else
        (let owned = rebuild_quote q
         in if \<not> is_ok owned \<or> chat_id_value (quote_participantID q) = [] then owned
            else on_ok owned (\<lambda>o'. quote_WithParticipant o' (chat_id_value (quote_participantID q)))))"

section \<open>Cutting at a rune boundary\<close>

lemma rune_start_lead: "192 \<le> n \<Longrightarrow> n < 256 \<Longrightarrow> rune_start (char_of (n :: nat))"
proof -
  assume "192 \<le> n" "n < 256"
  then have "n div 64 = 3" by (intro div_nat_eqI) auto
  then show ?thesis using \<open>n < 256\<close> by (simp add: rune_start_def)
qed

lemma rune_start_ascii: "n < 128 \<Longrightarrow> rune_start (char_of (n :: nat))"
proof -
  assume "n < 128"
  then have "n div 64 < 2" by (simp add: less_mult_imp_div_less)
  then show ?thesis using \<open>n < 128\<close> by (simp add: rune_start_def)
qed

lemma rune_start_continuation: "y < 64 \<Longrightarrow> \<not> rune_start (char_of (128 + y :: nat))"
proof -
  assume "y < 64"
  then have "(128 + y) div 64 = 2" by (intro div_nat_eqI) auto
  then show ?thesis using \<open>y < 64\<close> by (simp add: rune_start_def)
qed

lemma encode_rune_start: "rune_start (encode_rune r ! 0)"
proof -
  have "r < 2048 \<Longrightarrow> 192 + r div 64 < 256" "r < 65536 \<Longrightarrow> 224 + r div 4096 < 256" "r < 1114112 \<Longrightarrow> 240 + r div 262144 < 256"
    by simp_all
  then show ?thesis
    by (simp add: encode_rune_def rune_start_ascii rune_start_lead)
qed

lemma encode_rune_continuation:
  assumes "0 < k" "k < length (encode_rune r)"
  shows "\<not> rune_start (encode_rune r ! k)"
proof -
  have e: "\<not> rune_start (char_of (191 :: nat))" "\<not> rune_start (char_of (189 :: nat))"
    using rune_start_continuation [of 63] rune_start_continuation [of 61] by simp_all
  have "k = 1 \<or> k = 2 \<or> k = 3" using assms length_encode_rune(2) [of r] by linarith
  then show ?thesis
    using assms(2) unfolding encode_rune_def
    by (elim disjE) (auto simp: e rune_start_continuation nth_Cons' split: if_splits)
qed

lemmas encode_rune_starts = encode_rune_start encode_rune_continuation

lemma back_to_rune_start_first:
  "rune_start (t ! 0) \<Longrightarrow> (\<And>i. 0 < i \<Longrightarrow> i \<le> k \<Longrightarrow> \<not> rune_start (t ! i)) \<Longrightarrow> back_to_rune_start t k = Some 0"
  by (induction k) auto

lemma back_to_rune_start_shift:
  "back_to_rune_start t k = Some j \<Longrightarrow> back_to_rune_start (p @ t) (length p + k) = Some (length p + j)"
proof (induction k)
  case 0
  then have "rune_start (t ! 0)" "j = 0" by (auto split: if_splits)
  moreover have "(p @ t) ! length p = t ! 0" by (simp add: nth_append del: append_Nil2)
  ultimately show ?case by (cases "length p") auto
next
  case (Suc k)
  have "(p @ t) ! Suc (length p + k) = t ! Suc k"
    using nth_append_length_plus [of p t "Suc k"] by simp
  then show ?case using Suc by (auto split: if_splits)
qed

lemma back_to_rune_start_valid:
  "valid_utf8 t \<Longrightarrow> k < length t \<Longrightarrow> \<exists>j. back_to_rune_start t k = Some j \<and> j \<le> k \<and> k < j + 4 \<and> valid_utf8 (take j t)"
proof (induction t arbitrary: k rule: runes.induct)
  case (1 t)
  have ne: "t \<noteq> []" using "1.prems" by auto
  let ?n = "snd (decode_rune t)"
  let ?c = "(fst (decode_rune t), take ?n t)"
  have mem: "?c \<in> set (runes t)" by (simp add: runes_nonempty [OF ne])
  have enc: "take ?n t = encode_rune (fst (decode_rune t))"
    using valid_runes_canonical [OF "1.prems"(1) mem] by simp
  have good: "\<not> bad_rune ?c" using "1.prems"(1) mem by (auto simp: valid_utf8_def)
  have w: "?n \<le> length t" "0 < ?n" "?n \<le> 4" using decode_rune_width [of t] ne by auto
  have split: "t = take ?n t @ drop ?n t" by simp
  have vd: "valid_utf8 (drop ?n t)"
    using "1.prems"(1) by (simp add: valid_utf8_step [OF ne])
  show ?case
  proof (cases "k < ?n")
    case True
    have "back_to_rune_start t k = Some 0"
    proof (rule back_to_rune_start_first)
      show "rune_start (t ! 0)"
        using encode_rune_starts(1) [of "fst (decode_rune t)"] w by (simp flip: enc)
      fix i assume "0 < i" "i \<le> k"
      then show "\<not> rune_start (t ! i)"
        using encode_rune_starts(2) [of i "fst (decode_rune t)"] w True by (simp flip: enc)
    qed
    then show ?thesis using True w by auto
  next
    case False
    then have "k - ?n < length (drop ?n t)" using "1.prems"(2) by simp
    then obtain j where j: "back_to_rune_start (drop ?n t) (k - ?n) = Some j" "j \<le> k - ?n" "k - ?n < j + 4"
      "valid_utf8 (take j (drop ?n t))"
      using "1.IH" [OF ne vd] by blast
    have "back_to_rune_start (take ?n t @ drop ?n t) (length (take ?n t) + (k - ?n)) = Some (length (take ?n t) + j)"
      by (rule back_to_rune_start_shift [OF j(1)])
    then have b: "back_to_rune_start t k = Some (?n + j)" using False w by simp
    have "take (?n + j) t = take ?n t @ take j (drop ?n t)" by (simp add: take_add)
    then have "valid_utf8 (take (?n + j) t)"
      using valid_chunk [OF mem good] j(4) by (simp add: valid_utf8_append)
    then show ?thesis using b j(2,3) False by auto
  qed
qed

section \<open>What the constructors build\<close>

lemma newQuote_cut:
  assumes "valid_utf8 text" "len text \<le> MaxRetainedTextBytes"
  obtains e where
    "(if len text > MaxQuoteTextBytes then back_to_rune_start text (nat MaxQuoteTextBytes) else Some (length text)) = Some e"
    "len (take e text) \<le> MaxQuoteTextBytes" "valid_utf8 (take e text)"
    "len text \<le> MaxQuoteTextBytes \<Longrightarrow> take e text = text" "text \<noteq> [] \<Longrightarrow> take e text \<noteq> []"
proof (cases "len text > MaxQuoteTextBytes")
  case True
  then have k: "nat MaxQuoteTextBytes < length text" by (simp add: MaxQuoteTextBytes_def)
  obtain j where "back_to_rune_start text (nat MaxQuoteTextBytes) = Some j" "j \<le> nat MaxQuoteTextBytes"
    "nat MaxQuoteTextBytes < j + 4" "valid_utf8 (take j text)"
    using back_to_rune_start_valid [OF assms(1) k] by blast
  then show ?thesis using that [of j] True by (auto simp: MaxQuoteTextBytes_def)
next
  case False
  then show ?thesis using that [of "length text"] assms by auto
qed

lemma newQuote_eq_Inr:
  "newQuote qid text fm md req = Inr q \<longleftrightarrow>
     valid_identifier qid \<and> \<not> (req \<and> text = []) \<and> len text \<le> MaxRetainedTextBytes \<and> valid_utf8 text \<and>
     (\<exists>e. (if len text > MaxQuoteTextBytes then back_to_rune_start text (nat MaxQuoteTextBytes)
            else Some (length text)) = Some e \<and>
       q = \<lparr>quote_id = MessageID qid, quote_text = take e text, quote_fromMe = fm, quote_media = md,
         quote_participantID = ChatID []\<rparr>)"
  unfolding newQuote_def by (auto split: option.splits)

text \<open>The quotes constructors hand out; rebuilding one is the identity.\<close>

definition owned_quote :: "text_quote \<Rightarrow> bool" where
  "owned_quote q \<longleftrightarrow> q = zero_quote \<or>
     (valid_identifier (message_id_value (quote_id q)) \<and> valid_utf8 (quote_text q)
      \<and> len (quote_text q) \<le> MaxQuoteTextBytes
      \<and> (if media_kind (quote_media q) = 0 then quote_media q = zero_media \<and> quote_text q \<noteq> []
         else plain_media (quote_media q))
      \<and> (chat_id_value (quote_participantID q) \<noteq> [] \<longrightarrow> valid_identifier (chat_id_value (quote_participantID q))))"

lemma newQuote_short:
  assumes "valid_identifier qid" "req \<Longrightarrow> text \<noteq> []" "valid_utf8 text" "len text \<le> MaxQuoteTextBytes"
  shows "newQuote qid text fm md req =
    Inr \<lparr>quote_id = MessageID qid, quote_text = text, quote_fromMe = fm, quote_media = md, quote_participantID = ChatID []\<rparr>"
  using assms by (auto simp: newQuote_eq_Inr MaxQuoteTextBytes_def MaxRetainedTextBytes_def)

lemma newQuote_owned:
  assumes "newQuote qid text fm md req = Inr q" "if media_kind md = 0 then md = zero_media \<and> req else plain_media md"
  shows "owned_quote q"
proof -
  have v: "valid_identifier qid" "valid_utf8 text" "len text \<le> MaxRetainedTextBytes" "req \<longrightarrow> text \<noteq> []"
    using assms(1) by (auto simp: newQuote_eq_Inr)
  obtain e where "(if len text > MaxQuoteTextBytes then back_to_rune_start text (nat MaxQuoteTextBytes)
      else Some (length text)) = Some e" "len (take e text) \<le> MaxQuoteTextBytes" "valid_utf8 (take e text)"
    "text \<noteq> [] \<Longrightarrow> take e text \<noteq> []"
    using newQuote_cut [OF v(2,3)] by metis
  then show ?thesis using assms v by (auto simp: newQuote_eq_Inr owned_quote_def)
qed

lemma plain_media_kind: "plain_media m \<Longrightarrow> media_kind m \<noteq> 0"
  by (auto simp: plain_media_def)

lemma NewTextQuote_owned: "NewTextQuote qid text fm = Inr q \<Longrightarrow> owned_quote q"
  unfolding NewTextQuote_def by (rule newQuote_owned) auto

lemma NewMediaQuote_owned: "NewMediaQuote qid text fm m = Inr q \<Longrightarrow> owned_quote q"
  by (auto simp: NewMediaQuote_def plain_media_kind dest!: NewMedia_plain intro: newQuote_owned)

lemma rebuild_quote_owned: "rebuild_quote q = Inr r \<Longrightarrow> owned_quote r"
  by (auto simp: rebuild_quote_def dest: NewTextQuote_owned NewMediaQuote_owned split: if_splits)

lemma zero_quote_simps [simp]:
  "quote_id zero_quote = MessageID []" "quote_text zero_quote = []" "quote_media zero_quote = zero_media"
  "quote_participantID zero_quote = ChatID []" "quote_fromMe zero_quote = False"
  by (simp_all add: zero_quote_def)

lemma newQuote_not_zero: "newQuote qid text fm md req = Inr q \<Longrightarrow> q \<noteq> zero_quote"
  by (auto simp: newQuote_eq_Inr zero_quote_def)

lemma rebuild_quote_fields:
  "rebuild_quote q = Inr r \<Longrightarrow> valid_identifier (message_id_value (quote_id r)) \<and> r \<noteq> zero_quote"
  by (auto simp: rebuild_quote_def NewTextQuote_def NewMediaQuote_def newQuote_eq_Inr zero_quote_def split: if_splits)

lemma WithParticipant_owned:
  assumes "owned_quote q" "q \<noteq> zero_quote" "quote_WithParticipant q qid = Inr r"
  shows "owned_quote r"
  using assms by (auto simp: owned_quote_def quote_WithParticipant_def)

lemma rebuild_owned:
  assumes "owned_quote q" "q \<noteq> zero_quote"
  shows "rebuild_quote q = Inr (q\<lparr>quote_participantID := ChatID []\<rparr>)"
proof -
  have q: "valid_identifier (message_id_value (quote_id q))" "valid_utf8 (quote_text q)"
    "len (quote_text q) \<le> MaxQuoteTextBytes"
    "if media_kind (quote_media q) = 0 then quote_media q = zero_media \<and> quote_text q \<noteq> [] else plain_media (quote_media q)"
    using assms by (auto simp: owned_quote_def)
  show ?thesis
  proof (cases "media_kind (quote_media q) = 0")
    case True
    then show ?thesis using q by (simp add: rebuild_quote_def NewTextQuote_def newQuote_short)
  next
    case False
    then show ?thesis using q by (simp add: rebuild_quote_def NewMediaQuote_def NewMedia_accessors newQuote_short)
  qed
qed

lemma cloneTextQuote_owned_id:
  assumes "owned_quote q"
  shows "cloneTextQuote q = Inr q"
proof (cases "q = zero_quote")
  case False
  then show ?thesis
    using rebuild_owned [OF assms False] assms
    by (auto simp: cloneTextQuote_def owned_quote_def quote_WithParticipant_def Let_def chat_id.expand)
qed (simp add: cloneTextQuote_def)

lemma cloneTextQuote_owned: "cloneTextQuote q = Inr r \<Longrightarrow> owned_quote r"
  by (auto simp: cloneTextQuote_def Let_def owned_quote_def [of zero_quote] is_ok_iff
      dest: rebuild_quote_owned rebuild_quote_fields WithParticipant_owned split: if_splits)

lemma owned_quote_zero [simp]: "owned_quote zero_quote" "cloneTextQuote zero_quote = Inr zero_quote"
  by (simp_all add: owned_quote_def cloneTextQuote_def)

text \<open>The quote's share of a message's bytes.\<close>

definition quote_bytes :: "text_quote \<Rightarrow> int list" where
  "quote_bytes q = [len (message_id_value (quote_id q)), len (quote_text q),
     len (chat_id_value (quote_participantID q)), len (media_name (quote_media q)), len (media_mimeType (quote_media q))]"

lemma owned_quote_bounds:
  assumes "owned_quote q"
  shows "len (message_id_value (quote_id q)) \<le> 512" "len (quote_text q) \<le> 1024"
    "len (chat_id_value (quote_participantID q)) \<le> 512" "len (media_name (quote_media q)) \<le> 512"
    "len (media_mimeType (quote_media q)) \<le> 256"
proof -
  have m: "quote_media q = zero_media \<or> plain_media (quote_media q)"
    using assms by (auto simp: owned_quote_def split: if_splits)
  show "len (media_name (quote_media q)) \<le> 512" "len (media_mimeType (quote_media q)) \<le> 256"
    using m by (auto simp: plain_media_def clean_field_def media_limits)
  show "len (message_id_value (quote_id q)) \<le> 512" "len (quote_text q) \<le> 1024"
    "len (chat_id_value (quote_participantID q)) \<le> 512"
    using assms
    by (auto simp: owned_quote_def clean_text_def MaxIdentifierBytes_def MaxQuoteTextBytes_def split: if_splits)
qed

section \<open>Properties\<close>

text \<open>Building a quote never indexes out of range, and the retained text is the longest-possible valid prefix
  the bound allows up to one rune: a valid prefix of at most 1024 bytes, the whole text when it fits.\<close>

theorem quote_never_panics:
  "case newQuote qid text fm md req of
     Inl e \<Rightarrow> e \<noteq> index_panic
   | Inr q \<Rightarrow> len (quote_text q) \<le> MaxQuoteTextBytes \<and> valid_utf8 (quote_text q)
       \<and> quote_text q = (if len text \<le> MaxQuoteTextBytes then text else take (length (quote_text q)) text)"
proof (cases "newQuote qid text fm md req")
  case (Inl e)
  have "e \<noteq> index_panic"
  proof
    assume "e = index_panic"
    then have bad: "newQuote qid text fm md req = Inl index_panic" using Inl by simp
    have id: "valid_identifier qid"
    proof (rule ccontr)
      assume "\<not> valid_identifier qid"
      then obtain err where "validateIdentifier qid ''message_id'' = Some err" by (metis validateIdentifier_None not_None_eq)
      then show False using bad by (auto simp: newQuote_def NewMessageID_def index_panic_def validateIdentifier_def newValidationError_def split: if_splits)
    qed
    then have ok: "valid_utf8 text" "len text \<le> MaxRetainedTextBytes" "req \<longrightarrow> text \<noteq> []"
      using bad by (auto simp: newQuote_def new_id_ok index_panic_def newValidationError_def split: if_splits)
    obtain e where "(if len text > MaxQuoteTextBytes then back_to_rune_start text (nat MaxQuoteTextBytes) else Some (length text)) = Some e"
      by (rule newQuote_cut [OF ok(1,2)]) (rule that)
    then have "newQuote qid text fm md req = Inr \<lparr>quote_id = MessageID qid, quote_text = take e text, quote_fromMe = fm,
        quote_media = md, quote_participantID = ChatID []\<rparr>"
      using id ok by (simp add: newQuote_eq_Inr)
    then show False using bad by simp
  qed
  then show ?thesis using Inl by simp
next
  case (Inr q)
  then obtain e where q: "quote_text q = take e text" and ok: "valid_utf8 text" "len text \<le> MaxRetainedTextBytes"
    and e: "(if len text > MaxQuoteTextBytes then back_to_rune_start text (nat MaxQuoteTextBytes) else Some (length text)) = Some e"
    by (auto simp: newQuote_eq_Inr)
  obtain e' where "(if len text > MaxQuoteTextBytes then back_to_rune_start text (nat MaxQuoteTextBytes) else Some (length text)) = Some e'"
    "len (take e' text) \<le> MaxQuoteTextBytes" "valid_utf8 (take e' text)" "len text \<le> MaxQuoteTextBytes \<Longrightarrow> take e' text = text"
    by (rule newQuote_cut [OF ok]) (rule that)
  then have "len (take e text) \<le> MaxQuoteTextBytes" "valid_utf8 (take e text)" "len text \<le> MaxQuoteTextBytes \<Longrightarrow> take e text = text"
    using e by simp_all
  then show ?thesis using Inr q by (simp add: min_def)
qed

text \<open>Cloning a quote the model built gives the quote back, so stored quotes survive every defensive copy.\<close>

theorem quote_clone_round_trip:
  assumes "NewMediaQuote qid text fm md = Inr q \<or> NewTextQuote qid text fm = Inr q"
  shows "cloneTextQuote q = Inr q"
  using assms NewMediaQuote_owned NewTextQuote_owned cloneTextQuote_owned_id by blast

theorem quote_clone_round_trip_witness:
  "\<exists>q. NewTextQuote ''m1'' ''hello'' True = Inr q \<and> quote_text q = ''hello'' \<and> cloneTextQuote q = Inr q"
proof -
  have "valid_identifier ''m1''" by (rule ascii_clean) (simp_all add: ascii_eval)
  moreover have "valid_utf8 ''hello''" by (rule ascii_valid) (simp add: ascii_eval)
  ultimately have "\<exists>q. NewTextQuote ''m1'' ''hello'' True = Inr q \<and> quote_text q = ''hello''"
    by (simp add: NewTextQuote_def newQuote_short MaxQuoteTextBytes_def)
  then show ?thesis using quote_clone_round_trip by blast
qed

end
