(* ===== verification/Message.thy ===== *)
theory Message
  imports Quote
begin

text \<open>
  Messages and events: \<open>internal/model/model.go\<close>, the constructors and validators of
  \<open>normalize.go\<close>, and \<open>WithoutBody\<close> and \<open>cloneNormalizedMessage\<close> of \<open>store.go\<close>.
  A Go method with a value receiver that assigns fields of its copy is a function to a new record.
\<close>

record message_input =
  in_ChatID :: string
  in_MessageID :: string
  in_SentAt :: instant
  in_FromMe :: bool
  in_Text :: string
  in_Quote :: text_quote
  in_Media :: media
  in_SenderID :: string
  in_IsGroup :: bool
  in_BodyTruncated :: bool

record message =
  msg_chatID :: chat_id
  msg_messageID :: message_id
  msg_sentAt :: instant
  msg_fromMe :: bool
  msg_text :: string
  msg_quote :: text_quote
  msg_media :: media
  msg_senderID :: contact_id
  msg_isGroup :: bool
  msg_bodyTruncated :: bool
  msg_bodyRetained :: bool
  msg_notificationEligible :: bool
  msg_byteSize :: int

definition zero_message :: message where
  "zero_message = \<lparr>msg_chatID = ChatID [], msg_messageID = MessageID [], msg_sentAt = 0, msg_fromMe = False,
     msg_text = [], msg_quote = zero_quote, msg_media = zero_media, msg_senderID = ContactID [],
     msg_isGroup = False, msg_bodyTruncated = False, msg_bodyRetained = False,
     msg_notificationEligible = False, msg_byteSize = 0\<rparr>"

record event =
  event_message :: message
  event_receivedAt :: instant
  event_byteSize :: int

abbreviation chat_key :: "message \<Rightarrow> string" where
  "chat_key m \<equiv> chat_id_value (msg_chatID m)"

abbreviation message_key :: "message \<Rightarrow> string" where
  "message_key m \<equiv> message_id_value (msg_messageID m)"

section \<open>Byte charges\<close>

definition messageByteSize :: "string \<Rightarrow> string \<Rightarrow> string \<Rightarrow> text_quote \<Rightarrow> media \<Rightarrow> contact_id \<Rightarrow> int option" where
  "messageByteSize chatID messageID text q m sender =
     checkedByteSum [len chatID, len messageID, len text, len (message_id_value (quote_id q)), len (quote_text q),
       len (chat_id_value (quote_participantID q)), len (media_name (quote_media q)),
       len (media_mimeType (quote_media q)), len (media_name m), len (media_mimeType m),
       len (media_directPath m), len (media_mediaKey m), len (media_fileSHA256 m), len (media_fileEncSHA256 m),
       len (contact_id_value sender)]"

text \<open>The call sites that drop the second result keep the zero that comes with \<open>false\<close>.\<close>

definition byte_size_or_zero :: "int option \<Rightarrow> int" where
  "byte_size_or_zero r = (case r of Some n \<Rightarrow> n | None \<Rightarrow> 0)"

definition normalizedEventByteSize :: "int \<Rightarrow> model_error + int" where
  "normalizedEventByteSize messageBytes =
     (case checkedByteSum [normalizedEventEnvelopeBytes, messageBytes] of
        Some byteSize \<Rightarrow>
          if byteSize > MaxNormalizedEventBytes
          then Inl (newValidationError SizeExceeded ''event'' MaxNormalizedEventBytes) else Inr byteSize
      | None \<Rightarrow> Inl (newValidationError SizeExceeded ''event'' MaxNormalizedEventBytes))"

definition message_too_large :: model_error where
  "message_too_large =
     newValidationError SizeExceeded ''message'' (MaxNormalizedEventBytes - normalizedEventEnvelopeBytes)"

section \<open>Constructors\<close>

definition NewMessage :: "message_input \<Rightarrow> model_error + message" where
  "NewMessage i =
     on_ok (NewChatID (in_ChatID i)) (\<lambda>chatID.
     on_ok (NewMessageID (in_MessageID i)) (\<lambda>messageID.
     if in_SentAt i = 0 then Inl (newValidationError Required ''sent_at'' 0)
     else
       let (text, truncated) = NormalizeText (in_Text i) in
       on_ok (cloneTextQuote (in_Quote i)) (\<lambda>q.
       on_ok (cloneMedia (in_Media i)) (\<lambda>m.
       on_ok (if in_SenderID i \<noteq> [] then NewContactID (in_SenderID i) else Inr (ContactID [])) (\<lambda>senderID.
       case messageByteSize (chat_id_value chatID) (message_id_value messageID) text q m senderID of
         None \<Rightarrow> Inl message_too_large
       | Some byteSize \<Rightarrow>
           Inr \<lparr>msg_chatID = chatID, msg_messageID = messageID, msg_sentAt = in_SentAt i,
             msg_fromMe = in_FromMe i, msg_text = text, msg_quote = q, msg_media = m,
             msg_senderID = senderID, msg_isGroup = in_IsGroup i,
             msg_bodyTruncated = (truncated \<or> in_BodyTruncated i), msg_bodyRetained = True,
             msg_notificationEligible = False, msg_byteSize = byteSize\<rparr>)))))"

definition validateMessage :: "message \<Rightarrow> model_error + int" where
  "validateMessage m =
     fail_if (validateIdentifier (chat_key m) ''chat_id'') (
     fail_if (validateIdentifier (message_key m) ''message_id'') (
     if msg_sentAt m = 0 then Inl (newValidationError Required ''sent_at'' 0)
     else if len (msg_text m) > MaxRetainedTextBytes then Inl (newValidationError TooLong ''text'' MaxRetainedTextBytes)
     else if \<not> valid_utf8 (msg_text m) then Inl (newValidationError InvalidUTF8 ''text'' MaxRetainedTextBytes)
     else
       on_ok (cloneTextQuote (msg_quote m)) (\<lambda>_.
       fail_if (validateMedia (msg_media m)) (
       fail_if (if contact_id_value (msg_senderID m) \<noteq> []
                then validateIdentifier (contact_id_value (msg_senderID m)) ''sender_id'' else None) (
       case messageByteSize (chat_key m) (message_key m) (msg_text m) (msg_quote m) (msg_media m) (msg_senderID m) of
         None \<Rightarrow> Inl message_too_large
       | Some byteSize \<Rightarrow> Inr byteSize)))))"

definition NewEvent :: "message \<Rightarrow> instant \<Rightarrow> model_error + event" where
  "NewEvent m receivedAt =
     (if receivedAt = 0 then Inl (newValidationError Required ''received_at'' 0)
      else
        on_ok (validateMessage m) (\<lambda>messageBytes.
        on_ok (normalizedEventByteSize messageBytes) (\<lambda>eventBytes.
        Inr \<lparr>event_message = m\<lparr>msg_byteSize := messageBytes\<rparr>, event_receivedAt = receivedAt,
          event_byteSize = eventBytes\<rparr>)))"

section \<open>Immutable updates\<close>

definition message_WithChatID :: "message \<Rightarrow> chat_id \<Rightarrow> model_error + message" where
  "message_WithChatID m cid =
     on_ok (NewChatID (chat_id_value cid)) (\<lambda>ownedID.
     on_ok (validateMessage m) (\<lambda>_.
     Inr (m\<lparr>msg_chatID := ownedID,
       msg_byteSize := byte_size_or_zero (messageByteSize (chat_id_value cid) (message_key m) (msg_text m)
         (msg_quote m) (msg_media m) (msg_senderID m))\<rparr>)))"

definition message_WithSender :: "message \<Rightarrow> contact_id \<Rightarrow> bool \<Rightarrow> message" where
  "message_WithSender m sender isGroup =
     m\<lparr>msg_senderID := sender, msg_isGroup := isGroup,
       msg_byteSize := byte_size_or_zero (messageByteSize (chat_key m) (message_key m) (msg_text m)
         (msg_quote m) (msg_media m) sender)\<rparr>"

definition message_WithQuote :: "message \<Rightarrow> text_quote \<Rightarrow> message" where
  "message_WithQuote m q =
     m\<lparr>msg_quote := q,
       msg_byteSize := byte_size_or_zero (messageByteSize (chat_key m) (message_key m) (msg_text m)
         q (msg_media m) (msg_senderID m))\<rparr>"

definition message_WithMedia :: "message \<Rightarrow> media \<Rightarrow> message" where
  "message_WithMedia m md =
     (case cloneMedia md of
        Inl _ \<Rightarrow> m
      | Inr owned \<Rightarrow>
          m\<lparr>msg_media := owned,
            msg_byteSize := byte_size_or_zero (messageByteSize (chat_key m) (message_key m) (msg_text m)
              (msg_quote m) owned (msg_senderID m))\<rparr>)"

definition message_WithNotificationEligibility :: "message \<Rightarrow> bool \<Rightarrow> message" where
  "message_WithNotificationEligibility m eligible = m\<lparr>msg_notificationEligible := eligible\<rparr>"

definition event_WithNotificationEligibility :: "event \<Rightarrow> bool \<Rightarrow> event" where
  "event_WithNotificationEligibility e eligible =
     e\<lparr>event_message := message_WithNotificationEligibility (event_message e) eligible\<rparr>"

definition event_NotificationEligible :: "event \<Rightarrow> bool" where
  "event_NotificationEligible e = msg_notificationEligible (event_message e)"

definition message_WithoutBody :: "message \<Rightarrow> message" where
  "message_WithoutBody m =
     (let withoutBody = m\<lparr>msg_text := [], msg_quote := zero_quote, msg_bodyRetained := False\<rparr>
      in withoutBody\<lparr>msg_byteSize := byte_size_or_zero (messageByteSize (chat_key withoutBody)
           (message_key withoutBody) (msg_text withoutBody) (msg_quote withoutBody) (msg_media withoutBody)
           (msg_senderID withoutBody))\<rparr>)"

definition cloneNormalizedMessage :: "message \<Rightarrow> model_error + message \<times> int" where
  "cloneNormalizedMessage m =
     on_ok (validateMessage m) (\<lambda>byteSize.
     on_ok (NewChatID (chat_key m)) (\<lambda>chatID.
     on_ok (NewMessageID (message_key m)) (\<lambda>messageID.
     on_ok (cloneTextQuote (msg_quote m)) (\<lambda>q.
     on_ok (cloneMedia (msg_media m)) (\<lambda>md.
     Inr (\<lparr>msg_chatID = chatID, msg_messageID = messageID, msg_sentAt = msg_sentAt m, msg_fromMe = msg_fromMe m,
       msg_text = msg_text m, msg_quote = q, msg_media = md,
       msg_senderID = ContactID (contact_id_value (msg_senderID m)), msg_isGroup = msg_isGroup m,
       msg_bodyTruncated = msg_bodyTruncated m, msg_bodyRetained = msg_bodyRetained m,
       msg_notificationEligible = msg_notificationEligible m, msg_byteSize = byteSize\<rparr>, byteSize))))))"

section \<open>Well-formed messages\<close>

definition valid_sender :: "contact_id \<Rightarrow> bool" where
  "valid_sender sender \<longleftrightarrow> contact_id_value sender = [] \<or> valid_identifier (contact_id_value sender)"

text \<open>The bytes a message is charged, as one sum without the overflow test.\<close>

definition payload_bytes :: "message \<Rightarrow> int" where
  "payload_bytes m =
     len (chat_key m) + len (message_key m) + len (msg_text m) + len (message_id_value (quote_id (msg_quote m)))
     + len (quote_text (msg_quote m)) + len (chat_id_value (quote_participantID (msg_quote m)))
     + len (media_name (quote_media (msg_quote m))) + len (media_mimeType (quote_media (msg_quote m)))
     + len (media_name (msg_media m)) + len (media_mimeType (msg_media m)) + len (media_directPath (msg_media m))
     + len (media_mediaKey (msg_media m)) + len (media_fileSHA256 (msg_media m))
     + len (media_fileEncSHA256 (msg_media m)) + len (contact_id_value (msg_senderID m))"

definition message_parts_ok :: "message \<Rightarrow> bool" where
  "message_parts_ok m \<longleftrightarrow> valid_identifier (chat_key m) \<and> valid_identifier (message_key m) \<and> msg_sentAt m \<noteq> 0
     \<and> len (msg_text m) \<le> MaxRetainedTextBytes \<and> valid_utf8 (msg_text m) \<and> owned_quote (msg_quote m)
     \<and> validateMedia (msg_media m) = None \<and> valid_sender (msg_senderID m)"

definition wf_message :: "message \<Rightarrow> bool" where
  "wf_message m \<longleftrightarrow> message_parts_ok m \<and> msg_byteSize m = payload_bytes m"

text \<open>The largest charge a well-formed message can have.\<close>

definition max_message_bytes :: int where
  "max_message_bytes = 24768"

lemma messageByteSize_eq:
  "messageByteSize (chat_key m) (message_key m) (msg_text m) (msg_quote m) (msg_media m) (msg_senderID m) =
     (if payload_bytes m \<le> max_int then Some (payload_bytes m) else None)"
proof -
  have "messageByteSize (chat_key m) (message_key m) (msg_text m) (msg_quote m) (msg_media m) (msg_senderID m) = Some n
      \<longleftrightarrow> payload_bytes m \<le> max_int \<and> n = payload_bytes m" for n
    by (simp add: messageByteSize_def checkedByteSum_Some_iff payload_bytes_def add.assoc)
  then show ?thesis by (metis option.exhaust)
qed

lemma payload_bytes_le: "message_parts_ok m \<Longrightarrow> payload_bytes m \<le> max_message_bytes"
proof -
  assume m: "message_parts_ok m"
  note q = owned_quote_bounds [of "msg_quote m"] and md = media_bytes_bounded [of "msg_media m"]
  have "len (chat_key m) \<le> 512" "len (message_key m) \<le> 512" "len (contact_id_value (msg_senderID m)) \<le> 512"
    "len (msg_text m) \<le> 16384"
    using m by (auto simp: message_parts_ok_def clean_text_def valid_sender_def size_limits)
  then show ?thesis
    using m q md by (simp add: message_parts_ok_def payload_bytes_def max_message_bytes_def)
qed

lemma payload_bytes_small: "message_parts_ok m \<Longrightarrow> payload_bytes m \<le> max_int"
  using payload_bytes_le [of m] by (simp add: max_message_bytes_def max_int_def)

lemma byteSize_parts_ok:
  "message_parts_ok m \<Longrightarrow>
     messageByteSize (chat_key m) (message_key m) (msg_text m) (msg_quote m) (msg_media m) (msg_senderID m) =
       Some (payload_bytes m)"
  by (simp add: messageByteSize_eq payload_bytes_small)

lemma wf_message_bounds: "wf_message m \<Longrightarrow> 0 < msg_byteSize m \<and> msg_byteSize m \<le> max_message_bytes"
proof -
  assume wf: "wf_message m"
  then have "0 < len (chat_key m)" by (simp add: wf_message_def message_parts_ok_def clean_text_def)
  then have "0 < payload_bytes m" unfolding payload_bytes_def by linarith
  then show ?thesis using wf payload_bytes_le [of m] by (simp add: wf_message_def)
qed

lemma validateMessage_parts_ok: "message_parts_ok m \<Longrightarrow> validateMessage m = Inr (payload_bytes m)"
  by (auto simp: validateMessage_def message_parts_ok_def valid_sender_def cloneTextQuote_owned_id byteSize_parts_ok)

lemma validateMessage_wf: "wf_message m \<Longrightarrow> validateMessage m = Inr (msg_byteSize m)"
  by (simp add: wf_message_def validateMessage_parts_ok)

lemma validateMessage_eq_Inr:
  assumes "owned_quote (msg_quote m)"
  shows "validateMessage m = Inr n \<longleftrightarrow> message_parts_ok m \<and> n = payload_bytes m"
proof
  assume "validateMessage m = Inr n"
  moreover from this have "message_parts_ok m"
    using assms
    by (auto simp: validateMessage_def message_parts_ok_def valid_sender_def split: if_splits option.splits)
  ultimately show "message_parts_ok m \<and> n = payload_bytes m" using validateMessage_parts_ok [of m] by simp
next
  assume "message_parts_ok m \<and> n = payload_bytes m"
  then show "validateMessage m = Inr n" by (simp add: validateMessage_parts_ok)
qed

lemma event_size_ok: "message_parts_ok m \<Longrightarrow> normalizedEventByteSize (payload_bytes m) = Inr (256 + payload_bytes m)"
proof -
  assume "message_parts_ok m"
  moreover have "0 \<le> payload_bytes m" by (simp add: payload_bytes_def)
  ultimately have "checkedByteSum [normalizedEventEnvelopeBytes, payload_bytes m] = Some (256 + payload_bytes m)"
    "256 + payload_bytes m \<le> MaxNormalizedEventBytes"
    using payload_bytes_le [of m]
    by (simp_all add: checkedByteSum_Some_iff normalizedEventEnvelopeBytes_def MaxNormalizedEventBytes_def
        max_message_bytes_def max_int_def)
  then show ?thesis by (simp add: normalizedEventByteSize_def)
qed

text \<open>Every constructor and update leaves a message whose stored charge was recomputed from its parts.\<close>

definition seal :: "message \<Rightarrow> message" where
  "seal m = m\<lparr>msg_byteSize := payload_bytes m\<rparr>"

lemma payload_bytes_update [simp]:
  "payload_bytes (m\<lparr>msg_byteSize := n\<rparr>) = payload_bytes m"
  "payload_bytes (m\<lparr>msg_notificationEligible := b\<rparr>) = payload_bytes m"
  by (simp_all add: payload_bytes_def)

lemma parts_ok_update [simp]:
  "message_parts_ok (m\<lparr>msg_byteSize := n\<rparr>) = message_parts_ok m"
  "message_parts_ok (m\<lparr>msg_notificationEligible := b\<rparr>) = message_parts_ok m"
  by (simp_all add: message_parts_ok_def)

lemma parts_ok_seal [simp]: "message_parts_ok (seal m) = message_parts_ok m"
  by (simp add: seal_def)

lemma wf_seal [simp]: "wf_message (seal m) \<longleftrightarrow> message_parts_ok m"
  by (simp add: wf_message_def) (simp add: seal_def)

lemma wf_parts: "wf_message m \<Longrightarrow> message_parts_ok m"
  by (simp add: wf_message_def)

lemma seal_wf: "wf_message m \<Longrightarrow> seal m = m"
  by (simp add: wf_message_def seal_def)

definition built_message :: "message_input \<Rightarrow> text_quote \<Rightarrow> message" where
  "built_message i q =
     \<lparr>msg_chatID = ChatID (in_ChatID i), msg_messageID = MessageID (in_MessageID i), msg_sentAt = in_SentAt i,
       msg_fromMe = in_FromMe i, msg_text = fst (NormalizeText (in_Text i)), msg_quote = q,
       msg_media = in_Media i, msg_senderID = ContactID (in_SenderID i), msg_isGroup = in_IsGroup i,
       msg_bodyTruncated = (snd (NormalizeText (in_Text i)) \<or> in_BodyTruncated i), msg_bodyRetained = True,
       msg_notificationEligible = False, msg_byteSize = 0\<rparr>"

definition message_input_ok :: "message_input \<Rightarrow> bool" where
  "message_input_ok i \<longleftrightarrow> valid_identifier (in_ChatID i) \<and> valid_identifier (in_MessageID i) \<and> in_SentAt i \<noteq> 0
     \<and> is_ok (cloneTextQuote (in_Quote i)) \<and> validateMedia (in_Media i) = None
     \<and> valid_sender (ContactID (in_SenderID i))"

lemma built_message_parts_ok:
  "message_input_ok i \<Longrightarrow> cloneTextQuote (in_Quote i) = Inr q \<Longrightarrow> message_parts_ok (built_message i q)"
  using NormalizeText_len [of "in_Text i"]
  by (auto simp: message_parts_ok_def built_message_def message_input_ok_def dest: cloneTextQuote_owned)

lemma NewMessage_ok:
  assumes "message_input_ok i" "cloneTextQuote (in_Quote i) = Inr q"
  shows "NewMessage i = Inr (seal (built_message i q))"
proof -
  have "messageByteSize (in_ChatID i) (in_MessageID i) (fst (NormalizeText (in_Text i))) q (in_Media i)
      (ContactID (in_SenderID i)) = Some (payload_bytes (built_message i q))"
    using byteSize_parts_ok [OF built_message_parts_ok [OF assms]] by (simp add: built_message_def)
  then show ?thesis
    using assms by (cases "in_SenderID i = []")
      (auto simp: NewMessage_def message_input_ok_def valid_sender_def cloneMedia_eq new_id_ok seal_def
        built_message_def Let_def split: prod.splits)
qed

lemma NewMessage_eq_Inr:
  "NewMessage i = Inr m \<longleftrightarrow>
     message_input_ok i \<and> (\<exists>q. cloneTextQuote (in_Quote i) = Inr q \<and> m = seal (built_message i q))"
proof
  assume a: "NewMessage i = Inr m"
  then have "message_input_ok i"
    by (cases "in_SenderID i = []")
      (auto simp: NewMessage_def message_input_ok_def valid_sender_def cloneMedia_eq is_ok_iff Let_def
        split: prod.splits option.splits if_splits)
  then show "message_input_ok i \<and> (\<exists>q. cloneTextQuote (in_Quote i) = Inr q \<and> m = seal (built_message i q))"
    using a by (auto simp: NewMessage_ok message_input_ok_def is_ok_iff)
qed (auto simp: NewMessage_ok)

lemma NewMessage_wf: "NewMessage i = Inr m \<Longrightarrow> wf_message m"
  by (auto simp: NewMessage_eq_Inr built_message_parts_ok)

lemma is_ok_NewMessage: "is_ok (NewMessage i) \<longleftrightarrow> message_input_ok i"
  by (auto simp: is_ok_iff NewMessage_eq_Inr message_input_ok_def)

lemma NewEvent_parts_ok:
  "message_parts_ok m \<Longrightarrow> t \<noteq> 0 \<Longrightarrow>
     NewEvent m t = Inr \<lparr>event_message = seal m, event_receivedAt = t, event_byteSize = 256 + payload_bytes m\<rparr>"
  by (simp add: NewEvent_def validateMessage_parts_ok event_size_ok seal_def)

lemma NewEvent_eq_Inr:
  assumes "owned_quote (msg_quote m)"
  shows "NewEvent m t = Inr e \<longleftrightarrow> t \<noteq> 0 \<and> message_parts_ok m \<and>
    e = \<lparr>event_message = seal m, event_receivedAt = t, event_byteSize = 256 + payload_bytes m\<rparr>"
  using assms by (auto simp: NewEvent_def validateMessage_eq_Inr event_size_ok seal_def)

text \<open>The updates keep well-formedness when what they put in is well-formed.\<close>

lemma message_WithChatID_eq:
  "message_parts_ok m \<Longrightarrow> valid_identifier (chat_id_value cid) \<Longrightarrow>
     message_WithChatID m cid = Inr (seal (m\<lparr>msg_chatID := cid\<rparr>))"
  using byteSize_parts_ok [of "m\<lparr>msg_chatID := cid\<rparr>"]
  by (simp add: message_WithChatID_def validateMessage_parts_ok new_id_ok byte_size_or_zero_def seal_def
      message_parts_ok_def)

lemma message_WithSender_eq:
  "message_parts_ok m \<Longrightarrow> valid_sender s \<Longrightarrow>
     message_WithSender m s g = seal (m\<lparr>msg_senderID := s, msg_isGroup := g\<rparr>)"
  using byteSize_parts_ok [of "m\<lparr>msg_senderID := s, msg_isGroup := g\<rparr>"]
  by (simp add: message_WithSender_def byte_size_or_zero_def seal_def message_parts_ok_def)

lemma message_WithQuote_eq:
  "message_parts_ok m \<Longrightarrow> owned_quote q \<Longrightarrow> message_WithQuote m q = seal (m\<lparr>msg_quote := q\<rparr>)"
  using byteSize_parts_ok [of "m\<lparr>msg_quote := q\<rparr>"]
  by (simp add: message_WithQuote_def byte_size_or_zero_def seal_def message_parts_ok_def)

lemma message_WithMedia_eq:
  "message_parts_ok m \<Longrightarrow> message_WithMedia m md = (if validateMedia md = None then seal (m\<lparr>msg_media := md\<rparr>) else m)"
  using byteSize_parts_ok [of "m\<lparr>msg_media := md\<rparr>"]
  by (auto simp: message_WithMedia_def cloneMedia_eq byte_size_or_zero_def seal_def message_parts_ok_def)

lemma message_WithoutBody_eq:
  "message_parts_ok m \<Longrightarrow>
     message_WithoutBody m = seal (m\<lparr>msg_text := [], msg_quote := zero_quote, msg_bodyRetained := False\<rparr>)"
  using byteSize_parts_ok [of "m\<lparr>msg_text := [], msg_quote := zero_quote, msg_bodyRetained := False\<rparr>"]
  by (simp add: message_WithoutBody_def Let_def byte_size_or_zero_def seal_def message_parts_ok_def MaxRetainedTextBytes_def)

lemma parts_ok_fields:
  "message_parts_ok m \<Longrightarrow> valid_identifier (chat_id_value c) \<Longrightarrow> message_parts_ok (m\<lparr>msg_chatID := c\<rparr>)"
  "message_parts_ok m \<Longrightarrow> valid_sender s \<Longrightarrow> message_parts_ok (m\<lparr>msg_senderID := s, msg_isGroup := g\<rparr>)"
  "message_parts_ok m \<Longrightarrow> owned_quote q \<Longrightarrow> message_parts_ok (m\<lparr>msg_quote := q\<rparr>)"
  "message_parts_ok m \<Longrightarrow> validateMedia md = None \<Longrightarrow> message_parts_ok (m\<lparr>msg_media := md\<rparr>)"
  "message_parts_ok m \<Longrightarrow> message_parts_ok (m\<lparr>msg_text := [], msg_quote := zero_quote, msg_bodyRetained := r\<rparr>)"
  by (simp_all add: message_parts_ok_def MaxRetainedTextBytes_def)

lemma wf_updates:
  assumes "wf_message m"
  shows "valid_sender s \<Longrightarrow> wf_message (message_WithSender m s g)"
    and "owned_quote q \<Longrightarrow> wf_message (message_WithQuote m q)"
    and "wf_message (message_WithMedia m md)"
    and "wf_message (message_WithNotificationEligibility m b)"
    and "wf_message (message_WithoutBody m)"
    and "message_WithChatID m c = Inr m' \<Longrightarrow> wf_message m'"
proof -
  note ok = wf_parts [OF assms]
  show "valid_sender s \<Longrightarrow> wf_message (message_WithSender m s g)"
    "owned_quote q \<Longrightarrow> wf_message (message_WithQuote m q)"
    "wf_message (message_WithMedia m md)" "wf_message (message_WithoutBody m)"
    using ok assms by (simp_all add: message_WithSender_eq message_WithQuote_eq message_WithMedia_eq
        message_WithoutBody_eq parts_ok_fields)
  show "wf_message (message_WithNotificationEligibility m b)"
    using assms by (simp add: wf_message_def message_WithNotificationEligibility_def)
  assume c: "message_WithChatID m c = Inr m'"
  then have "valid_identifier (chat_id_value c)" by (auto simp: message_WithChatID_def)
  then show "wf_message m'" using ok c by (auto simp: message_WithChatID_eq parts_ok_fields)
qed

lemma cloneNormalizedMessage_eq_Inr:
  assumes "owned_quote (msg_quote m)"
  shows "cloneNormalizedMessage m = Inr (m', n) \<longleftrightarrow> message_parts_ok m \<and> m' = seal m \<and> n = payload_bytes m"
proof
  assume "cloneNormalizedMessage m = Inr (m', n)"
  then show "message_parts_ok m \<and> m' = seal m \<and> n = payload_bytes m"
    using assms
    by (auto simp: cloneNormalizedMessage_def validateMessage_eq_Inr cloneTextQuote_owned_id cloneMedia_eq seal_def)
next
  assume R: "message_parts_ok m \<and> m' = seal m \<and> n = payload_bytes m"
  then have "valid_identifier (chat_key m)" "valid_identifier (message_key m)" "validateMedia (msg_media m) = None"
    by (auto simp: message_parts_ok_def)
  with R show "cloneNormalizedMessage m = Inr (m', n)"
    using assms
    by (simp add: cloneNormalizedMessage_def validateMessage_parts_ok new_id_ok cloneTextQuote_owned_id cloneMedia_eq seal_def)
qed

lemma cloneNormalizedMessage_wf: "wf_message m \<Longrightarrow> cloneNormalizedMessage m = Inr (m, msg_byteSize m)"
  by (subst cloneNormalizedMessage_eq_Inr) (auto simp: wf_message_def seal_def message_parts_ok_def)

section \<open>Properties\<close>

text \<open>Concrete messages for the witnesses.\<close>

definition sample_input :: "string \<Rightarrow> string \<Rightarrow> instant \<Rightarrow> message_input" where
  "sample_input cid mid t = \<lparr>in_ChatID = cid, in_MessageID = mid, in_SentAt = t, in_FromMe = False, in_Text = ''hello'',
     in_Quote = zero_quote, in_Media = zero_media, in_SenderID = [], in_IsGroup = False, in_BodyTruncated = False\<rparr>"

definition sample_message :: "string \<Rightarrow> string \<Rightarrow> instant \<Rightarrow> message" where
  "sample_message cid mid t = seal (built_message (sample_input cid mid t) zero_quote)"

lemma sample_input_ok: "valid_identifier c \<Longrightarrow> valid_identifier m \<Longrightarrow> t \<noteq> 0 \<Longrightarrow> message_input_ok (sample_input c m t)"
  by (simp add: message_input_ok_def sample_input_def valid_sender_def)

lemma sample_message_wf:
  assumes "valid_identifier c" "valid_identifier m" "t \<noteq> 0"
  shows "wf_message (sample_message c m t)"
  unfolding sample_message_def wf_seal
  by (rule built_message_parts_ok [OF sample_input_ok [OF assms]]) (simp add: sample_input_def)

lemma sample_message_simps [simp]:
  "chat_key (sample_message c m t) = c" "message_key (sample_message c m t) = m" "msg_sentAt (sample_message c m t) = t"
  "msg_fromMe (sample_message c m t) = False"
  by (simp_all add: sample_message_def seal_def built_message_def sample_input_def)

text \<open>A message is built from exactly the admissible inputs, and what is built satisfies every bound of the model:
  its charge is the sum of its parts and lies between 1 and 24768 bytes.\<close>

theorem message_construction:
  "(is_ok (NewMessage i) \<longleftrightarrow> message_input_ok i)
   \<and> (case NewMessage i of Inl _ \<Rightarrow> True | Inr m \<Rightarrow> wf_message m \<and> 0 < msg_byteSize m \<and> msg_byteSize m \<le> max_message_bytes)"
  using is_ok_NewMessage [of i] NewMessage_wf [of i] wf_message_bounds by (auto split: sum.split)

text \<open>C17: Every update of a message keeps it well-formed: its charge is recomputed and no bound is lost.\<close>

theorem message_updates_keep_invariant:
  assumes "wf_message m" "valid_sender s" "owned_quote q"
  shows "wf_message (message_WithSender m s g) \<and> wf_message (message_WithQuote m q) \<and> wf_message (message_WithMedia m md)
    \<and> wf_message (message_WithNotificationEligibility m b) \<and> wf_message (message_WithoutBody m)
    \<and> (case message_WithChatID m c of Inl _ \<Rightarrow> True | Inr m' \<Rightarrow> wf_message m')"
  using wf_updates [OF assms(1)] assms(2,3) by (auto split: sum.split)

theorem message_updates_keep_invariant_witness:
  "wf_message (message_WithoutBody (sample_message ''c'' ''m'' 5))"
proof -
  have "wf_message (sample_message ''c'' ''m'' 5)"
    by (intro sample_message_wf ascii_clean) (simp_all add: ascii_eval)
  from message_updates_keep_invariant [OF this, of "ContactID []" zero_quote] show ?thesis by (simp add: valid_sender_def)
qed

text \<open>Cloning a well-formed message is the identity and reports its charge, and an event built from it carries the
  message unchanged with 256 bytes more.\<close>

theorem message_clone_round_trip:
  assumes "wf_message m" "t \<noteq> 0"
  shows "cloneNormalizedMessage m = Inr (m, msg_byteSize m)
    \<and> NewEvent m t = Inr \<lparr>event_message = m, event_receivedAt = t, event_byteSize = 256 + msg_byteSize m\<rparr>"
  using assms cloneNormalizedMessage_wf NewEvent_parts_ok [OF wf_parts] seal_wf by (auto simp: wf_message_def)

theorem message_clone_round_trip_witness:
  "cloneNormalizedMessage (sample_message ''c'' ''m'' 5) = Inr (sample_message ''c'' ''m'' 5, msg_byteSize (sample_message ''c'' ''m'' 5))"
proof -
  have "wf_message (sample_message ''c'' ''m'' 5)"
    by (intro sample_message_wf ascii_clean) (simp_all add: ascii_eval)
  from message_clone_round_trip [OF this, of 1] show ?thesis by simp
qed

end
