(* ===== verification/Entities.thy ===== *)
theory Entities
  imports Message
begin

unbundle bit_operations_syntax

text \<open>
  The store-facing entities of \<open>internal/model/store.go\<close> (contacts, chats, page cursors, message
  anchors) and the advisory display metadata of \<open>internal/model/display.go\<close>. Ingest sequences and
  unread counters keep their width (\<open>uint64\<close>, \<open>uint32\<close>); a display quality is the \<open>uint8\<close> of the code,
  so values outside the enumeration exist and are rejected by the constructor.
\<close>

section \<open>Contacts and chats\<close>

definition MaxChatDisplayNameBytes :: int where "MaxChatDisplayNameBytes = 1024"
definition MaxContactDisplayNameBytes :: int where "MaxContactDisplayNameBytes = 1024"

record contact_input =
  cti_ID :: string
  cti_DisplayName :: string
  cti_UpdatedAt :: instant
  cti_IngestSeq :: "64 word"

record contact =
  contact_ID :: contact_id
  contact_displayName :: string
  contact_nameTruncated :: bool
  contact_updatedAt :: instant
  contact_ingestSeq :: "64 word"

record chat_input =
  chi_ID :: string
  chi_ContactID :: string
  chi_DisplayName :: string
  chi_IsGroup :: bool
  chi_LastMessageAt :: instant
  chi_UnreadCount :: "32 word"
  chi_Muted :: bool
  chi_Archived :: bool
  chi_Placeholder :: bool
  chi_UpdatedAt :: instant
  chi_IngestSeq :: "64 word"

record chat =
  chat_ID :: chat_id
  chat_contactID :: contact_id
  chat_hasContact :: bool
  chat_displayName :: string
  chat_nameTruncated :: bool
  chat_isGroup :: bool
  chat_lastMessageAt :: instant
  chat_unreadCount :: "32 word"
  chat_muted :: bool
  chat_archived :: bool
  chat_placeholder :: bool
  chat_updatedAt :: instant
  chat_ingestSeq :: "64 word"

definition zero_chat :: chat where
  "zero_chat = \<lparr>chat_ID = ChatID [], chat_contactID = ContactID [], chat_hasContact = False,
     chat_displayName = [], chat_nameTruncated = False, chat_isGroup = False, chat_lastMessageAt = 0,
     chat_unreadCount = 0, chat_muted = False, chat_archived = False, chat_placeholder = False,
     chat_updatedAt = 0, chat_ingestSeq = 0\<rparr>"

definition validateIngestSeq :: "64 word \<Rightarrow> model_error option" where
  "validateIngestSeq seq =
     (if seq > drop_bit 1 (NOT 0) then Some (newValidationError InvalidValue ''ingest_seq'' 0) else None)"

definition NewContact :: "contact_input \<Rightarrow> model_error + contact" where
  "NewContact i =
     on_ok (NewContactID (cti_ID i)) (\<lambda>cid.
     fail_if (validateIngestSeq (cti_IngestSeq i)) (
     let (displayName, truncated) = normalizeBoundedUTF8 (cti_DisplayName i) MaxContactDisplayNameBytes in
     Inr \<lparr>contact_ID = cid, contact_displayName = displayName, contact_nameTruncated = truncated,
       contact_updatedAt = cti_UpdatedAt i, contact_ingestSeq = cti_IngestSeq i\<rparr>))"

definition NewChat :: "chat_input \<Rightarrow> model_error + chat" where
  "NewChat i =
     on_ok (NewChatID (chi_ID i)) (\<lambda>cid.
     on_ok (if chi_ContactID i \<noteq> [] then NewContactID (chi_ContactID i) else Inr (ContactID [])) (\<lambda>contactID.
     fail_if (validateIngestSeq (chi_IngestSeq i)) (
     let (displayName, truncated) = normalizeBoundedUTF8 (chi_DisplayName i) MaxChatDisplayNameBytes in
     Inr \<lparr>chat_ID = cid, chat_contactID = contactID, chat_hasContact = (chi_ContactID i \<noteq> []),
       chat_displayName = displayName, chat_nameTruncated = truncated, chat_isGroup = chi_IsGroup i,
       chat_lastMessageAt = chi_LastMessageAt i, chat_unreadCount = chi_UnreadCount i,
       chat_muted = chi_Muted i, chat_archived = chi_Archived i, chat_placeholder = chi_Placeholder i,
       chat_updatedAt = chi_UpdatedAt i, chat_ingestSeq = chi_IngestSeq i\<rparr>)))"

text \<open>What every chat built by the package satisfies.\<close>

definition wf_chat :: "chat \<Rightarrow> bool" where
  "wf_chat c \<longleftrightarrow> valid_identifier (chat_id_value (chat_ID c)) \<and> valid_sender (chat_contactID c)
     \<and> (chat_hasContact c \<longleftrightarrow> chat_contactID c \<noteq> ContactID [])
     \<and> valid_utf8 (chat_displayName c) \<and> len (chat_displayName c) \<le> MaxChatDisplayNameBytes
     \<and> uint (chat_ingestSeq c) \<le> max_int"

definition wf_contact :: "contact \<Rightarrow> bool" where
  "wf_contact c \<longleftrightarrow> valid_identifier (contact_id_value (contact_ID c))
     \<and> valid_utf8 (contact_displayName c) \<and> len (contact_displayName c) \<le> MaxContactDisplayNameBytes
     \<and> uint (contact_ingestSeq c) \<le> max_int"

lemma validateIngestSeq_None [simp]: "validateIngestSeq s = None \<longleftrightarrow> uint s \<le> max_int"
proof -
  have "drop_bit 1 (NOT 0) = (9223372036854775807 :: 64 word)" by (simp add: mask_eq_exp_minus_1)
  then show ?thesis
    by (simp add: validateIngestSeq_def max_int_def word_less_def not_less uint_nat [symmetric])
qed

lemma bounded_name:
  assumes "normalizeBoundedUTF8 v n = (name, t)"
  shows "valid_utf8 name" "0 \<le> n \<Longrightarrow> len name \<le> n"
  using assms normalizeBoundedUTF8_valid [of v n] normalizeBoundedUTF8_len [of n v] by auto

lemma display_name_limits [simp]: "0 \<le> MaxChatDisplayNameBytes" "0 \<le> MaxContactDisplayNameBytes"
  by (simp_all add: MaxChatDisplayNameBytes_def MaxContactDisplayNameBytes_def)

lemma NewContact_wf: "NewContact i = Inr c \<Longrightarrow> wf_contact c"
  by (auto simp: NewContact_def wf_contact_def Let_def bounded_name
      split: prod.splits)

lemma NewChat_wf: "NewChat i = Inr c \<Longrightarrow> wf_chat c"
  by (cases "chi_ContactID i = []")
    (auto simp: NewChat_def wf_chat_def valid_sender_def Let_def bounded_name
      split: prod.splits)

lemma is_ok_NewChat:
  "is_ok (NewChat i) \<longleftrightarrow> valid_identifier (chi_ID i) \<and> valid_sender (ContactID (chi_ContactID i))
     \<and> uint (chi_IngestSeq i) \<le> max_int"
  by (cases "chi_ContactID i = []") (auto simp: NewChat_def is_ok_iff valid_sender_def Let_def split: prod.splits)

section \<open>Cursors and anchors\<close>

record cursor =
  cursor_sentAt :: instant
  cursor_messageID :: message_id

definition NoCursor :: cursor where
  "NoCursor = \<lparr>cursor_sentAt = 0, cursor_messageID = MessageID []\<rparr>"

definition NewCursor :: "instant \<Rightarrow> message_id \<Rightarrow> model_error + cursor" where
  "NewCursor sentAt mid =
     (if sentAt = 0 then Inl (newValidationError Required ''sent_at'' 0)
      else on_ok (NewMessageID (message_id_value mid)) (\<lambda>ownedID.
        Inr \<lparr>cursor_sentAt = sentAt, cursor_messageID = ownedID\<rparr>))"

definition cursor_IsZero :: "cursor \<Rightarrow> bool" where
  "cursor_IsZero c \<longleftrightarrow> cursor_sentAt c = 0 \<and> message_id_value (cursor_messageID c) = []"

record anchor =
  anchor_chatID :: chat_id
  anchor_messageID :: message_id
  anchor_sentAt :: instant
  anchor_fromMe :: bool

definition zero_anchor :: anchor where
  "zero_anchor = \<lparr>anchor_chatID = ChatID [], anchor_messageID = MessageID [], anchor_sentAt = 0,
     anchor_fromMe = False\<rparr>"

definition NewMessageAnchor :: "chat_id \<Rightarrow> message_id \<Rightarrow> instant \<Rightarrow> bool \<Rightarrow> model_error + anchor" where
  "NewMessageAnchor cid mid sentAt fromMe =
     on_ok (NewChatID (chat_id_value cid)) (\<lambda>ownedChatID.
     on_ok (NewMessageID (message_id_value mid)) (\<lambda>ownedMessageID.
     if sentAt = 0 then Inl (newValidationError Required ''sent_at'' 0)
     else Inr \<lparr>anchor_chatID = ownedChatID, anchor_messageID = ownedMessageID, anchor_sentAt = sentAt,
       anchor_fromMe = fromMe\<rparr>))"

lemma NewCursor_eq_Inr:
  "NewCursor t mid = Inr c \<longleftrightarrow> t \<noteq> 0 \<and> valid_identifier (message_id_value mid)
     \<and> c = \<lparr>cursor_sentAt = t, cursor_messageID = mid\<rparr>"
  by (auto simp: NewCursor_def)

lemma cursor_IsZero_iff: "cursor_IsZero c \<longleftrightarrow> c = NoCursor"
  by (cases c) (auto simp: cursor_IsZero_def NoCursor_def message_id.expand)

lemma NewMessageAnchor_eq_Inr:
  "NewMessageAnchor cid mid t f = Inr a \<longleftrightarrow> valid_identifier (chat_id_value cid)
     \<and> valid_identifier (message_id_value mid) \<and> t \<noteq> 0
     \<and> a = \<lparr>anchor_chatID = cid, anchor_messageID = mid, anchor_sentAt = t, anchor_fromMe = f\<rparr>"
  by (auto simp: NewMessageAnchor_def)

section \<open>Display metadata\<close>

definition DisplayMetadataCapacity :: int where "DisplayMetadataCapacity = 128"

definition DisplayOpaque :: "8 word" where "DisplayOpaque = 0"
definition DisplayPhone :: "8 word" where "DisplayPhone = 1"
definition DisplayPush :: "8 word" where "DisplayPush = 2"
definition DisplayBusiness :: "8 word" where "DisplayBusiness = 3"
definition DisplaySaved :: "8 word" where "DisplaySaved = 4"
definition DisplayGroup :: "8 word" where "DisplayGroup = 5"

record display_metadata =
  dm_id :: chat_id
  dm_name :: string
  dm_quality :: "8 word"
  dm_group :: bool

definition zero_display :: display_metadata where
  "zero_display = \<lparr>dm_id = ChatID [], dm_name = [], dm_quality = 0, dm_group = False\<rparr>"

definition NewDisplayMetadata :: "string \<Rightarrow> string \<Rightarrow> 8 word \<Rightarrow> bool \<Rightarrow> model_error + display_metadata" where
  "NewDisplayMetadata did name quality grp =
     on_ok (NewChatID did) (\<lambda>owned.
     if quality > DisplayGroup then Inl (newValidationError InvalidValue ''display_quality'' 0)
     else
       let text = fst (normalizeBoundedUTF8 name MaxChatDisplayNameBytes);
           text = TrimSpace (strings_Map blank_control text);
           quality = (if text = [] then DisplayOpaque else quality)
       in Inr \<lparr>dm_id = owned, dm_name = text, dm_quality = quality, dm_group = grp\<rparr>)"

definition display_ByteSize :: "display_metadata \<Rightarrow> int" where
  "display_ByteSize d = len (chat_id_value (dm_id d)) + len (dm_name d)"

definition display_Merge :: "display_metadata \<Rightarrow> display_metadata \<Rightarrow> display_metadata" where
  "display_Merge d nxt =
     (if chat_id_value (dm_id d) = [] then nxt
      else if dm_id d \<noteq> dm_id nxt then d
      else
        let d = d\<lparr>dm_group := dm_group d \<or> dm_group nxt\<rparr>
        in if dm_name nxt \<noteq> [] \<and> dm_quality nxt \<ge> dm_quality d
           then d\<lparr>dm_name := dm_name nxt, dm_quality := dm_quality nxt\<rparr> else d)"

definition WithDisplayMetadata :: "chat \<Rightarrow> display_metadata \<Rightarrow> chat" where
  "WithDisplayMetadata c d =
     (if chat_ID c \<noteq> dm_id d then c
      else
        let c = c\<lparr>chat_isGroup := chat_isGroup c \<or> dm_group d\<rparr>
        in if dm_name d \<noteq> []
           then c\<lparr>chat_displayName := dm_name d, chat_nameTruncated := False, chat_placeholder := False\<rparr>
           else c)"

definition wf_display :: "display_metadata \<Rightarrow> bool" where
  "wf_display d \<longleftrightarrow> valid_identifier (chat_id_value (dm_id d)) \<and> clean_field MaxChatDisplayNameBytes (dm_name d)
     \<and> TrimSpace (dm_name d) = dm_name d \<and> dm_quality d \<le> DisplayGroup
     \<and> (dm_name d = [] \<longrightarrow> dm_quality d = DisplayOpaque)"

lemma clean_field_TrimSpace:
  assumes "clean_field n v"
  shows "clean_field n (TrimSpace v)"
  using assms length_TrimSpace [of v]
  by (simp add: clean_field_def valid_TrimSpace no_control_TrimSpace order_trans [of "len (TrimSpace v)" "len v" n])

lemma display_text_clean:
  "clean_field MaxChatDisplayNameBytes
     (strings_Map blank_control (fst (normalizeBoundedUTF8 v MaxChatDisplayNameBytes)))"
proof -
  let ?t = "fst (normalizeBoundedUTF8 v MaxChatDisplayNameBytes)"
  have "len ?t \<le> MaxChatDisplayNameBytes" by (simp add: normalizeBoundedUTF8_len)
  moreover have "length (strings_Map blank_control ?t) \<le> length ?t" by (simp add: length_Map_blank)
  ultimately show ?thesis by (simp add: clean_field_def no_control_Map order_trans)
qed

lemma NewDisplayMetadata_wf: "NewDisplayMetadata i n q g = Inr d \<Longrightarrow> wf_display d"
proof -
  let ?t = "strings_Map blank_control (fst (normalizeBoundedUTF8 n MaxChatDisplayNameBytes))"
  assume "NewDisplayMetadata i n q g = Inr d"
  then have d: "valid_identifier i" "q \<le> DisplayGroup"
    "d = \<lparr>dm_id = ChatID i, dm_name = TrimSpace ?t,
      dm_quality = (if TrimSpace ?t = [] then DisplayOpaque else q), dm_group = g\<rparr>"
    by (auto simp: NewDisplayMetadata_def Let_def not_less)
  moreover have "clean_field MaxChatDisplayNameBytes (TrimSpace ?t)"
    by (simp add: clean_field_TrimSpace display_text_clean)
  moreover have "TrimSpace (TrimSpace ?t) = TrimSpace ?t" by (simp add: TrimSpace_idem)
  ultimately show ?thesis by (simp add: wf_display_def DisplayOpaque_def)
qed

lemma wf_display_zero: "wf_display d \<Longrightarrow> dm_name d = [] \<Longrightarrow> dm_quality d = 0"
  by (simp add: wf_display_def DisplayOpaque_def)

lemma Merge_same:
  assumes "chat_id_value (dm_id d) \<noteq> []" "dm_id d = dm_id n"
  shows "dm_id (display_Merge d n) = dm_id d"
    and "dm_group (display_Merge d n) \<longleftrightarrow> dm_group d \<or> dm_group n"
    and "dm_name n = [] \<or> dm_quality n < dm_quality d \<Longrightarrow>
      dm_name (display_Merge d n) = dm_name d \<and> dm_quality (display_Merge d n) = dm_quality d"
    and "dm_name n \<noteq> [] \<Longrightarrow> dm_quality d \<le> dm_quality n \<Longrightarrow>
      dm_name (display_Merge d n) = dm_name n \<and> dm_quality (display_Merge d n) = dm_quality n"
  using assms by (auto simp: display_Merge_def Let_def not_le)

lemma Merge_wf: "wf_display d \<Longrightarrow> wf_display n \<Longrightarrow> wf_display (display_Merge d n)"
  by (auto simp: display_Merge_def wf_display_def Let_def)

definition best_observation :: "display_metadata list \<Rightarrow> display_metadata \<Rightarrow> display_metadata list \<Rightarrow> bool" where
  "best_observation pre b post \<longleftrightarrow>
     (\<forall>x \<in> set pre. dm_name x \<noteq> [] \<longrightarrow> dm_quality x \<le> dm_quality b)
     \<and> (\<forall>x \<in> set post. dm_name x \<noteq> [] \<longrightarrow> dm_quality x < dm_quality b)"

lemma Merge_fold_best:
  assumes "\<forall>x \<in> set (d # ns). wf_display x \<and> dm_id x = dm_id d"
  shows "\<exists>pre b post. d # ns = pre @ b # post \<and> best_observation pre b post
    \<and> dm_name (foldl display_Merge d ns) = dm_name b \<and> dm_quality (foldl display_Merge d ns) = dm_quality b"
    "dm_id (foldl display_Merge d ns) = dm_id d"
  using assms
proof (induction ns rule: rev_induct)
  case Nil
  { case 1 show ?case by (rule exI [of _ "[]"]) (auto simp: best_observation_def) }
  { case 2 show ?case by simp }
next
  case (snoc n ns)
  { case 1
    then obtain pre b post where b: "d # ns = pre @ b # post" "best_observation pre b post"
      "dm_name (foldl display_Merge d ns) = dm_name b" "dm_quality (foldl display_Merge d ns) = dm_quality b"
      using snoc(1) by auto
    have nz: "chat_id_value (dm_id (foldl display_Merge d ns)) \<noteq> []" "dm_id (foldl display_Merge d ns) = dm_id n"
      using 1 snoc(2) by (auto simp: wf_display_def)
    note same = Merge_same [OF nz]
    show ?case
    proof (cases "dm_name n = [] \<or> dm_quality n < dm_quality b")
      case True
      then have "d # ns @ [n] = pre @ b # (post @ [n])" "best_observation pre b (post @ [n])"
        using b by (auto simp: best_observation_def)
      then show ?thesis using same(3) True b(3,4)
        by (intro exI [of _ pre] exI [of _ b] exI [of _ "post @ [n]"]) auto
    next
      case False
      then have "best_observation (pre @ b # post) n []"
        using b(2) by (force simp: best_observation_def)
      then show ?thesis using same(4) False b(4) b(1) [symmetric]
        by (intro exI [of _ "pre @ b # post"] exI [of _ n] exI [of _ "[]"]) auto
    qed }
  { case 2
    then have "dm_id (foldl display_Merge d ns) = dm_id d" "dm_id n = dm_id d" "chat_id_value (dm_id d) \<noteq> []"
      using snoc(2) by (auto simp: wf_display_def)
    then show ?case using Merge_same(1) [of "foldl display_Merge d ns" n] by simp }
qed

lemma Merge_fold_group:
  assumes "\<forall>x \<in> set (d # ns). wf_display x \<and> dm_id x = dm_id d"
  shows "dm_group (foldl display_Merge d ns) \<longleftrightarrow> (\<exists>x \<in> set (d # ns). dm_group x)"
  using assms
proof (induction ns rule: rev_induct)
  case (snoc n ns)
  let ?f = "foldl display_Merge d ns"
  have prev: "\<forall>x \<in> set (d # ns). wf_display x \<and> dm_id x = dm_id d" using snoc(2) by simp
  have "dm_id ?f = dm_id d" by (rule Merge_fold_best(2) [OF prev])
  moreover have "dm_id n = dm_id d" "chat_id_value (dm_id d) \<noteq> []"
    using snoc(2) by (auto simp: wf_display_def)
  ultimately have "dm_group (display_Merge ?f n) \<longleftrightarrow> dm_group ?f \<or> dm_group n"
    by (intro Merge_same(2)) simp_all
  then show ?case using snoc(1) [OF prev] by auto
qed simp

lemma WithDisplayMetadata_wf: "wf_chat c \<Longrightarrow> wf_display d \<Longrightarrow> wf_chat (WithDisplayMetadata c d)"
  by (auto simp: WithDisplayMetadata_def wf_chat_def wf_display_def clean_field_def Let_def)

lemma WithDisplayMetadata_ID [simp]: "chat_ID (WithDisplayMetadata c d) = chat_ID c"
  by (simp add: WithDisplayMetadata_def Let_def)

section \<open>Properties\<close>

text \<open>Merging any sequence of observations of one chat keeps the name of the last observation among those of the
  best quality, and the chat is a group as soon as one observation says so.\<close>

theorem display_merge_keeps_best:
  assumes "\<forall>x \<in> set (d # ns). wf_display x \<and> dm_id x = dm_id d"
  shows "(\<exists>pre b post. d # ns = pre @ b # post
      \<and> (\<forall>x \<in> set pre. dm_name x \<noteq> [] \<longrightarrow> dm_quality x \<le> dm_quality b)
      \<and> (\<forall>x \<in> set post. dm_name x \<noteq> [] \<longrightarrow> dm_quality x < dm_quality b)
      \<and> dm_name (foldl display_Merge d ns) = dm_name b \<and> dm_quality (foldl display_Merge d ns) = dm_quality b)
    \<and> dm_id (foldl display_Merge d ns) = dm_id d
    \<and> (dm_group (foldl display_Merge d ns) \<longleftrightarrow> (\<exists>x \<in> set (d # ns). dm_group x))"
  using Merge_fold_best [OF assms] Merge_fold_group [OF assms] unfolding best_observation_def by blast

theorem display_merge_keeps_best_witness:
  "dm_id (foldl display_Merge \<lparr>dm_id = ChatID ''c'', dm_name = ''Ann'', dm_quality = DisplayPush, dm_group = False\<rparr>
     [\<lparr>dm_id = ChatID ''c'', dm_name = [], dm_quality = DisplayOpaque, dm_group = True\<rparr>]) = ChatID ''c''"
proof -
  let ?d = "\<lparr>dm_id = ChatID ''c'', dm_name = ''Ann'', dm_quality = DisplayPush, dm_group = False\<rparr>"
  let ?n = "\<lparr>dm_id = ChatID ''c'', dm_name = [], dm_quality = DisplayOpaque, dm_group = True\<rparr>"
  have "valid_identifier ''c''" "clean_field MaxChatDisplayNameBytes ''Ann''"
    by (auto intro!: ascii_clean simp: ascii_eval clean_field_def has_control_def ascii_runes ascii_valid is_control_def MaxChatDisplayNameBytes_def)
  moreover have "TrimSpace ''Ann'' = ''Ann''" by (simp add: TrimSpace_def ascii_runes trim_runes_def is_space_def byte_def)
  ultimately have "wf_display ?d" "wf_display ?n"
    by (simp_all add: wf_display_def DisplayPush_def DisplayGroup_def DisplayOpaque_def TrimSpace_def trim_runes_def)
  then show ?thesis using display_merge_keeps_best [of ?d "[?n]"] by simp
qed

text \<open>A chat is built from exactly the admissible inputs, and what is built is well-formed; applying display
  metadata keeps it so and never changes its identity.\<close>

theorem chat_construction:
  "(is_ok (NewChat i) \<longleftrightarrow> valid_identifier (chi_ID i) \<and> valid_sender (ContactID (chi_ContactID i)) \<and> uint (chi_IngestSeq i) \<le> max_int)
   \<and> (case NewChat i of Inl _ \<Rightarrow> True
      | Inr c \<Rightarrow> wf_chat c \<and> (case NewDisplayMetadata n v q g of Inl _ \<Rightarrow> True
          | Inr d \<Rightarrow> wf_chat (WithDisplayMetadata c d) \<and> chat_ID (WithDisplayMetadata c d) = chat_ID c))"
  using is_ok_NewChat [of i] NewChat_wf [of i] NewDisplayMetadata_wf [of n v q g] WithDisplayMetadata_wf by (auto split: sum.split)

end
