(* ===== verification/Batches.thy ===== *)
theory Batches
  imports Entities
begin

text \<open>
  The bounded collections and snapshots that cross the package's boundaries: write batches
  (\<open>internal/model/store.go\<close>), history jobs and chunks (\<open>history.go\<close>), observable updates
  (\<open>update.go\<close>) and committed live events (\<open>live_event.go\<close>). The closed enumerations are the
  \<open>uint8\<close> of the code, so their validators have values to refuse. A fixed-size array with a count is the
  list of its used part.
\<close>

section \<open>Write batches\<close>

definition MaxWriteBatchMessages :: int where "MaxWriteBatchMessages = 50"
definition writeBatchRecordBytes :: int where "writeBatchRecordBytes = 32"
definition maxWriteBatchBytes :: int where
  "maxWriteBatchBytes = MaxWriteBatchMessages *
     (5 * MaxIdentifierBytes + MaxRetainedTextBytes + MaxQuoteTextBytes + 2 * MaxMediaNameBytes
      + 2 * MaxMediaMIMEBytes + MaxMediaDirectPathBytes + MaxMediaKeyBytes + 2 * MaxMediaHashBytes
      + writeBatchRecordBytes)"

definition WriteRealtime :: "8 word" where "WriteRealtime = 1"
definition WriteHistory :: "8 word" where "WriteHistory = 2"
definition MetadataChatLimit :: "8 word" where "MetadataChatLimit = 1"

record write_batch =
  batch_origin :: "8 word"
  batch_messages :: "message list"
  batch_byteSize :: int

definition validateWriteOrigin :: "8 word \<Rightarrow> model_error option" where
  "validateWriteOrigin origin =
     (if origin = 0 then Some (newValidationError Required ''write_origin'' 0)
      else if origin = WriteRealtime \<or> origin = WriteHistory then None
      else Some (newValidationError InvalidValue ''write_origin'' 0))"

definition validateMetadataLimitKind :: "8 word \<Rightarrow> model_error option" where
  "validateMetadataLimitKind kind =
     (if kind = 0 then Some (newValidationError Required ''metadata_limit_kind'' 0)
      else if kind \<noteq> MetadataChatLimit then Some (newValidationError InvalidValue ''metadata_limit_kind'' 0)
      else None)"

text \<open>The charging loop: \<open>charge_from\<close> carries \<open>total\<close> and refuses as soon as it passes the limit.\<close>

fun charge_from :: "int \<Rightarrow> int \<Rightarrow> int \<Rightarrow> int list \<Rightarrow> int option" where
  "charge_from limit per sofar [] = Some sofar"
| "charge_from limit per sofar (b # bs) =
     (case checkedByteSum [sofar, b, per] of
        None \<Rightarrow> None
      | Some nxt \<Rightarrow> if nxt > limit then None else charge_from limit per nxt bs)"

definition writeBatchByteSize :: "int list \<Rightarrow> model_error + int" where
  "writeBatchByteSize bs =
     (case charge_from maxWriteBatchBytes writeBatchRecordBytes 0 bs of
        None \<Rightarrow> Inl (newValidationError SizeExceeded ''write_batch'' maxWriteBatchBytes)
      | Some n \<Rightarrow> Inr n)"

definition NewWriteBatch :: "8 word \<Rightarrow> message list \<Rightarrow> model_error + write_batch" where
  "NewWriteBatch origin ms =
     fail_if (validateWriteOrigin origin) (
     if len ms > MaxWriteBatchMessages
     then Inl (newValidationError SizeExceeded ''write_batch_messages'' MaxWriteBatchMessages)
     else if ms = [] then Inr \<lparr>batch_origin = origin, batch_messages = [], batch_byteSize = 0\<rparr>
     else
       on_ok (map_ok cloneNormalizedMessage ms) (\<lambda>owned.
       on_ok (writeBatchByteSize (map snd owned)) (\<lambda>n.
       Inr \<lparr>batch_origin = origin, batch_messages = map fst owned, batch_byteSize = n\<rparr>)))"

text \<open>\<open>At\<close> of every bounded collection: the element and whether the index was in range.\<close>

definition list_At :: "'a \<Rightarrow> 'a list \<Rightarrow> int \<Rightarrow> 'a \<times> bool" where
  "list_At z xs i = (if i < 0 \<or> i \<ge> len xs then (z, False) else (xs ! nat i, True))"

definition batch_At :: "write_batch \<Rightarrow> int \<Rightarrow> message \<times> bool" where
  "batch_At b = list_At zero_message (batch_messages b)"

section \<open>History jobs and chunks\<close>

definition MaxHistoryJobIDBytes :: int where "MaxHistoryJobIDBytes = 128"
definition MaxHistoryChunkRecords :: int where "MaxHistoryChunkRecords = 32"
definition MaxHistoryChunkBytes :: int where "MaxHistoryChunkBytes = 128 * 1024"
definition historyChunkRecordBytes :: int where "historyChunkRecordBytes = 32"

datatype history_job_id = HistoryJobID (history_job_id_value: string)

definition HistoryMetadata :: "8 word" where "HistoryMetadata = 1"
definition HistoryOnDemand :: "8 word" where "HistoryOnDemand = 2"
definition HistoryBulk :: "8 word" where "HistoryBulk = 3"
definition HistoryUnknown :: "8 word" where "HistoryUnknown = 4"

record history_job =
  job_id :: history_job_id
  job_class :: "8 word"

record history_chunk =
  chunk_messages :: "message list"
  chunk_byteSize :: int

definition validateHistoryJobID :: "string \<Rightarrow> model_error option" where
  "validateHistoryJobID v =
     (if v = [] then Some (newValidationError Required ''history_job_id'' 0)
      else if len v > MaxHistoryJobIDBytes then Some (newValidationError TooLong ''history_job_id'' MaxHistoryJobIDBytes)
      else if \<not> valid_utf8 v then Some (newValidationError InvalidUTF8 ''history_job_id'' MaxHistoryJobIDBytes)
      else if \<exists>c \<in> set (runes v). fst c = 0 \<or> is_control (fst c)
      then Some (newValidationError ControlCharacter ''history_job_id'' MaxHistoryJobIDBytes)
      else None)"

definition validateHistoryClass :: "8 word \<Rightarrow> model_error option" where
  "validateHistoryClass c =
     (if c = 0 then Some (newValidationError Required ''history_class'' 0)
      else if c = HistoryMetadata \<or> c = HistoryOnDemand \<or> c = HistoryBulk \<or> c = HistoryUnknown then None
      else Some (newValidationError InvalidValue ''history_class'' 0))"

definition NewHistoryJob :: "string \<Rightarrow> 8 word \<Rightarrow> model_error + history_job" where
  "NewHistoryJob i c =
     fail_if (validateHistoryJobID i) (
     fail_if (validateHistoryClass c) (
     Inr \<lparr>job_id = HistoryJobID i, job_class = c\<rparr>))"

definition historyChunkByteSize :: "int list \<Rightarrow> model_error + int" where
  "historyChunkByteSize bs =
     (case charge_from MaxHistoryChunkBytes historyChunkRecordBytes 0 bs of
        None \<Rightarrow> Inl (newValidationError SizeExceeded ''history_chunk'' MaxHistoryChunkBytes)
      | Some n \<Rightarrow> Inr n)"

definition NewHistoryChunk :: "message list \<Rightarrow> model_error + history_chunk" where
  "NewHistoryChunk ms =
     (if len ms > MaxHistoryChunkRecords
      then Inl (newValidationError SizeExceeded ''history_chunk_records'' MaxHistoryChunkRecords)
      else if ms = [] then Inr \<lparr>chunk_messages = [], chunk_byteSize = 0\<rparr>
      else
        on_ok (map_ok (\<lambda>m. on_ok (validateMessage m) (\<lambda>n. Inr (m\<lparr>msg_byteSize := n\<rparr>))) ms) (\<lambda>owned.
        on_ok (historyChunkByteSize (map msg_byteSize owned)) (\<lambda>n.
        Inr \<lparr>chunk_messages = owned, chunk_byteSize = n\<rparr>)))"

definition chunk_At :: "history_chunk \<Rightarrow> int \<Rightarrow> message \<times> bool" where
  "chunk_At c = list_At zero_message (chunk_messages c)"

record source_status =
  status_metadataDropped :: "64 word"
  status_onDemandDropped :: "64 word"
  status_bulkDropped :: "64 word"
  status_unknownDropped :: "64 word"
  status_degraded :: bool

definition SourceFull :: "8 word" where "SourceFull = 1"
definition SourceClosed :: "8 word" where "SourceClosed = 2"
definition SourceRejected :: "8 word" where "SourceRejected = 3"

section \<open>Updates\<close>

definition MaxNormalizedUpdateBytes :: int where "MaxNormalizedUpdateBytes = 32 * 1024"
definition normalizedUpdateEnvelopeBytes :: int where "normalizedUpdateEnvelopeBytes = 256"

definition UpdateReady :: "8 word" where "UpdateReady = 1"
definition UpdateLive :: "8 word" where "UpdateLive = 2"
definition UpdateHistory :: "8 word" where "UpdateHistory = 3"
definition UpdateSummary :: "8 word" where "UpdateSummary = 4"
definition UpdateDegraded :: "8 word" where "UpdateDegraded = 5"
definition UpdateStopping :: "8 word" where "UpdateStopping = 6"
definition UpdateStopped :: "8 word" where "UpdateStopped = 7"
definition UpdateFatal :: "8 word" where "UpdateFatal = 8"

lemmas update_kinds = UpdateReady_def UpdateLive_def UpdateHistory_def UpdateSummary_def UpdateDegraded_def
  UpdateStopping_def UpdateStopped_def UpdateFatal_def

record update_input =
  ui_Kind :: "8 word"
  ui_ChatID :: chat_id
  ui_MessageID :: message_id
  ui_Accepted :: "64 word"
  ui_Discarded :: "64 word"
  ui_Degraded :: bool

record update =
  update_kind :: "8 word"
  update_chatID :: chat_id
  update_messageID :: message_id
  update_accepted :: "64 word"
  update_discarded :: "64 word"
  update_degraded :: bool
  update_byteSize :: int

definition validateUpdateKind :: "8 word \<Rightarrow> model_error option" where
  "validateUpdateKind kind =
     (if kind = 0 then Some (newValidationError Required ''update_kind'' 0)
      else if kind \<in> {UpdateReady, UpdateLive, UpdateHistory, UpdateSummary, UpdateDegraded, UpdateStopping,
        UpdateStopped, UpdateFatal} then None
      else Some (newValidationError InvalidValue ''update_kind'' 0))"

definition normalizedUpdateByteSize :: "int \<Rightarrow> int \<Rightarrow> model_error + int" where
  "normalizedUpdateByteSize chatIDBytes messageIDBytes =
     (case checkedByteSum [normalizedUpdateEnvelopeBytes, chatIDBytes, messageIDBytes] of
        Some n \<Rightarrow>
          if n > MaxNormalizedUpdateBytes
          then Inl (newValidationError SizeExceeded ''update'' MaxNormalizedUpdateBytes) else Inr n
      | None \<Rightarrow> Inl (newValidationError SizeExceeded ''update'' MaxNormalizedUpdateBytes))"

definition NewUpdate :: "update_input \<Rightarrow> model_error + update" where
  "NewUpdate i =
     fail_if (validateUpdateKind (ui_Kind i)) (
     let chatValue = chat_id_value (ui_ChatID i); messageValue = message_id_value (ui_MessageID i) in
     if ui_Kind i = UpdateLive \<and> chatValue = [] then Inl (newValidationError Required ''chat_id'' 0)
     else if ui_Kind i = UpdateLive \<and> messageValue = [] then Inl (newValidationError Required ''message_id'' 0)
     else if messageValue \<noteq> [] \<and> chatValue = [] then Inl (newValidationError Required ''chat_id'' 0)
     else
       on_ok (if chatValue \<noteq> [] then NewChatID chatValue else Inr (ChatID [])) (\<lambda>chatID.
       on_ok (if messageValue \<noteq> [] then NewMessageID messageValue else Inr (MessageID [])) (\<lambda>messageID.
       on_ok (normalizedUpdateByteSize (len (chat_id_value chatID)) (len (message_id_value messageID))) (\<lambda>n.
       Inr \<lparr>update_kind = ui_Kind i, update_chatID = chatID, update_messageID = messageID,
         update_accepted = ui_Accepted i, update_discarded = ui_Discarded i,
         update_degraded = ui_Degraded i, update_byteSize = n\<rparr>))))"

section \<open>Live events\<close>

definition MaxLiveEventsPerCommit :: int where "MaxLiveEventsPerCommit = MaxWriteBatchMessages"
definition MaxNormalizedLiveEventBytes :: int where "MaxNormalizedLiveEventBytes = MaxNormalizedEventBytes"
definition liveEventEnvelopeBytes :: int where "liveEventEnvelopeBytes = 128"
definition LiveMessageCommitted :: "8 word" where "LiveMessageCommitted = 1"

record live_event =
  live_kind :: "8 word"
  live_message :: message
  live_unreadCount :: "32 word"
  live_activityTime :: instant
  live_byteSize :: int

definition NewLiveMessageCommitted :: "message \<Rightarrow> 32 word \<Rightarrow> instant \<Rightarrow> model_error + live_event" where
  "NewLiveMessageCommitted m unreadCount activityTime =
     on_ok (cloneNormalizedMessage m) (\<lambda>(owned, messageBytes).
     if activityTime = 0 then Inl (newValidationError Required ''activity_time'' 0)
     else if activityTime < msg_sentAt owned then Inl (newValidationError InvalidValue ''activity_time'' 0)
     else
       case checkedByteSum [liveEventEnvelopeBytes, messageBytes] of
         None \<Rightarrow> Inl (newValidationError SizeExceeded ''live_event'' MaxNormalizedLiveEventBytes)
       | Some n \<Rightarrow>
           if n > MaxNormalizedLiveEventBytes
           then Inl (newValidationError SizeExceeded ''live_event'' MaxNormalizedLiveEventBytes)
           else Inr \<lparr>live_kind = LiveMessageCommitted, live_message = owned, live_unreadCount = unreadCount,
             live_activityTime = activityTime, live_byteSize = n\<rparr>)"

definition live_NotificationEligible :: "live_event \<Rightarrow> bool" where
  "live_NotificationEligible e = msg_notificationEligible (live_message e)"

definition NewLiveEventBatch :: "live_event list \<Rightarrow> model_error + live_event list" where
  "NewLiveEventBatch es =
     (if len es > MaxLiveEventsPerCommit
      then Inl (newValidationError SizeExceeded ''live_event_batch'' MaxLiveEventsPerCommit)
      else
        map_ok (\<lambda>e.
          if live_kind e \<noteq> LiveMessageCommitted then Inl (newValidationError InvalidValue ''live_event_kind'' 0)
          else NewLiveMessageCommitted (live_message e) (live_unreadCount e) (live_activityTime e)) es)"

section \<open>Charges and limits\<close>

text \<open>What a list of records is charged: each message's bytes and a fixed allowance per record.\<close>

definition records_charge :: "int \<Rightarrow> int list \<Rightarrow> int" where
  "records_charge per bs = (\<Sum>b\<leftarrow>bs. b + per)"

lemma records_charge_simps [simp]:
  "records_charge per [] = 0" "records_charge per (b # bs) = b + per + records_charge per bs"
  by (simp_all add: records_charge_def)

lemma records_charge_nonneg: "0 \<le> per \<Longrightarrow> \<forall>b \<in> set bs. 0 \<le> b \<Longrightarrow> 0 \<le> records_charge per bs"
  by (induction bs) auto

lemma records_charge_le: "\<forall>b \<in> set bs. b \<le> m \<Longrightarrow> records_charge per bs \<le> len bs * (m + per)"
proof (induction bs)
  case (Cons b bs)
  then have "b + per + records_charge per bs \<le> (m + per) + len bs * (m + per)" by simp
  also have "\<dots> = (1 + len bs) * (m + per)" by (simp add: distrib_right)
  finally show ?case by (simp add: add.commute)
qed simp

lemma charge_from_eq_Some:
  assumes "0 \<le> per" "limit \<le> max_int"
  shows "0 \<le> sofar \<Longrightarrow> sofar \<le> limit \<Longrightarrow> \<forall>b \<in> set bs. 0 \<le> b \<Longrightarrow>
    charge_from limit per sofar bs = Some n \<longleftrightarrow>
      sofar + records_charge per bs \<le> limit \<and> n = sofar + records_charge per bs"
proof (induction bs arbitrary: sofar)
  case (Cons b bs)
  show ?case
  proof (cases "sofar + b + per \<le> limit")
    case True
    then have "checkedByteSum [sofar, b, per] = Some (sofar + b + per)"
      using Cons.prems assms by (simp add: checkedByteSum_Some_iff)
    then show ?thesis using True Cons assms(1) by (auto simp: algebra_simps)
  next
    case False
    have "0 \<le> records_charge per bs" using Cons.prems assms(1) by (simp add: records_charge_nonneg)
    then have "\<not> sofar + records_charge per (b # bs) \<le> limit" using False by simp
    moreover have "charge_from limit per sofar (b # bs) = None"
      using False by (auto simp: checkedByteSum_Some_iff split: option.split)
    ultimately show ?thesis by simp
  qed
qed auto

lemma batch_limits:
  "maxWriteBatchBytes = 50 * (max_message_bytes + writeBatchRecordBytes)" "maxWriteBatchBytes \<le> max_int"
  "0 \<le> maxWriteBatchBytes" "0 \<le> writeBatchRecordBytes"
  by (simp_all add: maxWriteBatchBytes_def max_int_def max_message_bytes_def writeBatchRecordBytes_def size_limits
      media_limits MaxQuoteTextBytes_def MaxWriteBatchMessages_def)

lemma chunk_limits:
  "MaxHistoryChunkBytes \<le> max_int" "0 \<le> MaxHistoryChunkBytes" "0 \<le> historyChunkRecordBytes"
  by (simp_all add: MaxHistoryChunkBytes_def historyChunkRecordBytes_def max_int_def)

definition message_charges :: "message list \<Rightarrow> int list" where
  "message_charges ms = map msg_byteSize ms"

lemma message_charges_pos: "\<forall>m \<in> set ms. wf_message m \<Longrightarrow> \<forall>b \<in> set (message_charges ms). 0 \<le> b \<and> b \<le> max_message_bytes"
  using wf_message_bounds by (fastforce simp: message_charges_def)

lemma write_charge_fits:
  assumes "\<forall>m \<in> set ms. wf_message m" "len ms \<le> MaxWriteBatchMessages"
  shows "records_charge writeBatchRecordBytes (message_charges ms) \<le> maxWriteBatchBytes"
proof -
  have "records_charge writeBatchRecordBytes (message_charges ms)
      \<le> len (message_charges ms) * (max_message_bytes + writeBatchRecordBytes)"
    by (rule records_charge_le) (use message_charges_pos [OF assms(1)] in simp)
  also have "\<dots> \<le> 50 * (max_message_bytes + writeBatchRecordBytes)"
    using assms(2) by (simp add: message_charges_def MaxWriteBatchMessages_def max_message_bytes_def writeBatchRecordBytes_def)
  finally show ?thesis by (simp add: batch_limits)
qed

lemma map_ok_clone: "\<forall>m \<in> set ms. wf_message m \<Longrightarrow>
    map_ok cloneNormalizedMessage ms = Inr (map (\<lambda>m. (m, msg_byteSize m)) ms)"
  by (induction ms) (auto simp: cloneNormalizedMessage_wf)

lemma NewWriteBatch_wf:
  assumes "\<forall>m \<in> set ms. wf_message m" "len ms \<le> MaxWriteBatchMessages" "validateWriteOrigin origin = None"
  shows "NewWriteBatch origin ms = Inr \<lparr>batch_origin = origin, batch_messages = ms,
    batch_byteSize = records_charge writeBatchRecordBytes (message_charges ms)\<rparr>"
proof (cases "ms = []")
  case False
  have "charge_from maxWriteBatchBytes writeBatchRecordBytes 0 (message_charges ms)
      = Some (records_charge writeBatchRecordBytes (message_charges ms))"
    using write_charge_fits [OF assms(1,2)] message_charges_pos [OF assms(1)]
    by (simp add: charge_from_eq_Some batch_limits(2-4))
  then show ?thesis
    using False assms
    by (simp add: NewWriteBatch_def map_ok_clone writeBatchByteSize_def comp_def message_charges_def)
qed (use assms in \<open>simp add: NewWriteBatch_def message_charges_def MaxWriteBatchMessages_def\<close>)

lemma NewHistoryChunk_wf:
  assumes "\<forall>m \<in> set ms. wf_message m"
  shows "NewHistoryChunk ms = Inr c \<longleftrightarrow>
    len ms \<le> MaxHistoryChunkRecords \<and> records_charge historyChunkRecordBytes (message_charges ms) \<le> MaxHistoryChunkBytes
    \<and> c = \<lparr>chunk_messages = ms, chunk_byteSize = records_charge historyChunkRecordBytes (message_charges ms)\<rparr>"
proof -
  have same: "map_ok (\<lambda>m. on_ok (validateMessage m) (\<lambda>n. Inr (m\<lparr>msg_byteSize := n\<rparr>))) ms = Inr ms"
    by (rule map_ok_id) (use assms in \<open>simp add: validateMessage_wf\<close>)
  have charge: "charge_from MaxHistoryChunkBytes historyChunkRecordBytes 0 (message_charges ms) = Some n \<longleftrightarrow>
      records_charge historyChunkRecordBytes (message_charges ms) \<le> MaxHistoryChunkBytes
      \<and> n = records_charge historyChunkRecordBytes (message_charges ms)" for n
    using message_charges_pos [OF assms] by (simp add: charge_from_eq_Some chunk_limits)
  then have "historyChunkByteSize (message_charges ms) = Inr n \<longleftrightarrow>
      records_charge historyChunkRecordBytes (message_charges ms) \<le> MaxHistoryChunkBytes
      \<and> n = records_charge historyChunkRecordBytes (message_charges ms)" for n
    by (auto simp: historyChunkByteSize_def split: option.split)
  then show ?thesis
    by (auto simp: NewHistoryChunk_def same message_charges_def chunk_limits)
qed

lemma NewUpdate_eq_Inr:
  "NewUpdate i = Inr u \<longleftrightarrow> validateUpdateKind (ui_Kind i) = None
     \<and> (ui_Kind i = UpdateLive \<longrightarrow> ui_MessageID i \<noteq> MessageID [])
     \<and> (ui_MessageID i \<noteq> MessageID [] \<longrightarrow> ui_ChatID i \<noteq> ChatID [] \<and> valid_identifier (message_id_value (ui_MessageID i)))
     \<and> (ui_ChatID i \<noteq> ChatID [] \<longrightarrow> valid_identifier (chat_id_value (ui_ChatID i)))
     \<and> u = \<lparr>update_kind = ui_Kind i, update_chatID = ui_ChatID i, update_messageID = ui_MessageID i,
         update_accepted = ui_Accepted i, update_discarded = ui_Discarded i, update_degraded = ui_Degraded i,
         update_byteSize = 256 + len (chat_id_value (ui_ChatID i)) + len (message_id_value (ui_MessageID i))\<rparr>"
proof -
  obtain c m where cm: "ui_ChatID i = ChatID c" "ui_MessageID i = MessageID m"
    by (metis chat_id.exhaust message_id.exhaust)
  have sum: "normalizedUpdateByteSize (len x) (len y) = Inr (256 + len x + len y)"
    if "len x \<le> 512" "len y \<le> 512" for x y :: string
  proof -
    have "checkedByteSum [256, len x, len y] = Some (256 + len x + len y)"
      using that by (simp add: checkedByteSum_Some_iff max_int_def)
    then show ?thesis
      using that by (simp add: normalizedUpdateByteSize_def normalizedUpdateEnvelopeBytes_def MaxNormalizedUpdateBytes_def)
  qed
  have small: "length v \<le> 512" if "valid_identifier v" for v
    using that by (simp add: clean_text_def MaxIdentifierBytes_def)
  show ?thesis
    using cm sum [of c m] sum [of c "[]"] sum [of "[]" m] sum [of "[]" "[]"] small [of c] small [of m]
    by (cases "c = []"; cases "m = []") (auto simp: NewUpdate_def Let_def)
qed

lemma NewLiveMessageCommitted_wf:
  assumes "wf_message m"
  shows "NewLiveMessageCommitted m u t = Inr e \<longleftrightarrow> msg_sentAt m \<le> t \<and> t \<noteq> 0
    \<and> e = \<lparr>live_kind = LiveMessageCommitted, live_message = m, live_unreadCount = u, live_activityTime = t,
        live_byteSize = 128 + msg_byteSize m\<rparr>"
proof -
  have "checkedByteSum [128, msg_byteSize m] = Some (128 + msg_byteSize m)"
    using wf_message_bounds [OF assms] by (simp add: checkedByteSum_Some_iff max_message_bytes_def max_int_def)
  then show ?thesis
    using wf_message_bounds [OF assms]
    by (auto simp: NewLiveMessageCommitted_def cloneNormalizedMessage_wf [OF assms] liveEventEnvelopeBytes_def
        MaxNormalizedLiveEventBytes_def MaxNormalizedEventBytes_def max_message_bytes_def)
qed

definition wf_live :: "live_event \<Rightarrow> bool" where
  "wf_live e \<longleftrightarrow> live_kind e = LiveMessageCommitted \<and> wf_message (live_message e)
     \<and> msg_sentAt (live_message e) \<le> live_activityTime e \<and> live_activityTime e \<noteq> 0
     \<and> live_byteSize e = 128 + msg_byteSize (live_message e)"

lemma NewLiveEventBatch_wf:
  assumes "\<forall>e \<in> set es. wf_live e" "len es \<le> MaxLiveEventsPerCommit"
  shows "NewLiveEventBatch es = Inr es"
proof -
  have "NewLiveMessageCommitted (live_message e) (live_unreadCount e) (live_activityTime e) = Inr e" if "e \<in> set es" for e
    using assms(1) that by (simp add: wf_live_def NewLiveMessageCommitted_wf)
  moreover have "live_kind e = LiveMessageCommitted" if "e \<in> set es" for e
    using assms(1) that by (simp add: wf_live_def)
  ultimately show ?thesis
    using assms(2) by (simp add: NewLiveEventBatch_def map_ok_id)
qed

section \<open>Properties\<close>

text \<open>Any batch of at most fifty well-formed messages is accepted whatever the messages hold, because the byte limit of
  a batch is exactly fifty of the largest possible charges.\<close>

theorem write_batch_always_fits:
  assumes "\<forall>m \<in> set ms. wf_message m" "len ms \<le> MaxWriteBatchMessages" "origin = WriteRealtime \<or> origin = WriteHistory"
  shows "\<exists>b. NewWriteBatch origin ms = Inr b \<and> batch_origin b = origin \<and> batch_messages b = ms
    \<and> batch_byteSize b = (\<Sum>m\<leftarrow>ms. msg_byteSize m + 32) \<and> batch_byteSize b \<le> maxWriteBatchBytes
    \<and> maxWriteBatchBytes = MaxWriteBatchMessages * (max_message_bytes + writeBatchRecordBytes)"
proof -
  have "validateWriteOrigin origin = None"
    using assms(3) by (auto simp: validateWriteOrigin_def WriteRealtime_def WriteHistory_def)
  moreover have "maxWriteBatchBytes = MaxWriteBatchMessages * (max_message_bytes + writeBatchRecordBytes)"
    using batch_limits(1) by (simp add: MaxWriteBatchMessages_def)
  ultimately show ?thesis
    using NewWriteBatch_wf [OF assms(1,2)] write_charge_fits [OF assms(1,2)]
    by (simp add: records_charge_def message_charges_def writeBatchRecordBytes_def comp_def)
qed

theorem write_batch_always_fits_witness:
  "\<exists>b. NewWriteBatch WriteRealtime [sample_message ''c'' ''m'' 5, sample_message ''c'' ''n'' 6] = Inr b
    \<and> batch_messages b = [sample_message ''c'' ''m'' 5, sample_message ''c'' ''n'' 6]"
proof -
  have "wf_message (sample_message ''c'' ''m'' 5)" "wf_message (sample_message ''c'' ''n'' 6)"
    by (intro sample_message_wf ascii_clean; simp add: ascii_eval)+
  then show ?thesis
    using write_batch_always_fits [of "[sample_message ''c'' ''m'' 5, sample_message ''c'' ''n'' 6]" WriteRealtime]
    by (auto simp: MaxWriteBatchMessages_def)
qed

text \<open>A history chunk is built exactly when its records and their charge fit, and it holds the messages unchanged.\<close>

theorem history_chunk_exact:
  assumes "\<forall>m \<in> set ms. wf_message m"
  shows "NewHistoryChunk ms = Inr c \<longleftrightarrow> len ms \<le> 32 \<and> (\<Sum>m\<leftarrow>ms. msg_byteSize m + 32) \<le> 131072
    \<and> c = \<lparr>chunk_messages = ms, chunk_byteSize = (\<Sum>m\<leftarrow>ms. msg_byteSize m + 32)\<rparr>"
  using NewHistoryChunk_wf [OF assms]
  by (simp add: records_charge_def message_charges_def historyChunkRecordBytes_def comp_def MaxHistoryChunkRecords_def MaxHistoryChunkBytes_def)

theorem history_chunk_exact_witness:
  "(\<forall>c. NewHistoryChunk (replicate 33 (sample_message ''c'' ''m'' 5)) \<noteq> Inr c)
    \<and> (\<exists>c. NewHistoryChunk [sample_message ''c'' ''m'' 5] = Inr c)"
proof -
  have wf: "wf_message (sample_message ''c'' ''m'' 5)" by (intro sample_message_wf ascii_clean; simp add: ascii_eval)
  then have "\<forall>m \<in> set (replicate 33 (sample_message ''c'' ''m'' 5)). wf_message m" by simp
  then have "NewHistoryChunk (replicate 33 (sample_message ''c'' ''m'' 5)) \<noteq> Inr c" for c
    using history_chunk_exact [of "replicate 33 (sample_message ''c'' ''m'' 5)" c] by simp
  moreover have "msg_byteSize (sample_message ''c'' ''m'' 5) \<le> 24768" using wf_message_bounds [OF wf] by (simp add: max_message_bytes_def)
  then have "\<exists>c. NewHistoryChunk [sample_message ''c'' ''m'' 5] = Inr c"
    using history_chunk_exact [of "[sample_message ''c'' ''m'' 5]"] wf by simp
  ultimately show ?thesis by blast
qed

text \<open>An update is accepted exactly when its kind is known, a message reference carries its chat, a live update names a
  message and both identifiers are valid; its charge never exceeds the limit of an update.\<close>

theorem update_exact:
  "NewUpdate i = Inr u \<longleftrightarrow> validateUpdateKind (ui_Kind i) = None
     \<and> (ui_Kind i = UpdateLive \<longrightarrow> ui_MessageID i \<noteq> MessageID [])
     \<and> (ui_MessageID i \<noteq> MessageID [] \<longrightarrow> ui_ChatID i \<noteq> ChatID [] \<and> valid_identifier (message_id_value (ui_MessageID i)))
     \<and> (ui_ChatID i \<noteq> ChatID [] \<longrightarrow> valid_identifier (chat_id_value (ui_ChatID i)))
     \<and> u = \<lparr>update_kind = ui_Kind i, update_chatID = ui_ChatID i, update_messageID = ui_MessageID i,
         update_accepted = ui_Accepted i, update_discarded = ui_Discarded i, update_degraded = ui_Degraded i,
         update_byteSize = 256 + len (chat_id_value (ui_ChatID i)) + len (message_id_value (ui_MessageID i))\<rparr>"
  by (rule NewUpdate_eq_Inr)

theorem update_exact_witness:
  "\<exists>u. NewUpdate \<lparr>ui_Kind = UpdateLive, ui_ChatID = ChatID ''c'', ui_MessageID = MessageID ''m'', ui_Accepted = 0,
     ui_Discarded = 0, ui_Degraded = False\<rparr> = Inr u \<and> update_byteSize u = 258"
proof -
  have "valid_identifier ''c''" "valid_identifier ''m''" by (rule ascii_clean; simp add: ascii_eval)+
  then show ?thesis by (simp add: update_exact validateUpdateKind_def update_kinds)
qed

text \<open>Rebuilding a batch of committed live events keeps every event, in order.\<close>

theorem live_batch_round_trip:
  assumes "\<forall>e \<in> set es. \<exists>m u t. wf_message m \<and> NewLiveMessageCommitted m u t = Inr e" "len es \<le> MaxLiveEventsPerCommit"
  shows "NewLiveEventBatch es = Inr es"
  using assms by (intro NewLiveEventBatch_wf) (auto simp: NewLiveMessageCommitted_wf wf_live_def)

theorem live_batch_round_trip_witness:
  "\<exists>e. NewLiveMessageCommitted (sample_message ''c'' ''m'' 5) 1 7 = Inr e \<and> NewLiveEventBatch [e] = Inr [e]"
proof -
  have wf: "wf_message (sample_message ''c'' ''m'' 5)" by (intro sample_message_wf ascii_clean; simp add: ascii_eval)
  then obtain e where e: "NewLiveMessageCommitted (sample_message ''c'' ''m'' 5) 1 7 = Inr e"
    by (simp add: NewLiveMessageCommitted_wf)
  then have "NewLiveEventBatch [e] = Inr [e]"
    using wf by (intro live_batch_round_trip) (auto simp: MaxLiveEventsPerCommit_def MaxWriteBatchMessages_def)
  then show ?thesis using e by blast
qed

end
