(* ===== verification/Retention.thy ===== *)
theory Retention
  imports Batches
begin

text \<open>
  The retention values of \<open>internal/model/retention.go\<close>: body-free message summaries, cache usage
  counters, decisions, bounded snapshots, prune plans and prune results. An optional \<open>*MessageAnchor\<close>
  argument is an option; the pair \<open>(anchor, hasAnchor)\<close> of the structs keeps its two fields.
\<close>

definition MaxRetentionSnapshotSummaries :: int where "MaxRetentionSnapshotSummaries = 551"
definition MaxPrunePlanDeletes :: int where "MaxPrunePlanDeletes = 551"

record summary =
  sum_chatID :: chat_id
  sum_messageID :: message_id
  sum_sentAt :: instant
  sum_fromMe :: bool
  sum_bodyRetained :: bool
  sum_bodyBytes :: int

definition zero_summary :: summary where
  "zero_summary = \<lparr>sum_chatID = ChatID [], sum_messageID = MessageID [], sum_sentAt = 0, sum_fromMe = False,
     sum_bodyRetained = False, sum_bodyBytes = 0\<rparr>"

definition cloneMessageSummary :: "summary \<Rightarrow> model_error + summary" where
  "cloneMessageSummary s =
     on_ok (NewChatID (chat_id_value (sum_chatID s))) (\<lambda>chatID.
     on_ok (NewMessageID (message_id_value (sum_messageID s))) (\<lambda>messageID.
     if sum_sentAt s = 0 then Inl (newValidationError Required ''sent_at'' 0)
     else if sum_bodyBytes s < 0 \<or> sum_bodyBytes s > MaxRetainedTextBytes
     then Inl (newValidationError InvalidValue ''body_bytes'' MaxRetainedTextBytes)
     else if \<not> sum_bodyRetained s \<and> sum_bodyBytes s \<noteq> 0 then Inl (newValidationError InvalidValue ''body_bytes'' 0)
     else Inr \<lparr>sum_chatID = chatID, sum_messageID = messageID, sum_sentAt = sum_sentAt s, sum_fromMe = sum_fromMe s,
       sum_bodyRetained = sum_bodyRetained s, sum_bodyBytes = sum_bodyBytes s\<rparr>))"

definition NewMessageSummaryFromMetadata :: "summary \<Rightarrow> model_error + summary" where
  "NewMessageSummaryFromMetadata = cloneMessageSummary"

definition NewMessageSummary :: "message \<Rightarrow> summary" where
  "NewMessageSummary m =
     (case NewChatID (chat_key m) of
        Inl _ \<Rightarrow> zero_summary
      | Inr chatID \<Rightarrow>
          (case NewMessageID (message_key m) of
             Inl _ \<Rightarrow> zero_summary
           | Inr messageID \<Rightarrow>
               if msg_sentAt m = 0 then zero_summary
               else \<lparr>sum_chatID = chatID, sum_messageID = messageID, sum_sentAt = msg_sentAt m,
                 sum_fromMe = msg_fromMe m, sum_bodyRetained = msg_bodyRetained m,
                 sum_bodyBytes = (if msg_bodyRetained m then len (msg_text m) else 0)\<rparr>))"

section \<open>Cache usage\<close>

record cache_usage =
  use_estimatedBytes :: int
  use_chats :: int
  use_messages :: int
  use_bodies :: int
  use_anchors :: int
  use_valid :: bool

definition zero_usage :: cache_usage where
  "zero_usage = \<lparr>use_estimatedBytes = 0, use_chats = 0, use_messages = 0, use_bodies = 0, use_anchors = 0,
     use_valid = False\<rparr>"

definition NewCacheUsage :: "int \<Rightarrow> int \<Rightarrow> int \<Rightarrow> int \<Rightarrow> int \<Rightarrow> model_error + cache_usage" where
  "NewCacheUsage estimatedBytes chats messages bodies anchors =
     (if estimatedBytes < 0 then Inl (newValidationError InvalidValue ''estimated_bytes'' 0)
      else if chats < 0 then Inl (newValidationError InvalidValue ''chats'' 0)
      else if messages < 0 then Inl (newValidationError InvalidValue ''messages'' 0)
      else if bodies < 0 then Inl (newValidationError InvalidValue ''bodies'' 0)
      else if anchors < 0 then Inl (newValidationError InvalidValue ''anchors'' 0)
      else Inr \<lparr>use_estimatedBytes = estimatedBytes, use_chats = chats, use_messages = messages,
        use_bodies = bodies, use_anchors = anchors, use_valid = True\<rparr>)"

definition usage_Validate :: "cache_usage \<Rightarrow> model_error option" where
  "usage_Validate u =
     (if \<not> use_valid u then Some (newValidationError Required ''cache_usage'' 0)
      else case NewCacheUsage (use_estimatedBytes u) (use_chats u) (use_messages u) (use_bodies u) (use_anchors u) of
        Inl e \<Rightarrow> Some e
      | Inr _ \<Rightarrow> None)"

section \<open>Decisions, snapshots and plans\<close>

definition KeepBody :: "8 word" where "KeepBody = 1"
definition KeepMetadata :: "8 word" where "KeepMetadata = 2"
definition Discard :: "8 word" where "Discard = 3"

definition RetentionEligible :: "8 word" where "RetentionEligible = 1"
definition RetentionTooOld :: "8 word" where "RetentionTooOld = 2"
definition RetentionMessageCountLimit :: "8 word" where "RetentionMessageCountLimit = 3"
definition RetentionCacheLimit :: "8 word" where "RetentionCacheLimit = 4"

lemmas retention_codes = KeepBody_def KeepMetadata_def Discard_def RetentionEligible_def RetentionTooOld_def
  RetentionMessageCountLimit_def RetentionCacheLimit_def

record decision =
  dec_action :: "8 word"
  dec_reason :: "8 word"

definition validateRetentionAction :: "8 word \<Rightarrow> model_error option" where
  "validateRetentionAction a =
     (if a = 0 then Some (newValidationError Required ''retention_action'' 0)
      else if a \<in> {KeepBody, KeepMetadata, Discard} then None
      else Some (newValidationError InvalidValue ''retention_action'' 0))"

definition validateRetentionReason :: "8 word \<Rightarrow> model_error option" where
  "validateRetentionReason r =
     (if r = 0 then Some (newValidationError Required ''retention_reason'' 0)
      else if r \<in> {RetentionEligible, RetentionTooOld, RetentionMessageCountLimit, RetentionCacheLimit} then None
      else Some (newValidationError InvalidValue ''retention_reason'' 0))"

definition NewRetentionDecision :: "8 word \<Rightarrow> 8 word \<Rightarrow> model_error + decision" where
  "NewRetentionDecision a r =
     fail_if (validateRetentionAction a) (
     fail_if (validateRetentionReason r) (Inr \<lparr>dec_action = a, dec_reason = r\<rparr>))"

record retention_state =
  rst_Now :: instant
  rst_NewerBodies :: int
  rst_Usage :: cache_usage
  rst_Origin :: "8 word"

record snapshot =
  snap_chatID :: chat_id
  snap_summaries :: "summary list"
  snap_anchor :: anchor
  snap_hasAnchor :: bool

definition own_anchor :: "chat_id \<Rightarrow> string \<Rightarrow> anchor option \<Rightarrow> model_error + anchor \<times> bool" where
  "own_anchor chatID field a =
     (case a of
        None \<Rightarrow> Inr (zero_anchor, False)
      | Some a \<Rightarrow>
          on_ok (NewMessageAnchor (anchor_chatID a) (anchor_messageID a) (anchor_sentAt a) (anchor_fromMe a)) (\<lambda>owned.
          if chat_id_value (anchor_chatID owned) \<noteq> chat_id_value chatID
          then Inl (newValidationError InvalidValue field 0) else Inr (owned, True)))"

definition NewRetentionSnapshot :: "chat_id \<Rightarrow> summary list \<Rightarrow> anchor option \<Rightarrow> model_error + snapshot" where
  "NewRetentionSnapshot chatID summaries a =
     on_ok (NewChatID (chat_id_value chatID)) (\<lambda>ownedChatID.
     if len summaries > MaxRetentionSnapshotSummaries
     then Inl (newValidationError SizeExceeded ''retention_snapshot_summaries'' MaxRetentionSnapshotSummaries)
     else
       on_ok (map_ok (\<lambda>s. on_ok (cloneMessageSummary s) (\<lambda>owned.
         if chat_id_value (sum_chatID owned) \<noteq> chat_id_value ownedChatID
         then Inl (newValidationError InvalidValue ''summary_chat_id'' 0) else Inr owned)) summaries) (\<lambda>ownedSummaries.
       on_ok (own_anchor ownedChatID ''anchor_chat_id'' a) (\<lambda>(ownedAnchor, hasAnchor).
       Inr \<lparr>snap_chatID = ownedChatID, snap_summaries = ownedSummaries, snap_anchor = ownedAnchor,
         snap_hasAnchor = hasAnchor\<rparr>)))"

record prune_plan =
  plan_chatID :: chat_id
  plan_deleteIDs :: "message_id list"
  plan_replacement :: anchor
  plan_hasReplacement :: bool

definition NewPrunePlan :: "chat_id \<Rightarrow> message_id list \<Rightarrow> anchor option \<Rightarrow> model_error + prune_plan" where
  "NewPrunePlan chatID deleteIDs replacement =
     on_ok (NewChatID (chat_id_value chatID)) (\<lambda>ownedChatID.
     if len deleteIDs > MaxPrunePlanDeletes
     then Inl (newValidationError SizeExceeded ''prune_plan_deletes'' MaxPrunePlanDeletes)
     else
       on_ok (map_ok (\<lambda>i. NewMessageID (message_id_value i)) deleteIDs) (\<lambda>ownedIDs.
       on_ok (own_anchor ownedChatID ''replacement_anchor_chat_id'' replacement) (\<lambda>(ownedAnchor, hasReplacement).
       Inr \<lparr>plan_chatID = ownedChatID, plan_deleteIDs = ownedIDs, plan_replacement = ownedAnchor,
         plan_hasReplacement = hasReplacement\<rparr>)))"

record prune_result =
  pr_deletedRows :: int
  pr_removedBodies :: int
  pr_anchorReplaced :: bool

definition NewPruneResult :: "int \<Rightarrow> int \<Rightarrow> bool \<Rightarrow> model_error + prune_result" where
  "NewPruneResult deletedRows removedBodies anchorReplaced =
     (if deletedRows < 0 then Inl (newValidationError InvalidValue ''deleted_rows'' 0)
      else if removedBodies < 0 then Inl (newValidationError InvalidValue ''removed_bodies'' 0)
      else Inr \<lparr>pr_deletedRows = deletedRows, pr_removedBodies = removedBodies, pr_anchorReplaced = anchorReplaced\<rparr>)"

section \<open>Facts\<close>

definition wf_summary :: "summary \<Rightarrow> bool" where
  "wf_summary s \<longleftrightarrow> valid_identifier (chat_id_value (sum_chatID s)) \<and> valid_identifier (message_id_value (sum_messageID s))
     \<and> sum_sentAt s \<noteq> 0 \<and> 0 \<le> sum_bodyBytes s \<and> sum_bodyBytes s \<le> MaxRetainedTextBytes
     \<and> (sum_bodyRetained s \<or> sum_bodyBytes s = 0)"

definition wf_anchor :: "anchor \<Rightarrow> bool" where
  "wf_anchor a \<longleftrightarrow> valid_identifier (chat_id_value (anchor_chatID a))
     \<and> valid_identifier (message_id_value (anchor_messageID a)) \<and> anchor_sentAt a \<noteq> 0"

definition wf_usage :: "cache_usage \<Rightarrow> bool" where
  "wf_usage u \<longleftrightarrow> use_valid u \<and> 0 \<le> use_estimatedBytes u \<and> 0 \<le> use_chats u \<and> 0 \<le> use_messages u
     \<and> 0 \<le> use_bodies u \<and> 0 \<le> use_anchors u"

definition wf_snapshot :: "snapshot \<Rightarrow> bool" where
  "wf_snapshot p \<longleftrightarrow> valid_identifier (chat_id_value (snap_chatID p))
     \<and> len (snap_summaries p) \<le> MaxRetentionSnapshotSummaries
     \<and> (\<forall>s \<in> set (snap_summaries p). wf_summary s \<and> sum_chatID s = snap_chatID p)
     \<and> (if snap_hasAnchor p then wf_anchor (snap_anchor p) \<and> anchor_chatID (snap_anchor p) = snap_chatID p
        else snap_anchor p = zero_anchor)"

lemma chat_id_eq_iff: "chat_id_value c = chat_id_value d \<longleftrightarrow> c = d"
  by (cases c; cases d) simp

lemma message_id_eq_iff: "message_id_value c = message_id_value d \<longleftrightarrow> c = d"
  by (cases c; cases d) simp

lemma cloneMessageSummary_eq_Inr: "cloneMessageSummary s = Inr s' \<longleftrightarrow> wf_summary s \<and> s' = s"
  by (cases s) (auto simp: cloneMessageSummary_def wf_summary_def)

lemma NewMessageSummary_wf: "wf_message m \<Longrightarrow> wf_summary (NewMessageSummary m)"
  by (auto simp: NewMessageSummary_def wf_summary_def wf_message_def message_parts_ok_def new_id_ok MaxRetainedTextBytes_def)

lemma NewMessageSummary_simps:
  assumes "wf_message m"
  shows "sum_chatID (NewMessageSummary m) = msg_chatID m" "sum_messageID (NewMessageSummary m) = msg_messageID m"
    "sum_sentAt (NewMessageSummary m) = msg_sentAt m" "sum_fromMe (NewMessageSummary m) = msg_fromMe m"
    "sum_bodyRetained (NewMessageSummary m) = msg_bodyRetained m"
  using assms by (simp_all add: NewMessageSummary_def wf_message_def message_parts_ok_def new_id_ok)

lemma usage_Validate_None [simp]: "usage_Validate u = None \<longleftrightarrow> wf_usage u"
  by (auto simp: usage_Validate_def NewCacheUsage_def wf_usage_def)

lemma NewCacheUsage_eq_Inr:
  "NewCacheUsage e c m b a = Inr u \<longleftrightarrow> 0 \<le> e \<and> 0 \<le> c \<and> 0 \<le> m \<and> 0 \<le> b \<and> 0 \<le> a
     \<and> u = \<lparr>use_estimatedBytes = e, use_chats = c, use_messages = m, use_bodies = b, use_anchors = a, use_valid = True\<rparr>"
  by (auto simp: NewCacheUsage_def)

lemma own_anchor_eq_Inr:
  "own_anchor c f a = Inr r \<longleftrightarrow>
     (case a of None \<Rightarrow> r = (zero_anchor, False) | Some x \<Rightarrow> wf_anchor x \<and> anchor_chatID x = c \<and> r = (x, True))"
  by (cases a) (auto simp: own_anchor_def NewMessageAnchor_eq_Inr wf_anchor_def chat_id_eq_iff)

lemma map_ok_filter:
  "(\<And>x y. x \<in> set xs \<Longrightarrow> f x = Inr y \<longleftrightarrow> P x \<and> y = x) \<Longrightarrow> map_ok f xs = Inr ys \<longleftrightarrow> (\<forall>x \<in> set xs. P x) \<and> ys = xs"
  by (induction xs arbitrary: ys) auto

lemma NewRetentionSnapshot_eq_Inr:
  "NewRetentionSnapshot c ss a = Inr p \<longleftrightarrow> wf_snapshot p \<and> snap_chatID p = c \<and> snap_summaries p = ss
     \<and> (case a of None \<Rightarrow> \<not> snap_hasAnchor p | Some x \<Rightarrow> snap_hasAnchor p \<and> snap_anchor p = x)"
proof -
  have "map_ok (\<lambda>s. on_ok (cloneMessageSummary s) (\<lambda>owned.
      if chat_id_value (sum_chatID owned) \<noteq> chat_id_value c
      then Inl (newValidationError InvalidValue ''summary_chat_id'' 0) else Inr owned)) ss = Inr ys
    \<longleftrightarrow> (\<forall>s \<in> set ss. wf_summary s \<and> sum_chatID s = c) \<and> ys = ss" for ys
    by (rule map_ok_filter) (auto simp: cloneMessageSummary_eq_Inr chat_id_eq_iff)
  then show ?thesis
    by (cases a; cases p) (auto simp: NewRetentionSnapshot_def own_anchor_eq_Inr wf_snapshot_def)
qed

lemma NewPrunePlan_eq_Inr:
  "NewPrunePlan c ids a = Inr p \<longleftrightarrow> valid_identifier (chat_id_value c) \<and> len ids \<le> MaxPrunePlanDeletes
     \<and> (\<forall>i \<in> set ids. valid_identifier (message_id_value i))
     \<and> plan_chatID p = c \<and> plan_deleteIDs p = ids
     \<and> (case a of None \<Rightarrow> plan_replacement p = zero_anchor \<and> \<not> plan_hasReplacement p
        | Some x \<Rightarrow> wf_anchor x \<and> anchor_chatID x = c \<and> plan_replacement p = x \<and> plan_hasReplacement p)"
proof -
  have "map_ok (\<lambda>i. NewMessageID (message_id_value i)) ids = Inr ys
      \<longleftrightarrow> (\<forall>i \<in> set ids. valid_identifier (message_id_value i)) \<and> ys = ids" for ys
    by (rule map_ok_filter) auto
  then show ?thesis
    by (cases a; cases p) (auto simp: NewPrunePlan_def own_anchor_eq_Inr)
qed

end
