(* ===== verification/MemoryStore.thy ===== *)
theory MemoryStore
  imports Retention
begin

text \<open>
  The in-memory message store: \<open>internal/store/memory.go\<close>, \<open>memory_display.go\<close> and the memory part of
  \<open>chat_list.go\<close>. A Go map is an association list with distinct keys (\<open>AList.update\<close>,
  \<open>AList.delete\<close>, \<open>map_of\<close>); iterating over it visits the list. Each exported method runs under the store's
  mutex, so it is a function from store to store. A context is what \<open>checkContext\<close> can see of it.
\<close>

definition maxPageMessages :: int where "maxPageMessages = 100"
definition chatEnvelopeBytes :: int where "chatEnvelopeBytes = 64"
definition storeMessageEnvelopeBytes :: int where "storeMessageEnvelopeBytes = 64"
definition anchorEnvelopeBytes :: int where "anchorEnvelopeBytes = 32"
definition MaxChatSummaries :: int where "MaxChatSummaries = 10000"

datatype context_state = NilContext | LiveContext | DoneContext

datatype store_error = StoreRejected | StoreCapacity | ContextDone

type_synonym ('k, 'v) gomap = "('k \<times> 'v) list"

record memory_chat =
  mc_chat :: chat
  mc_messages :: "(string, message) gomap"
  mc_anchor :: anchor
  mc_hasAnchor :: bool
  mc_displayQuality :: "8 word"

record memory =
  mem_maxChats :: int
  mem_chats :: "(string, memory_chat) gomap"
  mem_display :: "display_metadata list"
  mem_displayNext :: nat

definition empty_chat :: "chat \<Rightarrow> memory_chat" where
  "empty_chat c = \<lparr>mc_chat = c, mc_messages = [], mc_anchor = zero_anchor, mc_hasAnchor = False, mc_displayQuality = 0\<rparr>"

definition NewMemory :: "int \<Rightarrow> store_error + memory" where
  "NewMemory maxChats =
     (if maxChats \<le> 0 then Inl StoreRejected
      else Inr \<lparr>mem_maxChats = maxChats, mem_chats = [],
        mem_display = replicate (nat DisplayMetadataCapacity) zero_display, mem_displayNext = 0\<rparr>)"

definition checkContext :: "context_state \<Rightarrow> store_error option" where
  "checkContext ctx =
     (case ctx of NilContext \<Rightarrow> Some StoreRejected | DoneContext \<Rightarrow> Some ContextDone | LiveContext \<Rightarrow> None)"

text \<open>\<open>if err != nil { return &Error{kind: rejected} }\<close> after a model constructor.\<close>

definition or_rejected :: "'e + 'a \<Rightarrow> store_error + 'a" where
  "or_rejected r = (case r of Inl _ \<Rightarrow> Inl StoreRejected | Inr x \<Rightarrow> Inr x)"

section \<open>Chats\<close>

definition contact_text :: "chat \<Rightarrow> string" where
  "contact_text c = (if chat_hasContact c then contact_id_value (chat_contactID c) else [])"

definition normalizeChat :: "chat \<Rightarrow> model_error + chat" where
  "normalizeChat c =
     NewChat \<lparr>chi_ID = chat_id_value (chat_ID c), chi_ContactID = contact_text c, chi_DisplayName = chat_displayName c,
       chi_IsGroup = chat_isGroup c, chi_LastMessageAt = chat_lastMessageAt c, chi_UnreadCount = chat_unreadCount c,
       chi_Muted = chat_muted c, chi_Archived = chat_archived c, chi_Placeholder = chat_placeholder c,
       chi_UpdatedAt = chat_updatedAt c, chi_IngestSeq = chat_ingestSeq c\<rparr>"

definition rebuildChatUnread :: "chat \<Rightarrow> 32 word \<Rightarrow> model_error + chat" where
  "rebuildChatUnread c unread =
     NewChat \<lparr>chi_ID = chat_id_value (chat_ID c), chi_ContactID = contact_text c, chi_DisplayName = chat_displayName c,
       chi_IsGroup = chat_isGroup c, chi_LastMessageAt = chat_lastMessageAt c, chi_UnreadCount = unread,
       chi_Muted = chat_muted c, chi_Archived = chat_archived c, chi_Placeholder = chat_placeholder c,
       chi_UpdatedAt = chat_updatedAt c, chi_IngestSeq = chat_ingestSeq c\<rparr>"

definition advanceChatForMessage :: "chat \<Rightarrow> message \<Rightarrow> bool \<Rightarrow> model_error + chat" where
  "advanceChatForMessage c m countUnread =
     (let lastMessageAt = (if chat_lastMessageAt c = 0 \<or> msg_sentAt m > chat_lastMessageAt c then msg_sentAt m
                           else chat_lastMessageAt c);
          unreadCount = (if countUnread \<and> \<not> msg_fromMe m \<and> chat_unreadCount c < -1 then chat_unreadCount c + 1
                         else chat_unreadCount c)
      in NewChat \<lparr>chi_ID = chat_id_value (chat_ID c), chi_ContactID = contact_text c,
           chi_DisplayName = chat_displayName c, chi_IsGroup = (chat_isGroup c \<or> msg_isGroup m),
           chi_LastMessageAt = lastMessageAt, chi_UnreadCount = unreadCount, chi_Muted = chat_muted c,
           chi_Archived = chat_archived c, chi_Placeholder = chat_placeholder c,
           chi_UpdatedAt = chat_updatedAt c, chi_IngestSeq = chat_ingestSeq c\<rparr>)"

definition EnsureChat :: "context_state \<Rightarrow> chat \<Rightarrow> memory \<Rightarrow> memory \<times> store_error option" where
  "EnsureChat ctx c mem =
     (case checkContext ctx of
        Some e \<Rightarrow> (mem, Some e)
      | None \<Rightarrow>
          (case normalizeChat c of
             Inl _ \<Rightarrow> (mem, Some StoreRejected)
           | Inr normalized \<Rightarrow>
               let key = chat_id_value (chat_ID normalized) in
               (case map_of (mem_chats mem) key of
                  Some current \<Rightarrow>
                    if \<not> (chat_placeholder normalized \<and> \<not> chat_placeholder (mc_chat current))
                    then (mem\<lparr>mem_chats := AList.update key (current\<lparr>mc_chat := normalized\<rparr>) (mem_chats mem)\<rparr>, None)
                    else (mem, None)
                | None \<Rightarrow>
                    if len (mem_chats mem) \<ge> mem_maxChats mem then (mem, Some StoreCapacity)
                    else (mem\<lparr>mem_chats := AList.update key (empty_chat normalized) (mem_chats mem)\<rparr>, None))))"

definition MarkChatLocallyRead :: "context_state \<Rightarrow> chat_id \<Rightarrow> instant \<Rightarrow> memory \<Rightarrow> memory \<times> store_error option" where
  "MarkChatLocallyRead ctx cid through mem =
     (case checkContext ctx of
        Some e \<Rightarrow> (mem, Some e)
      | None \<Rightarrow>
          (case NewChatID (chat_id_value cid) of
             Inl _ \<Rightarrow> (mem, Some StoreRejected)
           | Inr validated \<Rightarrow>
               (case map_of (mem_chats mem) (chat_id_value validated) of
                  None \<Rightarrow> (mem, Some StoreRejected)
                | Some current \<Rightarrow>
                    if chat_lastMessageAt (mc_chat current) > through then (mem, None)
                    else
                      (case rebuildChatUnread (mc_chat current) 0 of
                         Inl _ \<Rightarrow>
                           (mem\<lparr>mem_chats := AList.update (chat_id_value validated) (current\<lparr>mc_chat := zero_chat\<rparr>) (mem_chats mem)\<rparr>,
                            Some StoreRejected)
                       | Inr rebuilt \<Rightarrow>
                           (mem\<lparr>mem_chats := AList.update (chat_id_value validated) (current\<lparr>mc_chat := rebuilt\<rparr>) (mem_chats mem)\<rparr>,
                            None)))))"

fun displayFor :: "display_metadata list \<Rightarrow> chat_id \<Rightarrow> display_metadata" where
  "displayFor [] cid = zero_display"
| "displayFor (d # ds) cid = (if dm_id d = cid then d else displayFor ds cid)"

fun display_index :: "nat \<Rightarrow> display_metadata list \<Rightarrow> chat_id \<Rightarrow> nat option" where
  "display_index i [] cid = None"
| "display_index i (d # ds) cid = (if dm_id d = cid then Some i else display_index (i + 1) ds cid)"

definition or_zero_display :: "'e + display_metadata \<Rightarrow> display_metadata" where
  "or_zero_display r = (case r of Inl _ \<Rightarrow> zero_display | Inr d \<Rightarrow> d)"

definition ApplyDisplayMetadata ::
  "context_state \<Rightarrow> display_metadata \<Rightarrow> memory \<Rightarrow> memory \<times> (store_error + display_metadata)" where
  "ApplyDisplayMetadata ctx metadata mem =
     (case checkContext ctx of
        Some e \<Rightarrow> (mem, Inl e)
      | None \<Rightarrow>
          (case NewDisplayMetadata (chat_id_value (dm_id metadata)) (dm_name metadata) (dm_quality metadata) (dm_group metadata) of
             Inl _ \<Rightarrow> (mem, Inl StoreRejected)
           | Inr owned0 \<Rightarrow>
               let (index, mem1) =
                     (case display_index 0 (mem_display mem) (dm_id owned0) of
                        Some index \<Rightarrow> (index, mem)
                      | None \<Rightarrow>
                          (mem_displayNext mem,
                           mem\<lparr>mem_displayNext := (mem_displayNext mem + 1) mod length (mem_display mem),
                             mem_display := (mem_display mem)[mem_displayNext mem := zero_display]\<rparr>));
                   owned1 = display_Merge (mem_display mem1 ! index) owned0;
                   (owned2, mem2) =
                     (case map_of (mem_chats mem1) (chat_id_value (dm_id owned1)) of
                        None \<Rightarrow> (owned1, mem1)
                      | Some current \<Rightarrow>
                          let owned = (if dm_quality owned1 < mc_displayQuality current
                                then or_zero_display (NewDisplayMetadata (chat_id_value (dm_id owned1))
                                       (chat_displayName (mc_chat current)) (mc_displayQuality current)
                                       (chat_isGroup (mc_chat current) \<or> dm_group owned1))
                                else owned1);
                              changed = current\<lparr>mc_chat := WithDisplayMetadata (mc_chat current) owned,
                                mc_displayQuality := (if dm_name owned \<noteq> [] then dm_quality owned else mc_displayQuality current)\<rparr>
                          in (owned, mem1\<lparr>mem_chats := AList.update (chat_id_value (dm_id owned1)) changed (mem_chats mem1)\<rparr>))
               in (mem2\<lparr>mem_display := (mem_display mem2)[index := owned2]\<rparr>, Inr owned2)))"

section \<open>Writing a batch\<close>

text \<open>The enrichment of a message that is already stored, or that the same batch wrote before.\<close>

definition merge_media :: "media \<Rightarrow> media \<Rightarrow> media" where
  "merge_media prior md =
     (let name = (if media_name md = [] then media_name prior else media_name md);
          mimeType = (if media_mimeType md = [] then media_mimeType prior else media_mimeType md);
          built = (case media_Download md of
              Some d \<Rightarrow> NewDownloadableMedia (media_kind prior) name mimeType (media_directPath d) (media_mediaKey d)
                (media_fileSHA256 d) (media_fileEncSHA256 d) (media_declaredBytes d)
            | None \<Rightarrow>
                (case media_Download prior of
                   Some d \<Rightarrow> NewDownloadableMedia (media_kind prior) name mimeType (media_directPath d) (media_mediaKey d)
                     (media_fileSHA256 d) (media_fileEncSHA256 d) (media_declaredBytes d)
                 | None \<Rightarrow> NewMedia (media_kind prior) name mimeType))
      in case built of Inl _ \<Rightarrow> zero_media | Inr merged \<Rightarrow> merged)"

definition merge_duplicate :: "message \<Rightarrow> message \<Rightarrow> message" where
  "merge_duplicate prior m0 =
     (let m1 = message_WithNotificationEligibility m0 (msg_notificationEligible prior);
          m2 = (if msg_bodyRetained prior \<and> \<not> msg_bodyRetained m1 then prior else m1);
          m3 = (if msg_quote prior \<noteq> zero_quote then message_WithQuote m2 (msg_quote prior) else m2);
          priorMedia = msg_media prior; md = msg_media m3;
          m4 = (if media_kind priorMedia \<noteq> 0
                then if media_kind md \<noteq> media_kind priorMedia then message_WithMedia m3 priorMedia
                     else message_WithMedia m3 (merge_media priorMedia md)
                else m3);
          sender = (if contact_id_value (msg_senderID prior) \<noteq> [] then msg_senderID prior else msg_senderID m4)
      in message_WithSender m4 sender (msg_isGroup m4 \<or> msg_isGroup prior))"

record staging =
  stg_newChats :: "string list"
  stg_newIDs :: "(string, string list) gomap"
  stg_staged :: "(string, (string, message) gomap) gomap"
  stg_inserted :: "bool list"

definition or_empty :: "'a list option \<Rightarrow> 'a list" where
  "or_empty r = (case r of None \<Rightarrow> [] | Some xs \<Rightarrow> xs)"

definition find_prior :: "memory \<Rightarrow> staging \<Rightarrow> string \<Rightarrow> string \<Rightarrow> message option" where
  "find_prior mem st chatKey messageKey =
     (case map_of (or_empty (map_of (stg_staged st) chatKey)) messageKey of
        Some prior \<Rightarrow> Some prior
      | None \<Rightarrow>
          (case map_of (mem_chats mem) chatKey of
             None \<Rightarrow> None
           | Some current \<Rightarrow> map_of (mc_messages current) messageKey))"

definition stage_message :: "memory \<Rightarrow> staging \<Rightarrow> message \<Rightarrow> store_error + staging" where
  "stage_message mem st m =
     (let chatKey = chat_key m; messageKey = message_key m;
          st1 = (if map_of (mem_chats mem) chatKey = None
                 then st\<lparr>stg_newChats := List.insert chatKey (stg_newChats st)\<rparr> else st);
          put = (\<lambda>st m. st\<lparr>stg_staged := AList.update chatKey
            (AList.update messageKey m (or_empty (map_of (stg_staged st) chatKey))) (stg_staged st)\<rparr>)
      in case find_prior mem st chatKey messageKey of
        Some prior \<Rightarrow>
          if msg_sentAt prior \<noteq> msg_sentAt m \<or> msg_fromMe prior \<noteq> msg_fromMe m then Inl StoreRejected
          else Inr ((put st1 (merge_duplicate prior m))\<lparr>stg_inserted := stg_inserted st1 @ [False]\<rparr>)
      | None \<Rightarrow>
          Inr ((put st1 m)\<lparr>stg_inserted := stg_inserted st1 @ [True],
            stg_newIDs := AList.update chatKey
              (List.insert messageKey (or_empty (map_of (stg_newIDs st1) chatKey))) (stg_newIDs st1)\<rparr>))"

fun stage_all :: "memory \<Rightarrow> staging \<Rightarrow> message list \<Rightarrow> store_error + staging" where
  "stage_all mem st [] = Inr st"
| "stage_all mem st (m # ms) = on_ok (stage_message mem st m) (\<lambda>st'. stage_all mem st' ms)"

definition message_count :: "memory \<Rightarrow> string \<Rightarrow> int" where
  "message_count mem chatKey = (case map_of (mem_chats mem) chatKey of None \<Rightarrow> 0 | Some current \<Rightarrow> len (mc_messages current))"

definition over_capacity :: "memory \<Rightarrow> staging \<Rightarrow> bool" where
  "over_capacity mem st \<longleftrightarrow> len (mem_chats mem) + len (stg_newChats st) > mem_maxChats mem
     \<or> (\<exists>(chatKey, ids) \<in> set (stg_newIDs st). message_count mem chatKey + len ids > MaxRetentionSnapshotSummaries)"

definition staged_chat :: "memory \<Rightarrow> (string, chat) gomap \<Rightarrow> string \<Rightarrow> store_error + chat" where
  "staged_chat mem stagedChats chatKey =
     (case map_of stagedChats chatKey of
        Some c \<Rightarrow> Inr c
      | None \<Rightarrow>
          (case map_of (mem_chats mem) chatKey of
             Some current \<Rightarrow> Inr (mc_chat current)
           | None \<Rightarrow> or_rejected (NewChat \<lparr>chi_ID = chatKey, chi_ContactID = [], chi_DisplayName = [], chi_IsGroup = False,
               chi_LastMessageAt = 0, chi_UnreadCount = 0, chi_Muted = False, chi_Archived = False,
               chi_Placeholder = True, chi_UpdatedAt = 0, chi_IngestSeq = 0\<rparr>)))"

text \<open>The second loop: chats advance once per inserted message, in batch order, and live events are built.\<close>

fun advance_all :: "memory \<Rightarrow> staging \<Rightarrow> bool \<Rightarrow> bool \<Rightarrow> (message \<times> bool) list \<Rightarrow> (string, chat) gomap \<Rightarrow> live_event list
    \<Rightarrow> store_error + (string, chat) gomap \<times> live_event list" where
  "advance_all mem st countUnread emitLive [] stagedChats events = Inr (stagedChats, events)"
| "advance_all mem st countUnread emitLive ((m, inserted) # rest) stagedChats events =
     (if \<not> inserted then advance_all mem st countUnread emitLive rest stagedChats events
      else
        on_ok (staged_chat mem stagedChats (chat_key m)) (\<lambda>c.
        on_ok (or_rejected (advanceChatForMessage (WithDisplayMetadata c (displayFor (mem_display mem) (msg_chatID m))) m countUnread)) (\<lambda>c.
        let stagedChats' = AList.update (chat_key m) c stagedChats in
        if emitLive
        then
          on_ok (case map_of (or_empty (map_of (stg_staged st) (chat_key m))) (message_key m) of
              None \<Rightarrow> Inl StoreRejected
            | Some committed \<Rightarrow> or_rejected (NewLiveMessageCommitted committed (chat_unreadCount c) (chat_lastMessageAt c)))
            (\<lambda>event. advance_all mem st countUnread emitLive rest stagedChats' (events @ [event]))
        else advance_all mem st countUnread emitLive rest stagedChats' events)))"

text \<open>The writes after the last check.\<close>

definition commit_chat :: "memory \<Rightarrow> string \<times> chat \<Rightarrow> (string, memory_chat) gomap \<Rightarrow> (string, memory_chat) gomap" where
  "commit_chat mem kc chats =
     (case map_of chats (fst kc) of
        None \<Rightarrow> chats
      | Some current \<Rightarrow>
          let quality = dm_quality (displayFor (mem_display mem) (chat_ID (snd kc))) in
          AList.update (fst kc) (current\<lparr>mc_chat := snd kc,
            mc_displayQuality := (if quality > mc_displayQuality current then quality else mc_displayQuality current)\<rparr>) chats)"

definition commit_messages :: "string \<times> (string, message) gomap \<Rightarrow> (string, memory_chat) gomap \<Rightarrow> (string, memory_chat) gomap" where
  "commit_messages km chats =
     (case map_of chats (fst km) of
        None \<Rightarrow> chats
      | Some current \<Rightarrow>
          AList.update (fst km) (current\<lparr>mc_messages :=
            fold (\<lambda>(mid, m). AList.update mid (message_WithNotificationEligibility m False)) (snd km) (mc_messages current)\<rparr>) chats)"

definition commit_all :: "memory \<Rightarrow> staging \<Rightarrow> (string, chat) gomap \<Rightarrow> memory" where
  "commit_all mem st stagedChats =
     mem\<lparr>mem_chats :=
       fold commit_messages (stg_staged st)
        (fold (commit_chat mem) stagedChats
          (fold (\<lambda>k. AList.update k (empty_chat zero_chat)) (stg_newChats st) (mem_chats mem)))\<rparr>"

definition empty_staging :: staging where
  "empty_staging = \<lparr>stg_newChats = [], stg_newIDs = [], stg_staged = [], stg_inserted = []\<rparr>"

definition store_writeBatch :: "context_state \<Rightarrow> write_batch \<Rightarrow> bool \<Rightarrow> memory \<Rightarrow> memory \<times> (store_error + live_event list)" where
  "store_writeBatch ctx batch emitLive mem =
     (case checkContext ctx of
        Some e \<Rightarrow> (mem, Inl e)
      | None \<Rightarrow>
          (case NewWriteBatch (batch_origin batch) (batch_messages batch) of
             Inl _ \<Rightarrow> (mem, Inl StoreRejected)
           | Inr rebuilt \<Rightarrow>
               if batch_messages rebuilt = [] then (mem, or_rejected (NewLiveEventBatch []))
               else
                 (case stage_all mem empty_staging (batch_messages rebuilt) of
                    Inl e \<Rightarrow> (mem, Inl e)
                  | Inr st \<Rightarrow>
                      if over_capacity mem st then (mem, Inl StoreCapacity)
                      else
                        (case advance_all mem st (batch_origin rebuilt = WriteRealtime) emitLive
                             (zip (batch_messages rebuilt) (stg_inserted st)) [] [] of
                           Inl e \<Rightarrow> (mem, Inl e)
                         | Inr (stagedChats, events) \<Rightarrow>
                             (case NewLiveEventBatch events of
                                Inl _ \<Rightarrow> (mem, Inl StoreRejected)
                              | Inr committed \<Rightarrow> (commit_all mem st stagedChats, Inr committed))))))"

definition store_Write :: "context_state \<Rightarrow> write_batch \<Rightarrow> memory \<Rightarrow> memory \<times> store_error option" where
  "store_Write ctx batch mem =
     (case store_writeBatch ctx batch False mem of (mem', Inl e) \<Rightarrow> (mem', Some e) | (mem', Inr _) \<Rightarrow> (mem', None))"

definition store_WriteRealtime :: "context_state \<Rightarrow> write_batch \<Rightarrow> memory \<Rightarrow> memory \<times> (store_error + live_event list)" where
  "store_WriteRealtime ctx batch mem =
     (if batch_origin batch \<noteq> WriteRealtime then (mem, Inl StoreRejected) else store_writeBatch ctx batch True mem)"

section \<open>Reading and pruning\<close>

definition store_newer :: "message \<Rightarrow> message \<Rightarrow> bool" where
  "store_newer left right =
     (if msg_sentAt left = msg_sentAt right then message_key left > message_key right
      else msg_sentAt left > msg_sentAt right)"

definition olderThan :: "message \<Rightarrow> cursor \<Rightarrow> bool" where
  "olderThan m c =
     (if msg_sentAt m = cursor_sentAt c then message_key m < message_id_value (cursor_messageID c)
      else msg_sentAt m < cursor_sentAt c)"

definition validateCursor :: "cursor \<Rightarrow> bool" where
  "validateCursor c \<longleftrightarrow> cursor_IsZero c \<or> is_ok (NewCursor (cursor_sentAt c) (cursor_messageID c))"

definition store_Page :: "context_state \<Rightarrow> chat_id \<Rightarrow> cursor \<Rightarrow> int \<Rightarrow> memory \<Rightarrow> store_error + message list \<times> cursor" where
  "store_Page ctx cid cur limit mem =
     (case checkContext ctx of
        Some e \<Rightarrow> Inl e
      | None \<Rightarrow>
          (case NewChatID (chat_id_value cid) of
             Inl _ \<Rightarrow> Inl StoreRejected
           | Inr ownedID \<Rightarrow>
               if \<not> validateCursor cur \<or> limit \<le> 0 then Inl StoreRejected
               else
                 let limit = (if limit > maxPageMessages then maxPageMessages else limit) in
                 (case map_of (mem_chats mem) (chat_id_value ownedID) of
                    None \<Rightarrow> Inr ([], NoCursor)
                  | Some current \<Rightarrow>
                      let ordered = sort_slice store_newer
                            (filter (\<lambda>m. cursor_IsZero cur \<or> olderThan m cur) (map snd (mc_messages current)));
                          more = len ordered > limit;
                          page = (if len ordered > limit then take (nat limit) ordered else ordered);
                          nextCursor = (if more \<and> page \<noteq> []
                            then (case NewCursor (msg_sentAt (last page)) (msg_messageID (last page)) of
                                Inr c \<Rightarrow> c | Inl _ \<Rightarrow> \<lparr>cursor_sentAt = 0, cursor_messageID = MessageID []\<rparr>)
                            else NoCursor)
                      in Inr (page, nextCursor))))"

definition store_RetentionSnapshot :: "context_state \<Rightarrow> chat_id \<Rightarrow> memory \<Rightarrow> (store_error + model_error) + snapshot" where
  "store_RetentionSnapshot ctx cid mem =
     (case checkContext ctx of
        Some e \<Rightarrow> Inl (Inl e)
      | None \<Rightarrow>
          (case NewChatID (chat_id_value cid) of
             Inl _ \<Rightarrow> Inl (Inl StoreRejected)
           | Inr ownedID \<Rightarrow>
               let result = (case map_of (mem_chats mem) (chat_id_value ownedID) of
                   None \<Rightarrow> NewRetentionSnapshot ownedID [] None
                 | Some current \<Rightarrow>
                     NewRetentionSnapshot ownedID
                       (map NewMessageSummary (sort_slice store_newer (map snd (mc_messages current))))
                       (if mc_hasAnchor current then Some (mc_anchor current) else None))
               in (case result of Inl e \<Rightarrow> Inl (Inr e) | Inr p \<Rightarrow> Inr p)))"

definition sameAnchor :: "anchor \<Rightarrow> anchor \<Rightarrow> bool" where
  "sameAnchor a b \<longleftrightarrow> chat_id_value (anchor_chatID a) = chat_id_value (anchor_chatID b)
     \<and> message_id_value (anchor_messageID a) = message_id_value (anchor_messageID b)
     \<and> anchor_sentAt a = anchor_sentAt b \<and> anchor_fromMe a = anchor_fromMe b"

fun delete_loop :: "message_id list \<Rightarrow> string list \<Rightarrow> (string, message) gomap \<Rightarrow> int \<Rightarrow> int
    \<Rightarrow> (string, message) gomap \<times> int \<times> int" where
  "delete_loop [] seen messages deleted bodies = (messages, deleted, bodies)"
| "delete_loop (i # ids) seen messages deleted bodies =
     (let key = message_id_value i in
      if key \<in> set seen then delete_loop ids seen messages deleted bodies
      else case map_of messages key of
        None \<Rightarrow> delete_loop ids (key # seen) messages deleted bodies
      | Some m \<Rightarrow>
          delete_loop ids (key # seen) (AList.delete key messages) (deleted + 1)
            (if msg_bodyRetained m then bodies + 1 else bodies))"

definition store_ApplyPrune :: "context_state \<Rightarrow> prune_plan \<Rightarrow> memory \<Rightarrow> memory \<times> ((store_error + model_error) + prune_result)" where
  "store_ApplyPrune ctx plan mem =
     (case checkContext ctx of
        Some e \<Rightarrow> (mem, Inl (Inl e))
      | None \<Rightarrow>
          (case NewPrunePlan (plan_chatID plan) (plan_deleteIDs plan)
               (if plan_hasReplacement plan then Some (plan_replacement plan) else None) of
             Inl _ \<Rightarrow> (mem, Inl (Inl StoreRejected))
           | Inr rebuilt \<Rightarrow>
               let key = chat_id_value (plan_chatID rebuilt);
                   wrap = (\<lambda>r. case r of Inl e \<Rightarrow> Inl (Inr e) | Inr p \<Rightarrow> Inr p) in
               (case map_of (mem_chats mem) key of
                  None \<Rightarrow> (mem, wrap (NewPruneResult 0 0 False))
                | Some current \<Rightarrow>
                    let (messages, deleted, bodies) = delete_loop (plan_deleteIDs rebuilt) [] (mc_messages current) 0 0;
                        changed = (plan_hasReplacement rebuilt
                          \<and> (\<not> mc_hasAnchor current \<or> \<not> sameAnchor (mc_anchor current) (plan_replacement rebuilt)));
                        current1 = current\<lparr>mc_messages := messages\<rparr>;
                        current2 = (if plan_hasReplacement rebuilt
                          then current1\<lparr>mc_anchor := plan_replacement rebuilt, mc_hasAnchor := True\<rparr> else current1)
                    in (mem\<lparr>mem_chats := AList.update key current2 (mem_chats mem)\<rparr>,
                        wrap (NewPruneResult deleted bodies changed)))))"

definition addSaturated :: "int \<Rightarrow> int \<Rightarrow> int" where
  "addSaturated left right = (if right < 0 \<or> left > max_int - right then max_int else left + right)"

definition chat_bytes :: "chat \<Rightarrow> int" where
  "chat_bytes c = chatEnvelopeBytes + len (chat_id_value (chat_ID c)) + len (chat_displayName c)"

definition anchor_bytes :: "anchor \<Rightarrow> int" where
  "anchor_bytes a = anchorEnvelopeBytes + len (chat_id_value (anchor_chatID a)) + len (message_id_value (anchor_messageID a))"

definition usage_display :: "display_metadata list \<Rightarrow> int" where
  "usage_display ds = foldl (\<lambda>n d. if chat_id_value (dm_id d) \<noteq> [] then addSaturated n (32 + display_ByteSize d) else n) 0 ds"

definition usage_message :: "int \<times> int \<times> int \<Rightarrow> message \<Rightarrow> int \<times> int \<times> int" where
  "usage_message acc m =
     (case acc of (bytes, messages, bodies) \<Rightarrow>
        (addSaturated bytes (storeMessageEnvelopeBytes + msg_byteSize m), messages + 1,
         if msg_bodyRetained m then bodies + 1 else bodies))"

definition usage_chat :: "int \<times> int \<times> int \<times> int \<Rightarrow> memory_chat \<Rightarrow> int \<times> int \<times> int \<times> int" where
  "usage_chat acc c =
     (case acc of (bytes, messages, bodies, anchors) \<Rightarrow>
        let (bytes, messages, bodies) = foldl usage_message (addSaturated bytes (chat_bytes (mc_chat c)), messages, bodies)
              (map snd (mc_messages c))
        in if mc_hasAnchor c then (addSaturated bytes (anchor_bytes (mc_anchor c)), messages, bodies, anchors + 1)
           else (bytes, messages, bodies, anchors))"

definition store_Usage :: "context_state \<Rightarrow> memory \<Rightarrow> (store_error + model_error) + cache_usage" where
  "store_Usage ctx mem =
     (case checkContext ctx of
        Some e \<Rightarrow> Inl (Inl e)
      | None \<Rightarrow>
          let (bytes, messages, bodies, anchors) =
                foldl usage_chat (usage_display (mem_display mem), 0, 0, 0) (map snd (mem_chats mem))
          in (case NewCacheUsage bytes (len (mem_chats mem)) messages bodies anchors of
                Inl e \<Rightarrow> Inl (Inr e) | Inr u \<Rightarrow> Inr u))"

definition boundedChatListLimit :: "int \<Rightarrow> int" where
  "boundedChatListLimit limit = (if limit \<le> 0 \<or> limit > MaxChatSummaries then MaxChatSummaries else limit)"

definition chat_listed_before :: "chat \<Rightarrow> chat \<Rightarrow> bool" where
  "chat_listed_before c d =
     (if chat_lastMessageAt c = chat_lastMessageAt d then chat_id_value (chat_ID c) < chat_id_value (chat_ID d)
      else chat_lastMessageAt c > chat_lastMessageAt d)"

definition store_ListChats :: "context_state \<Rightarrow> int \<Rightarrow> memory \<Rightarrow> store_error + chat list" where
  "store_ListChats ctx limit mem =
     (case checkContext ctx of
        Some e \<Rightarrow> Inl e
      | None \<Rightarrow>
          let limit = boundedChatListLimit limit;
              result = sort_slice chat_listed_before (map (\<lambda>kc. mc_chat (snd kc)) (mem_chats mem))
          in Inr (if len result > limit then take (nat limit) result else result))"

end
