(* ===== verification/StoreFacts.thy ===== *)
theory StoreFacts
  imports MemoryStore
begin

text \<open>
  What the in-memory store keeps true: its invariant and the proof that every operation preserves it, the effect of
  each operation on the stored messages, and the reads as functions of the stored messages that do not depend
  on the order a Go map is walked in.
\<close>

section \<open>The invariant\<close>

definition wf_stored :: "string \<Rightarrow> string \<times> message \<Rightarrow> bool" where
  "wf_stored chatKey km \<longleftrightarrow> wf_message (snd km) \<and> message_key (snd km) = fst km \<and> chat_key (snd km) = chatKey
     \<and> \<not> msg_notificationEligible (snd km)"

definition wf_memory_chat :: "string \<Rightarrow> memory_chat \<Rightarrow> bool" where
  "wf_memory_chat k c \<longleftrightarrow> wf_chat (mc_chat c) \<and> chat_id_value (chat_ID (mc_chat c)) = k
     \<and> distinct (map fst (mc_messages c)) \<and> len (mc_messages c) \<le> MaxRetentionSnapshotSummaries
     \<and> (\<forall>km \<in> set (mc_messages c). wf_stored k km)
     \<and> (mc_hasAnchor c \<longrightarrow> wf_anchor (mc_anchor c) \<and> chat_id_value (anchor_chatID (mc_anchor c)) = k)"

definition wf_display_slot :: "display_metadata \<Rightarrow> bool" where
  "wf_display_slot d \<longleftrightarrow> d = zero_display \<or> wf_display d"

definition wf_memory :: "memory \<Rightarrow> bool" where
  "wf_memory mem \<longleftrightarrow> 0 < mem_maxChats mem \<and> len (mem_chats mem) \<le> mem_maxChats mem
     \<and> distinct (map fst (mem_chats mem))
     \<and> (\<forall>kc \<in> set (mem_chats mem). wf_memory_chat (fst kc) (snd kc))
     \<and> len (mem_display mem) = DisplayMetadataCapacity \<and> mem_displayNext mem < length (mem_display mem)
     \<and> (\<forall>d \<in> set (mem_display mem). wf_display_slot d)"

text \<open>Go maps: what an update or a deletion does to the length.\<close>

lemma length_update_new: "map_of al k = None \<Longrightarrow> length (AList.update k v al) = Suc (length al)"
  by (induction al) (auto split: if_splits)

lemma length_update_old: "map_of al k \<noteq> None \<Longrightarrow> length (AList.update k v al) = length al"
  by (induction al) (auto split: if_splits)

lemma set_update: "distinct (map fst al) \<Longrightarrow> p \<in> set (AList.update k v al) \<longleftrightarrow> p = (k, v) \<or> fst p \<noteq> k \<and> p \<in> set al"
  by (induction al) (auto simp: image_iff)

lemma map_of_SomeD': "map_of al k = Some v \<Longrightarrow> (k, v) \<in> set al"
  by (rule map_of_SomeD)

lemma chat_of: "wf_memory mem \<Longrightarrow> map_of (mem_chats mem) k = Some c \<Longrightarrow> wf_memory_chat k c"
  using map_of_SomeD [of "mem_chats mem" k c] by (fastforce simp: wf_memory_def)

text \<open>Storing a well-formed chat under its key: the number of chats grows only when the key is new.\<close>

lemma wf_memory_put:
  assumes "wf_memory mem" "wf_memory_chat k c"
    "map_of (mem_chats mem) k \<noteq> None \<or> len (mem_chats mem) < mem_maxChats mem"
  shows "wf_memory (mem\<lparr>mem_chats := AList.update k c (mem_chats mem)\<rparr>)"
proof -
  have "len (AList.update k c (mem_chats mem)) \<le> mem_maxChats mem"
    using assms(1,3) by (cases "map_of (mem_chats mem) k") (auto simp: length_update_new length_update_old wf_memory_def)
  then show ?thesis
    using assms(1,2) by (auto simp: wf_memory_def set_update distinct_update)
qed

lemma map_of_put [simp]: "map_of (mem_chats (mem\<lparr>mem_chats := AList.update k c (mem_chats mem)\<rparr>)) = (map_of (mem_chats mem))(k \<mapsto> c)"
  by (simp add: update_conv')

lemma NewMemory_wf: "NewMemory n = Inr mem \<Longrightarrow> wf_memory mem \<and> mem_chats mem = []"
  by (auto simp: NewMemory_def wf_memory_def DisplayMetadataCapacity_def wf_display_slot_def split: if_splits)

section \<open>Chats\<close>

lemma NewChat_ID: "NewChat i = Inr c \<Longrightarrow> chat_id_value (chat_ID c) = chi_ID i"
  by (cases "normalizeBoundedUTF8 (chi_DisplayName i) MaxChatDisplayNameBytes") (auto simp: NewChat_def)

lemma normalizeChat_wf: "normalizeChat c = Inr d \<Longrightarrow> wf_chat d \<and> chat_ID d = chat_ID c"
  unfolding normalizeChat_def using NewChat_wf NewChat_ID by (fastforce simp flip: chat_id_eq_iff)

lemma contact_text_valid: "wf_chat c \<Longrightarrow> valid_sender (ContactID (contact_text c))"
  by (auto simp: wf_chat_def contact_text_def valid_sender_def)

text \<open>Rebuilding a well-formed chat from its own fields changes nothing but what was replaced.\<close>

lemma NewChat_rebuild:
  assumes "wf_chat c" "chi_ID i = chat_id_value (chat_ID c)" "chi_ContactID i = contact_text c"
    "chi_DisplayName i = chat_displayName c" "chi_IngestSeq i = chat_ingestSeq c"
  shows "NewChat i = Inr \<lparr>chat_ID = chat_ID c, chat_contactID = chat_contactID c, chat_hasContact = chat_hasContact c,
    chat_displayName = chat_displayName c, chat_nameTruncated = False, chat_isGroup = chi_IsGroup i,
    chat_lastMessageAt = chi_LastMessageAt i, chat_unreadCount = chi_UnreadCount i, chat_muted = chi_Muted i,
    chat_archived = chi_Archived i, chat_placeholder = chi_Placeholder i, chat_updatedAt = chi_UpdatedAt i,
    chat_ingestSeq = chat_ingestSeq c\<rparr>"
proof -
  obtain k where k: "chat_contactID c = ContactID k" by (cases "chat_contactID c")
  have name: "normalizeBoundedUTF8 (chat_displayName c) MaxChatDisplayNameBytes = (chat_displayName c, False)"
    using assms(1) by (intro normalizeBoundedUTF8_id) (auto simp: wf_chat_def)
  show ?thesis
    using assms k name
    by (cases "k = []") (auto simp: NewChat_def wf_chat_def contact_text_def valid_sender_def new_id_ok chat_id.expand)
qed

lemma normalizeChat_id: "wf_chat c \<Longrightarrow> normalizeChat c = Inr (c\<lparr>chat_nameTruncated := False\<rparr>)"
  by (simp add: normalizeChat_def NewChat_rebuild)

lemma rebuildChatUnread_eq:
  "wf_chat c \<Longrightarrow> rebuildChatUnread c u = Inr (c\<lparr>chat_nameTruncated := False, chat_unreadCount := u\<rparr>)"
  by (simp add: rebuildChatUnread_def NewChat_rebuild)

definition advanced_unread :: "bool \<Rightarrow> message \<Rightarrow> 32 word \<Rightarrow> 32 word" where
  "advanced_unread countUnread m u = (if countUnread \<and> \<not> msg_fromMe m \<and> u < -1 then u + 1 else u)"

definition advanced_activity :: "message \<Rightarrow> instant \<Rightarrow> instant" where
  "advanced_activity m t = (if t = 0 \<or> t < msg_sentAt m then msg_sentAt m else t)"

definition advanced_chat :: "bool \<Rightarrow> message \<Rightarrow> chat \<Rightarrow> chat" where
  "advanced_chat countUnread m c =
     c\<lparr>chat_nameTruncated := False, chat_isGroup := chat_isGroup c \<or> msg_isGroup m,
       chat_lastMessageAt := advanced_activity m (chat_lastMessageAt c),
       chat_unreadCount := advanced_unread countUnread m (chat_unreadCount c)\<rparr>"

lemma advanceChat_eq: "wf_chat c \<Longrightarrow> advanceChatForMessage c m b = Inr (advanced_chat b m c)"
  by (simp add: advanceChatForMessage_def NewChat_rebuild Let_def advanced_chat_def advanced_activity_def
      advanced_unread_def)

lemma advanced_chat_wf: "wf_chat c \<Longrightarrow> wf_chat (advanced_chat b m c)"
  by (simp add: advanced_chat_def wf_chat_def)

lemma advanced_chat_simps [simp]:
  "chat_ID (advanced_chat b m c) = chat_ID c" "chat_lastMessageAt (advanced_chat b m c) = advanced_activity m (chat_lastMessageAt c)"
  "chat_unreadCount (advanced_chat b m c) = advanced_unread b m (chat_unreadCount c)"
  by (simp_all add: advanced_chat_def)

lemma advanced_activity_bounds: "msg_sentAt m \<noteq> 0 \<Longrightarrow> msg_sentAt m \<le> advanced_activity m t \<and> (advanced_activity m t \<noteq> 0 \<or> t \<noteq> 0)"
  by (simp add: advanced_activity_def)

text \<open>Unread counters stop at the largest \<open>uint32\<close> and never wrap.\<close>

lemma advanced_unread_le: "u \<le> advanced_unread b m u"
proof (cases "u < -1")
  case True
  then have "u < u + 1" using inc_less_eq_self_iff_eq [of u] by auto
  then have "u \<le> u + 1" by (rule less_imp_le)
  then show ?thesis by (simp add: advanced_unread_def)
qed (simp add: advanced_unread_def)

section \<open>EnsureChat and MarkChatLocallyRead\<close>

lemma wf_memory_chat_chat: "wf_memory_chat k c \<Longrightarrow> wf_chat d \<Longrightarrow> chat_id_value (chat_ID d) = k \<Longrightarrow> wf_memory_chat k (c\<lparr>mc_chat := d\<rparr>)"
  by (simp add: wf_memory_chat_def)

lemma empty_chat_wf: "wf_chat c \<Longrightarrow> wf_memory_chat (chat_id_value (chat_ID c)) (empty_chat c)"
  by (simp add: wf_memory_chat_def empty_chat_def MaxRetentionSnapshotSummaries_def)

lemma EnsureChat_wf:
  assumes wf: "wf_memory mem" shows "wf_memory (fst (EnsureChat ctx c mem))"
proof (cases "checkContext ctx")
  case None
  show ?thesis
  proof (cases "normalizeChat c")
    case (Inr d)
    note d = normalizeChat_wf [OF Inr]
    show ?thesis
    proof (cases "map_of (mem_chats mem) (chat_id_value (chat_ID d))")
      case none: None
      have "wf_memory_chat (chat_id_value (chat_ID d)) (empty_chat d)" using empty_chat_wf d by blast
      from wf_memory_put [OF wf this] show ?thesis using wf none None Inr by (auto simp: EnsureChat_def Let_def)
    next
      case (Some current)
      have "wf_memory_chat (chat_id_value (chat_ID d)) (current\<lparr>mc_chat := d\<rparr>)"
        using wf_memory_chat_chat [OF chat_of [OF wf Some]] d by simp
      then show ?thesis using wf None Inr Some wf_memory_put [OF wf] by (auto simp: EnsureChat_def Let_def)
    qed
  qed (simp add: EnsureChat_def None wf)
qed (simp add: EnsureChat_def wf)

lemma MarkChatLocallyRead_wf:
  assumes wf: "wf_memory mem" shows "wf_memory (fst (MarkChatLocallyRead ctx cid t mem))"
proof (cases "checkContext ctx = None \<and> valid_identifier (chat_id_value cid)")
  case True
  then have ctx: "checkContext ctx = None" and vid: "valid_identifier (chat_id_value cid)" by simp_all
  show ?thesis
  proof (cases "map_of (mem_chats mem) (chat_id_value cid)")
    case None
    then show ?thesis using ctx vid wf by (simp add: MarkChatLocallyRead_def new_id_ok)
  next
    case (Some current)
    note wc = chat_of [OF wf Some]
    have "wf_chat (mc_chat current)" using wc by (simp add: wf_memory_chat_def)
    moreover from this have "wf_memory_chat (chat_id_value cid) (current\<lparr>mc_chat := (mc_chat current)\<lparr>chat_nameTruncated := False, chat_unreadCount := 0\<rparr>\<rparr>)"
      using wc by (simp add: wf_memory_chat_def wf_chat_def)
    ultimately show ?thesis
      using ctx vid wf Some wf_memory_put [OF wf] by (simp add: MarkChatLocallyRead_def rebuildChatUnread_eq new_id_ok)
  qed
next
  case False
  have "\<exists>e. NewChatID (chat_id_value cid) = Inl e" if "\<not> valid_identifier (chat_id_value cid)"
    using chat_ids.make_fails [OF that] .
  then show ?thesis
    using False wf by (auto simp: MarkChatLocallyRead_def split: option.split)
qed

section \<open>Stored messages\<close>

text \<open>The messages of a store as a map from chat and message identifiers.\<close>

type_synonym message_view = "string \<Rightarrow> string \<Rightarrow> message option"

definition view :: "memory \<Rightarrow> message_view" where
  "view mem ck = (case map_of (mem_chats mem) ck of None \<Rightarrow> (\<lambda>_. None) | Some c \<Rightarrow> map_of (mc_messages c))"

lemma view_wf: "wf_memory mem \<Longrightarrow> view mem ck mk = Some m \<Longrightarrow>
    wf_message m \<and> message_key m = mk \<and> chat_key m = ck \<and> \<not> msg_notificationEligible m"
  using chat_of [of mem ck] map_of_SomeD
  by (fastforce simp: view_def wf_memory_chat_def wf_stored_def split: option.splits)

section \<open>Merging a duplicate\<close>

definition same_place :: "message \<Rightarrow> message \<Rightarrow> bool" where
  "same_place m n \<longleftrightarrow> msg_chatID m = msg_chatID n \<and> msg_messageID m = msg_messageID n \<and> msg_sentAt m = msg_sentAt n
     \<and> msg_fromMe m = msg_fromMe n"

lemma same_place_refl [simp]: "same_place m m"
  by (simp add: same_place_def)

lemma same_place_updates [simp]:
  "same_place (message_WithQuote m q) n = same_place m n" "same_place (message_WithSender m s g) n = same_place m n"
  "same_place (message_WithMedia m md) n = same_place m n"
  "same_place (message_WithNotificationEligibility m b) n = same_place m n"
  by (simp_all add: same_place_def message_WithQuote_def message_WithSender_def message_WithMedia_def
      message_WithNotificationEligibility_def split: sum.split)

lemma zero_media_valid: "validateMedia zero_media = None"
  by (simp add: validateMedia_def)

lemma built_media_valid:
  "(\<And>m. r = Inr m \<Longrightarrow> validateMedia m = None) \<Longrightarrow> validateMedia (case r of Inl e \<Rightarrow> zero_media | Inr m \<Rightarrow> m) = None"
  by (cases r) (simp_all add: zero_media_valid)

lemma merge_media_valid: "validateMedia (merge_media prior md) = None"
  unfolding merge_media_def Let_def
proof (rule built_media_valid, goal_cases)
  case (1 m)
  then show ?case
    by (cases "media_Download md"; cases "media_Download prior") (auto dest: NewDownloadableMedia_valid NewMedia_valid)
qed

lemma wf_sender: "wf_message m \<Longrightarrow> valid_sender (msg_senderID m)" "wf_message m \<Longrightarrow> owned_quote (msg_quote m)"
  by (simp_all add: wf_message_def message_parts_ok_def)

lemma merge_duplicate_wf:
  assumes "wf_message prior" "wf_message m" "same_place prior m"
  shows "wf_message (merge_duplicate prior m)" "same_place (merge_duplicate prior m) m"
proof -
  let ?m1 = "message_WithNotificationEligibility m (msg_notificationEligible prior)"
  define m2 where "m2 = (if msg_bodyRetained prior \<and> \<not> msg_bodyRetained ?m1 then prior else ?m1)"
  define m3 where "m3 = (if msg_quote prior \<noteq> zero_quote then message_WithQuote m2 (msg_quote prior) else m2)"
  define m4 where "m4 = (if media_kind (msg_media prior) \<noteq> 0
    then if media_kind (msg_media m3) \<noteq> media_kind (msg_media prior) then message_WithMedia m3 (msg_media prior)
         else message_WithMedia m3 (merge_media (msg_media prior) (msg_media m3)) else m3)"
  define sender where "sender = (if contact_id_value (msg_senderID prior) \<noteq> [] then msg_senderID prior else msg_senderID m4)"
  have eq: "merge_duplicate prior m = message_WithSender m4 sender (msg_isGroup m4 \<or> msg_isGroup prior)"
    by (simp only: merge_duplicate_def Let_def m2_def m3_def m4_def sender_def)
  have "wf_message m2" "same_place m2 m" using assms wf_updates(4) [of m] by (auto simp: m2_def)
  then have "wf_message m3" "same_place m3 m"
    using assms wf_updates(2) [of m2] wf_sender(2) by (auto simp: m3_def)
  then have m4: "wf_message m4" "same_place m4 m" using wf_updates(3) [of m3] by (auto simp: m4_def)
  moreover have "valid_sender sender" using m4 assms wf_sender(1) by (simp add: sender_def)
  ultimately show "wf_message (merge_duplicate prior m)" "same_place (merge_duplicate prior m) m"
    using wf_updates(1) by (simp_all add: eq)
qed

lemma same_place_keys: "same_place m n \<Longrightarrow> chat_key m = chat_key n \<and> message_key m = message_key n \<and> msg_sentAt m = msg_sentAt n"
  by (simp add: same_place_def)

section \<open>Staging\<close>

text \<open>What one message does to the stored messages: an insertion, an enrichment, or a refusal.\<close>

definition put_view :: "message_view \<Rightarrow> message \<Rightarrow> message_view" where
  "put_view V m = V(chat_key m := (V (chat_key m))(message_key m \<mapsto> m))"

definition apply_message :: "message_view \<Rightarrow> message \<Rightarrow> message_view option" where
  "apply_message V m =
     (case V (chat_key m) (message_key m) of
        None \<Rightarrow> Some (put_view V m)
      | Some prior \<Rightarrow>
          if msg_sentAt prior = msg_sentAt m \<and> msg_fromMe prior = msg_fromMe m
          then Some (put_view V (merge_duplicate prior m)) else None)"

fun apply_messages :: "message_view \<Rightarrow> message list \<Rightarrow> message_view option" where
  "apply_messages V [] = Some V"
| "apply_messages V (m # ms) = Option.bind (apply_message V m) (\<lambda>V'. apply_messages V' ms)"

fun inserted_flags :: "message_view \<Rightarrow> message list \<Rightarrow> bool list" where
  "inserted_flags V [] = []"
| "inserted_flags V (m # ms) =
     (V (chat_key m) (message_key m) = None) #
       (case apply_message V m of None \<Rightarrow> [] | Some V' \<Rightarrow> inserted_flags V' ms)"

definition staged_of :: "staging \<Rightarrow> string \<Rightarrow> (string, message) gomap" where
  "staged_of st ck = or_empty (map_of (stg_staged st) ck)"

definition new_ids :: "staging \<Rightarrow> string \<Rightarrow> string list" where
  "new_ids st ck = or_empty (map_of (stg_newIDs st) ck)"

definition sview :: "memory \<Rightarrow> staging \<Rightarrow> message_view" where
  "sview mem st ck = view mem ck ++ map_of (staged_of st ck)"

lemma find_prior_view: "find_prior mem st ck mk = sview mem st ck mk"
  by (auto simp: find_prior_def sview_def staged_of_def view_def map_add_def split: option.split)

lemma sview_empty: "sview mem empty_staging = view mem"
  by (simp add: sview_def staged_of_def empty_staging_def or_empty_def fun_eq_iff)

definition stage_put :: "staging \<Rightarrow> message \<Rightarrow> staging" where
  "stage_put st m = st\<lparr>stg_staged := AList.update (chat_key m) (AList.update (message_key m) m (staged_of st (chat_key m))) (stg_staged st)\<rparr>"

definition note_chat :: "memory \<Rightarrow> message \<Rightarrow> staging \<Rightarrow> staging" where
  "note_chat mem m st = (if map_of (mem_chats mem) (chat_key m) = None
     then st\<lparr>stg_newChats := List.insert (chat_key m) (stg_newChats st)\<rparr> else st)"

definition note_id :: "message \<Rightarrow> staging \<Rightarrow> staging" where
  "note_id m st = st\<lparr>stg_newIDs := AList.update (chat_key m) (List.insert (message_key m) (new_ids st (chat_key m))) (stg_newIDs st)\<rparr>"

definition note_flag :: "bool \<Rightarrow> staging \<Rightarrow> staging" where
  "note_flag b st = st\<lparr>stg_inserted := stg_inserted st @ [b]\<rparr>"

lemma note_chat_simps [simp]:
  "stg_staged (note_chat mem m st) = stg_staged st" "stg_newIDs (note_chat mem m st) = stg_newIDs st"
  "stg_inserted (note_chat mem m st) = stg_inserted st"
  by (simp_all add: note_chat_def)

lemma stage_message_eq:
  assumes "\<And>prior. sview mem st (chat_key m) (message_key m) = Some prior \<Longrightarrow>
    msg_sentAt prior = msg_sentAt m \<and> msg_fromMe prior = msg_fromMe m \<Longrightarrow>
    chat_key (merge_duplicate prior m) = chat_key m \<and> message_key (merge_duplicate prior m) = message_key m"
  shows "stage_message mem st m =
    (case sview mem st (chat_key m) (message_key m) of
       Some prior \<Rightarrow>
         if msg_sentAt prior = msg_sentAt m \<and> msg_fromMe prior = msg_fromMe m
         then Inr (note_flag False (stage_put (note_chat mem m st) (merge_duplicate prior m))) else Inl StoreRejected
     | None \<Rightarrow> Inr (note_flag True (note_id m (stage_put (note_chat mem m st) m))))"
  using assms
  by (auto simp: stage_message_def Let_def find_prior_view stage_put_def note_flag_def note_id_def note_chat_def
      staged_of_def new_ids_def split: option.split)

end
