(* ===== verification/StoreWrite.thy ===== *)
theory StoreWrite
  imports StoreFacts
begin

text \<open>
  A batch write refines the application of its messages to the stored messages, one by one: the staging loop of
  \<open>writeBatch\<close> in \<open>internal/store/memory.go\<close> computes the same map as \<open>apply_messages\<close>, the capacity
  test keeps every chat within its bound, and the commit writes exactly that map.
\<close>

definition wf_staging :: "memory \<Rightarrow> staging \<Rightarrow> bool" where
  "wf_staging mem st \<longleftrightarrow> distinct (map fst (stg_staged st))
     \<and> (\<forall>ck. distinct (map fst (staged_of st ck)))
     \<and> (\<forall>ck mk m. map_of (staged_of st ck) mk = Some m \<longrightarrow> wf_message m \<and> message_key m = mk \<and> chat_key m = ck)
     \<and> (\<forall>ck \<in> fst ` set (stg_staged st). staged_of st ck \<noteq> [])
     \<and> distinct (stg_newChats st)
     \<and> set (stg_newChats st) = {ck. map_of (mem_chats mem) ck = None \<and> staged_of st ck \<noteq> []}
     \<and> distinct (map fst (stg_newIDs st))
     \<and> (\<forall>ck. distinct (new_ids st ck) \<and> set (new_ids st ck) = {mk. map_of (staged_of st ck) mk \<noteq> None \<and> view mem ck mk = None})"

lemma wf_staging_empty: "wf_staging mem empty_staging"
  by (simp add: wf_staging_def empty_staging_def staged_of_def new_ids_def or_empty_def)

lemma or_empty_simps [simp]: "or_empty (Some xs) = xs" "or_empty None = []"
  by (simp_all add: or_empty_def)

lemma or_empty_update: "or_empty (map_of (AList.update k v al) j) = (if j = k then v else or_empty (map_of al j))"
  by (simp add: update_conv' or_empty_def)

lemma staged_of_put [simp]:
  "staged_of (stage_put st m) ck =
     (if ck = chat_key m then AList.update (message_key m) m (staged_of st ck) else staged_of st ck)"
  by (simp add: staged_of_def stage_put_def or_empty_update)

lemma staged_of_notes [simp]:
  "staged_of (note_chat mem m st) ck = staged_of st ck" "staged_of (note_id m st) ck = staged_of st ck"
  "staged_of (note_flag b st) ck = staged_of st ck"
  by (simp_all add: staged_of_def note_id_def note_flag_def)

lemma inserted_notes [simp]:
  "stg_inserted (note_flag b st) = stg_inserted st @ [b]" "stg_inserted (note_id m st) = stg_inserted st"
  "stg_inserted (stage_put st m) = stg_inserted st"
  by (simp_all add: note_id_def note_flag_def stage_put_def)

lemma new_ids_notes [simp]:
  "new_ids (note_chat mem m st) ck = new_ids st ck" "new_ids (stage_put st m) ck = new_ids st ck"
  "new_ids (note_flag b st) ck = new_ids st ck"
  "new_ids (note_id m st) ck = (if ck = chat_key m then List.insert (message_key m) (new_ids st ck) else new_ids st ck)"
  by (simp_all add: new_ids_def note_flag_def note_id_def stage_put_def or_empty_update)

lemma sview_put:
  "sview mem (stage_put st m) = put_view (sview mem st) m"
  by (auto simp: sview_def put_view_def update_conv' fun_eq_iff)

lemma sview_notes [simp]:
  "sview mem (note_chat mem' m st) = sview mem st" "sview mem (note_id m st) = sview mem st"
  "sview mem (note_flag b st) = sview mem st"
  by (simp_all add: sview_def fun_eq_iff)

lemma staged_update_nonempty [simp]: "AList.update k v al \<noteq> []"
  by (cases al) auto

text \<open>Staging a message of a known chat or a new one, under an identifier that is new or not.\<close>

lemma wf_staging_step:
  assumes wf: "wf_staging mem st" and m: "wf_message m'" "chat_key m' = chat_key m" "message_key m' = message_key m"
  defines "st1 \<equiv> stage_put (note_chat mem m st) m'"
  shows "sview mem st (chat_key m) (message_key m) \<noteq> None \<Longrightarrow> wf_staging mem (note_flag b st1)"
    and "sview mem st (chat_key m) (message_key m) = None \<Longrightarrow> wf_staging mem (note_flag b (note_id m st1))"
proof -
  have s1: "distinct (map fst (stg_staged st1))" "\<forall>ck. distinct (map fst (staged_of st1 ck))"
    "\<forall>ck mk n. map_of (staged_of st1 ck) mk = Some n \<longrightarrow> wf_message n \<and> message_key n = mk \<and> chat_key n = ck"
  proof -
    show "distinct (map fst (stg_staged st1))" "\<forall>ck. distinct (map fst (staged_of st1 ck))"
      using wf by (simp_all add: wf_staging_def st1_def distinct_update) (simp add: stage_put_def distinct_update)
    have "wf_message n \<and> message_key n = mk \<and> chat_key n = ck" if "map_of (staged_of st ck) mk = Some n" for ck mk n
      using wf that unfolding wf_staging_def by blast
    then show "\<forall>ck mk n. map_of (staged_of st1 ck) mk = Some n \<longrightarrow> wf_message n \<and> message_key n = mk \<and> chat_key n = ck"
      using m by (auto simp: st1_def update_conv')
  qed
  have s2: "\<forall>ck \<in> fst ` set (stg_staged st1). staged_of st1 ck \<noteq> []"
  proof
    fix ck assume "ck \<in> fst ` set (stg_staged st1)"
    then have "ck = chat_key m' \<or> ck \<in> fst ` set (stg_staged st)"
      by (simp add: st1_def stage_put_def dom_update)
    moreover have "staged_of st ck \<noteq> []" if "ck \<in> fst ` set (stg_staged st)" using wf that unfolding wf_staging_def by blast
    ultimately show "staged_of st1 ck \<noteq> []" by (auto simp: st1_def)
  qed
  have s3: "distinct (stg_newChats st1)"
    "set (stg_newChats st1) = {ck. map_of (mem_chats mem) ck = None \<and> staged_of st1 ck \<noteq> []}"
  proof -
    have new: "stg_newChats st1 = (if map_of (mem_chats mem) (chat_key m) = None
        then List.insert (chat_key m) (stg_newChats st) else stg_newChats st)"
      by (simp add: st1_def stage_put_def note_chat_def)
    have old: "distinct (stg_newChats st)" "set (stg_newChats st) = {ck. map_of (mem_chats mem) ck = None \<and> staged_of st ck \<noteq> []}"
      using wf unfolding wf_staging_def by blast+
    have staged: "staged_of st1 ck \<noteq> [] \<longleftrightarrow> ck = chat_key m \<or> staged_of st ck \<noteq> []" for ck
      using m(2) by (simp add: st1_def)
    show "distinct (stg_newChats st1)" using old(1) by (simp add: new)
    show "set (stg_newChats st1) = {ck. map_of (mem_chats mem) ck = None \<and> staged_of st1 ck \<noteq> []}"
    proof (rule set_eqI)
      fix x
      have "x \<in> set (stg_newChats st) \<longleftrightarrow> map_of (mem_chats mem) x = None \<and> staged_of st x \<noteq> []"
        unfolding old(2) by (rule mem_Collect_eq)
      moreover have "x \<in> set (stg_newChats st1) \<longleftrightarrow>
          x \<in> set (stg_newChats st) \<or> x = chat_key m \<and> map_of (mem_chats mem) (chat_key m) = None"
        unfolding new by (cases "map_of (mem_chats mem) (chat_key m) = None") auto
      ultimately show "x \<in> set (stg_newChats st1) \<longleftrightarrow> x \<in> {ck. map_of (mem_chats mem) ck = None \<and> staged_of st1 ck \<noteq> []}"
        unfolding mem_Collect_eq staged by blast
    qed
  qed
  have ids: "distinct (map fst (stg_newIDs st1))" "new_ids st1 ck = new_ids st ck" for ck
  proof -
    have "distinct (map fst (stg_newIDs st))" using wf unfolding wf_staging_def by blast
    then show "distinct (map fst (stg_newIDs st1))" by (simp add: st1_def stage_put_def)
    show "new_ids st1 ck = new_ids st ck" by (simp add: st1_def)
  qed
  have old: "distinct (new_ids st ck)"
    "set (new_ids st ck) = {mk. map_of (staged_of st ck) mk \<noteq> None \<and> view mem ck mk = None}" for ck
    using wf unfolding wf_staging_def by blast+
  show "wf_staging mem (note_flag b st1)" if "sview mem st (chat_key m) (message_key m) \<noteq> None"
  proof -
    have "map_of (staged_of st (chat_key m)) (message_key m) \<noteq> None \<or> view mem (chat_key m) (message_key m) \<noteq> None"
      using that by (auto simp: sview_def)
    then have "set (new_ids st1 ck) = {mk. map_of (staged_of st1 ck) mk \<noteq> None \<and> view mem ck mk = None}" for ck
      unfolding ids(2) old(2) using m by (auto simp: st1_def update_conv')
    then show ?thesis using s1 s2 s3 ids old(1) by (simp add: wf_staging_def note_flag_def staged_of_def new_ids_def)
  qed
  show "wf_staging mem (note_flag b (note_id m st1))" if "sview mem st (chat_key m) (message_key m) = None"
  proof -
    have none: "map_of (staged_of st (chat_key m)) (message_key m) = None" "view mem (chat_key m) (message_key m) = None"
      using that by (auto simp: sview_def map_add_def split: option.splits)
    have set: "set (new_ids (note_id m st1) ck) = {mk. map_of (staged_of st1 ck) mk \<noteq> None \<and> view mem ck mk = None}" for ck
      using none m by (auto simp: ids(2) old(2) st1_def update_conv' split: if_splits)
    have dist: "distinct (new_ids (note_id m st1) ck)" for ck using old(1) by (simp add: ids(2))
    have keys: "distinct (map fst (stg_newIDs (note_id m st1)))" using ids(1) by (simp add: note_id_def distinct_update)
    have same: "stg_staged (note_flag b (note_id m st1)) = stg_staged st1" "stg_newChats (note_flag b (note_id m st1)) = stg_newChats st1"
      "stg_newIDs (note_flag b (note_id m st1)) = stg_newIDs (note_id m st1)"
      by (simp_all add: note_flag_def note_id_def)
    show ?thesis unfolding wf_staging_def same staged_of_notes new_ids_notes(3)
      using s1 s2 s3 set dist keys by blast
  qed
qed

lemma same_place_prior:
  assumes "wf_message prior" "message_key prior = message_key m" "chat_key prior = chat_key m"
    "msg_sentAt prior = msg_sentAt m" "msg_fromMe prior = msg_fromMe m"
  shows "same_place prior m"
  using assms by (simp add: same_place_def chat_id_eq_iff message_id_eq_iff)

lemma sview_wf:
  assumes "wf_memory mem" "wf_staging mem st" "sview mem st ck mk = Some m"
  shows "wf_message m \<and> message_key m = mk \<and> chat_key m = ck"
proof -
  have "map_of (staged_of st ck) mk = Some m \<or> view mem ck mk = Some m"
    using assms(3) by (auto simp: sview_def map_add_def split: option.splits)
  then show ?thesis using assms(2) view_wf [OF assms(1)] by (auto simp: wf_staging_def)
qed

lemma stage_message_ok:
  assumes mem: "wf_memory mem" and st: "wf_staging mem st" and m: "wf_message m"
  shows "case apply_message (sview mem st) m of
      None \<Rightarrow> stage_message mem st m = Inl StoreRejected
    | Some V \<Rightarrow> \<exists>st'. stage_message mem st m = Inr st' \<and> wf_staging mem st' \<and> sview mem st' = V
        \<and> stg_inserted st' = stg_inserted st @ [sview mem st (chat_key m) (message_key m) = None]"
proof -
  have merged: "wf_message (merge_duplicate prior m) \<and> same_place (merge_duplicate prior m) m"
    if "sview mem st (chat_key m) (message_key m) = Some prior" "msg_sentAt prior = msg_sentAt m \<and> msg_fromMe prior = msg_fromMe m" for prior
    using sview_wf [OF mem st that(1)] that(2) m merge_duplicate_wf [of prior m] same_place_prior [of prior m] by auto
  have keys: "chat_key (merge_duplicate prior m) = chat_key m \<and> message_key (merge_duplicate prior m) = message_key m"
    if "sview mem st (chat_key m) (message_key m) = Some prior" "msg_sentAt prior = msg_sentAt m \<and> msg_fromMe prior = msg_fromMe m" for prior
    using merged [OF that] same_place_keys by blast
  note eq = stage_message_eq [of mem st m]
  show ?thesis
  proof (cases "sview mem st (chat_key m) (message_key m)")
    case None
    have "wf_staging mem (note_flag True (note_id m (stage_put (note_chat mem m st) m)))"
      by (rule wf_staging_step(2) [OF st m refl refl None])
    moreover have "stage_message mem st m = Inr (note_flag True (note_id m (stage_put (note_chat mem m st) m)))"
      using None by (subst eq) simp_all
    ultimately show ?thesis using None by (simp add: apply_message_def sview_put)
  next
    case (Some prior)
    show ?thesis
    proof (cases "msg_sentAt prior = msg_sentAt m \<and> msg_fromMe prior = msg_fromMe m")
      case True
      have "wf_staging mem (note_flag False (stage_put (note_chat mem m st) (merge_duplicate prior m)))"
        by (rule wf_staging_step(1) [OF st]) (use merged [OF Some True] keys [OF Some True] Some in auto)
      moreover have "stage_message mem st m = Inr (note_flag False (stage_put (note_chat mem m st) (merge_duplicate prior m)))"
        using Some True keys by (subst eq) simp_all
      ultimately show ?thesis using Some True by (simp add: apply_message_def sview_put)
    next
      case False
      moreover have "stage_message mem st m = Inl StoreRejected"
        using Some False keys by (subst eq) auto
      ultimately show ?thesis using Some by (simp add: apply_message_def)
    qed
  qed
qed

lemma stage_all_ok:
  assumes mem: "wf_memory mem"
  shows "wf_staging mem st \<Longrightarrow> \<forall>m \<in> set ms. wf_message m \<Longrightarrow>
    (case apply_messages (sview mem st) ms of
       None \<Rightarrow> stage_all mem st ms = Inl StoreRejected
     | Some V \<Rightarrow> \<exists>st'. stage_all mem st ms = Inr st' \<and> wf_staging mem st' \<and> sview mem st' = V
         \<and> stg_inserted st' = stg_inserted st @ inserted_flags (sview mem st) ms)"
proof (induction ms arbitrary: st)
  case (Cons m ms)
  have m: "wf_message m" using Cons.prems(2) by simp
  show ?case
  proof (cases "apply_message (sview mem st) m")
    case None
    then show ?thesis using stage_message_ok [OF mem Cons.prems(1) m] by simp
  next
    case (Some V)
    obtain st' where st': "stage_message mem st m = Inr st'" "wf_staging mem st'" "sview mem st' = V"
      "stg_inserted st' = stg_inserted st @ [sview mem st (chat_key m) (message_key m) = None]"
      using stage_message_ok [OF mem Cons.prems(1) m] Some by auto
    then show ?thesis
      using Cons.IH [OF st'(2)] Cons.prems(2) Some by (auto split: option.splits)
  qed
qed simp

section \<open>What applying messages keeps\<close>

definition wf_view :: "message_view \<Rightarrow> bool" where
  "wf_view V \<longleftrightarrow> (\<forall>ck mk m. V ck mk = Some m \<longrightarrow> wf_message m \<and> message_key m = mk \<and> chat_key m = ck)"

definition places :: "message_view \<Rightarrow> message_view \<Rightarrow> bool" where
  "places V V' \<longleftrightarrow> (\<forall>ck mk p. V ck mk = Some p \<longrightarrow> (\<exists>p'. V' ck mk = Some p' \<and> same_place p' p))"

lemma view_wf_view: "wf_memory mem \<Longrightarrow> wf_view (view mem)"
  by (auto simp: wf_view_def dest: view_wf)

lemma same_place_trans: "same_place a b \<Longrightarrow> same_place b c \<Longrightarrow> same_place a c"
  by (simp add: same_place_def)

lemma places_refl [simp]: "places V V"
  by (auto simp: places_def)

lemma places_trans: "places V V' \<Longrightarrow> places V' W \<Longrightarrow> places V W"
  unfolding places_def by (meson same_place_trans)

lemma apply_message_places:
  assumes V: "wf_view V" and m: "wf_message m" and ap: "apply_message V m = Some V'"
  shows "wf_view V' \<and> places V V' \<and> (\<exists>m'. V' (chat_key m) (message_key m) = Some m' \<and> same_place m' m)"
proof (cases "V (chat_key m) (message_key m)")
  case None
  then have "V' = put_view V m" using ap by (simp add: apply_message_def)
  then show ?thesis using None V m by (auto simp: wf_view_def places_def put_view_def)
next
  case (Some prior)
  then have same: "msg_sentAt prior = msg_sentAt m" "msg_fromMe prior = msg_fromMe m"
    and V': "V' = put_view V (merge_duplicate prior m)"
    using ap by (auto simp: apply_message_def split: if_splits)
  have prior: "wf_message prior" "message_key prior = message_key m" "chat_key prior = chat_key m"
    using V Some unfolding wf_view_def by blast+
  have sp: "same_place prior m" by (rule same_place_prior [OF prior same])
  note merged = merge_duplicate_wf [OF prior(1) m sp]
  have keys: "chat_key (merge_duplicate prior m) = chat_key m" "message_key (merge_duplicate prior m) = message_key m"
    using same_place_keys [OF merged(2)] by simp_all
  have to_prior: "same_place (merge_duplicate prior m) prior" using merged(2) sp by (simp add: same_place_def)
  show ?thesis
    using Some V keys merged to_prior unfolding V' by (auto simp: wf_view_def places_def put_view_def)
qed

lemma apply_messages_places:
  "wf_view V \<Longrightarrow> \<forall>m \<in> set ms. wf_message m \<Longrightarrow> apply_messages V ms = Some V' \<Longrightarrow>
    wf_view V' \<and> places V V' \<and> (\<forall>m \<in> set ms. \<exists>m'. V' (chat_key m) (message_key m) = Some m' \<and> same_place m' m)"
proof (induction ms arbitrary: V)
  case (Cons m ms)
  then obtain V1 where V1: "apply_message V m = Some V1" "apply_messages V1 ms = Some V'" by (auto split: bind_splits)
  have m: "wf_message m" using Cons.prems(2) by simp
  note a = apply_message_places [OF Cons.prems(1) m V1(1)]
  then have b: "wf_view V' \<and> places V1 V' \<and> (\<forall>m \<in> set ms. \<exists>m'. V' (chat_key m) (message_key m) = Some m' \<and> same_place m' m)"
    using Cons.IH [of V1] Cons.prems(2) V1(2) by simp
  obtain m1 where m1: "V1 (chat_key m) (message_key m) = Some m1" "same_place m1 m" using a by blast
  then obtain m2 where "V' (chat_key m) (message_key m) = Some m2" "same_place m2 m1"
    using b unfolding places_def by blast
  then have "\<exists>m'. V' (chat_key m) (message_key m) = Some m' \<and> same_place m' m" using m1 same_place_trans by blast
  then show ?case using a b places_trans by auto
qed simp

lemma length_inserted_flags: "apply_messages V ms \<noteq> None \<Longrightarrow> length (inserted_flags V ms) = length ms"
  by (induction ms arbitrary: V) (auto split: option.splits bind_splits)

text \<open>Everything a batch mentions is staged.\<close>

lemma stage_message_staged:
  assumes "stage_message mem st m = Inr st'"
  shows "map_of (staged_of st' (chat_key m)) (message_key m) \<noteq> None"
    and "map_of (staged_of st ck) mk \<noteq> None \<Longrightarrow> map_of (staged_of st' ck) mk \<noteq> None"
  using assms
  by (auto simp: stage_message_def Let_def staged_of_def or_empty_update update_conv' split: option.splits if_splits)

lemma stage_all_staged:
  "stage_all mem st ms = Inr st' \<Longrightarrow>
    (\<forall>m \<in> set ms. map_of (staged_of st' (chat_key m)) (message_key m) \<noteq> None)
    \<and> (\<forall>ck mk. map_of (staged_of st ck) mk \<noteq> None \<longrightarrow> map_of (staged_of st' ck) mk \<noteq> None)"
proof (induction ms arbitrary: st)
  case (Cons m ms)
  then obtain st1 where st1: "stage_message mem st m = Inr st1" "stage_all mem st1 ms = Inr st'" by auto
  show ?case using Cons.IH [OF st1(2)] stage_message_staged [OF st1(1)] by auto
qed simp

section \<open>Advancing chats and building live events\<close>

definition inserted_messages :: "(message \<times> bool) list \<Rightarrow> message list" where
  "inserted_messages pairs = map fst (filter snd pairs)"

definition placeholder_chat :: "string \<Rightarrow> chat" where
  "placeholder_chat k = zero_chat\<lparr>chat_ID := ChatID k, chat_placeholder := True\<rparr>"

definition base_chat :: "memory \<Rightarrow> (string, chat) gomap \<Rightarrow> string \<Rightarrow> chat" where
  "base_chat mem sc k =
     (case map_of sc k of
        Some c \<Rightarrow> c
      | None \<Rightarrow> (case map_of (mem_chats mem) k of Some c \<Rightarrow> mc_chat c | None \<Rightarrow> placeholder_chat k))"

definition advance_one :: "memory \<Rightarrow> bool \<Rightarrow> chat \<Rightarrow> message \<Rightarrow> chat" where
  "advance_one mem b c m = advanced_chat b m (WithDisplayMetadata c (displayFor (mem_display mem) (msg_chatID m)))"

definition in_chat :: "string \<Rightarrow> message list \<Rightarrow> message list" where
  "in_chat k ms = filter (\<lambda>m. chat_key m = k) ms"

lemma displayFor_wf: "\<forall>d \<in> set ds. wf_display_slot d \<Longrightarrow> wf_display_slot (displayFor ds c)"
  by (induction ds) (auto simp: wf_display_slot_def)

lemma wf_chat_ID: "wf_chat c \<Longrightarrow> chat_ID c \<noteq> ChatID []"
  by (auto simp: wf_chat_def)

lemma WithDisplay_slot_wf: "wf_chat c \<Longrightarrow> wf_display_slot d \<Longrightarrow> wf_chat (WithDisplayMetadata c d)"
  using wf_chat_ID [of c] by (auto simp: wf_display_slot_def WithDisplayMetadata_wf) (simp add: WithDisplayMetadata_def zero_display_def)

lemma placeholder_new:
  "valid_identifier k \<Longrightarrow>
    NewChat \<lparr>chi_ID = k, chi_ContactID = [], chi_DisplayName = [], chi_IsGroup = False,
      chi_LastMessageAt = 0, chi_UnreadCount = 0, chi_Muted = False, chi_Archived = False,
      chi_Placeholder = True, chi_UpdatedAt = 0, chi_IngestSeq = 0\<rparr> = Inr (placeholder_chat k)"
  by (simp add: NewChat_def new_id_ok placeholder_chat_def zero_chat_def max_int_def normalizeBoundedUTF8_def)

lemma placeholder_wf: "valid_identifier k \<Longrightarrow> wf_chat (placeholder_chat k)"
  by (rule NewChat_wf [OF placeholder_new])

definition wf_staged_chats :: "(string, chat) gomap \<Rightarrow> bool" where
  "wf_staged_chats sc \<longleftrightarrow> distinct (map fst sc) \<and> (\<forall>k c. map_of sc k = Some c \<longrightarrow> wf_chat c \<and> chat_id_value (chat_ID c) = k)"

lemma staged_chat_base:
  assumes "valid_identifier k" shows "staged_chat mem sc k = Inr (base_chat mem sc k)"
  using assms by (auto simp: staged_chat_def base_chat_def placeholder_new or_rejected_def split: option.split)

lemma base_chat_wf:
  assumes "wf_memory mem" "wf_staged_chats sc" "valid_identifier k"
  shows "wf_chat (base_chat mem sc k) \<and> chat_id_value (chat_ID (base_chat mem sc k)) = k"
proof (cases "map_of sc k")
  case (Some c)
  then show ?thesis using assms(2) unfolding wf_staged_chats_def by (simp add: base_chat_def)
next
  case None
  then show ?thesis
    using assms chat_of [OF assms(1), of k] placeholder_wf
    by (auto simp: base_chat_def wf_memory_chat_def placeholder_chat_def split: option.split)
qed

lemma advance_one_wf:
  assumes "wf_memory mem" "wf_chat c"
  shows "wf_chat (advance_one mem b c m)" "chat_ID (advance_one mem b c m) = chat_ID c"
    "advanceChatForMessage (WithDisplayMetadata c (displayFor (mem_display mem) (msg_chatID m))) m b = Inr (advance_one mem b c m)"
proof -
  have "wf_display_slot (displayFor (mem_display mem) (msg_chatID m))"
    by (rule displayFor_wf) (use assms(1) in \<open>simp add: wf_memory_def\<close>)
  then have w: "wf_chat (WithDisplayMetadata c (displayFor (mem_display mem) (msg_chatID m)))"
    by (rule WithDisplay_slot_wf [OF assms(2)])
  show "wf_chat (advance_one mem b c m)" unfolding advance_one_def by (rule advanced_chat_wf [OF w])
  show "chat_ID (advance_one mem b c m) = chat_ID c" by (simp add: advance_one_def)
  show "advanceChatForMessage (WithDisplayMetadata c (displayFor (mem_display mem) (msg_chatID m))) m b = Inr (advance_one mem b c m)"
    unfolding advance_one_def by (rule advanceChat_eq [OF w])
qed

definition committable :: "staging \<Rightarrow> message \<Rightarrow> bool" where
  "committable st m \<longleftrightarrow> wf_message m
     \<and> (\<exists>m'. map_of (staged_of st (chat_key m)) (message_key m) = Some m' \<and> wf_message m' \<and> msg_sentAt m' = msg_sentAt m)"

definition event_for :: "staging \<Rightarrow> message \<Rightarrow> live_event \<Rightarrow> bool" where
  "event_for st m e \<longleftrightarrow> wf_live e \<and> map_of (staged_of st (chat_key m)) (message_key m) = Some (live_message e)"

definition chats_after :: "memory \<Rightarrow> bool \<Rightarrow> (string, chat) gomap \<Rightarrow> message list \<Rightarrow> string \<Rightarrow> chat option" where
  "chats_after mem b sc ms k =
     (if in_chat k ms = [] then map_of sc k else Some (foldl (advance_one mem b) (base_chat mem sc k) (in_chat k ms)))"

lemma inserted_messages_simps [simp]:
  "inserted_messages [] = []" "inserted_messages ((m, True) # ps) = m # inserted_messages ps"
  "inserted_messages ((m, False) # ps) = inserted_messages ps"
  by (simp_all add: inserted_messages_def)

lemma chats_after_Cons:
  assumes "c' = advance_one mem b (base_chat mem sc (chat_key m)) m"
  shows "chats_after mem b (AList.update (chat_key m) c' sc) ms k = chats_after mem b sc (m # ms) k"
proof (cases "k = chat_key m")
  case True
  have "base_chat mem (AList.update (chat_key m) c' sc) (chat_key m) = c'" by (simp add: base_chat_def update_conv')
  then show ?thesis using True assms by (simp add: chats_after_def in_chat_def update_conv')
next
  case False
  then have "base_chat mem (AList.update (chat_key m) c' sc) k = base_chat mem sc k" by (simp add: base_chat_def update_conv')
  then show ?thesis using False by (simp add: chats_after_def in_chat_def update_conv')
qed

lemma advance_step:
  assumes mem: "wf_memory mem" and sc: "wf_staged_chats sc" and m: "committable st m"
    and c_def: "c = advance_one mem b (base_chat mem sc (chat_key m)) m"
  shows "staged_chat mem sc (chat_key m) = Inr (base_chat mem sc (chat_key m))"
    and "or_rejected (advanceChatForMessage (WithDisplayMetadata (base_chat mem sc (chat_key m)) (displayFor (mem_display mem) (msg_chatID m))) m b) = Inr c"
    and "wf_staged_chats (AList.update (chat_key m) c sc)"
    and "\<exists>m' e. map_of (staged_of st (chat_key m)) (message_key m) = Some m'
      \<and> or_rejected (NewLiveMessageCommitted m' (chat_unreadCount c) (chat_lastMessageAt c)) = Inr e \<and> event_for st m e"
proof -
  have vid: "valid_identifier (chat_key m)" using m by (simp add: committable_def wf_message_def message_parts_ok_def)
  note base = base_chat_wf [OF mem sc vid] and adv = advance_one_wf [OF mem, where c = "base_chat mem sc (chat_key m)" and b = b and m = m]
  show "staged_chat mem sc (chat_key m) = Inr (base_chat mem sc (chat_key m))" by (rule staged_chat_base [OF vid])
  show "or_rejected (advanceChatForMessage (WithDisplayMetadata (base_chat mem sc (chat_key m)) (displayFor (mem_display mem) (msg_chatID m))) m b) = Inr c"
    using adv(3) base by (simp add: or_rejected_def c_def)
  have c: "wf_chat c" "chat_id_value (chat_ID c) = chat_key m" using adv(1,2) base by (simp_all add: c_def)
  then show "wf_staged_chats (AList.update (chat_key m) c sc)"
    using sc unfolding wf_staged_chats_def by (simp add: distinct_update update_conv')
  obtain m' where m': "map_of (staged_of st (chat_key m)) (message_key m) = Some m'" "wf_message m'" "msg_sentAt m' = msg_sentAt m"
    using m by (auto simp: committable_def)
  have sent: "msg_sentAt m \<noteq> 0" using m by (simp add: committable_def wf_message_def message_parts_ok_def)
  then have act: "msg_sentAt m \<le> chat_lastMessageAt c" "chat_lastMessageAt c \<noteq> 0"
    by (auto simp: c_def advance_one_def advanced_activity_def)
  then have "\<exists>e. NewLiveMessageCommitted m' (chat_unreadCount c) (chat_lastMessageAt c) = Inr e \<and> wf_live e \<and> live_message e = m'"
    using m' by (simp add: NewLiveMessageCommitted_wf wf_live_def)
  then show "\<exists>m' e. map_of (staged_of st (chat_key m)) (message_key m) = Some m'
      \<and> or_rejected (NewLiveMessageCommitted m' (chat_unreadCount c) (chat_lastMessageAt c)) = Inr e \<and> event_for st m e"
    using m'(1) by (auto simp: or_rejected_def event_for_def)
qed

lemma advance_all_ok:
  assumes mem: "wf_memory mem"
  shows "wf_staged_chats sc \<Longrightarrow> \<forall>p \<in> set pairs. committable st (fst p) \<Longrightarrow>
    \<exists>sc' ev. advance_all mem st b emit pairs sc events = Inr (sc', events @ ev) \<and> wf_staged_chats sc'
      \<and> map_of sc' = chats_after mem b sc (inserted_messages pairs)
      \<and> (if emit then list_all2 (event_for st) (inserted_messages pairs) ev else ev = [])"
proof (induction pairs arbitrary: sc events)
  case Nil
  then show ?case by (auto simp: chats_after_def in_chat_def fun_eq_iff)
next
  case (Cons p pairs)
  obtain m i where p: "p = (m, i)" by (cases p)
  have rest: "\<forall>p \<in> set pairs. committable st (fst p)" and m: "committable st m" using Cons.prems(2) p by auto
  show ?case
  proof (cases i)
    case False
    have skip: "inserted_messages (p # pairs) = inserted_messages pairs"
      "advance_all mem st b emit (p # pairs) sc events = advance_all mem st b emit pairs sc events"
      using False by (simp_all add: p)
    show ?thesis unfolding skip by (rule Cons.IH [OF Cons.prems(1) rest])
  next
    case True
    define c where "c = advance_one mem b (base_chat mem sc (chat_key m)) m"
    note step = advance_step [OF mem Cons.prems(1) m c_def]
    let ?sc = "AList.update (chat_key m) c sc"
    have after: "chats_after mem b ?sc (inserted_messages pairs) = chats_after mem b sc (inserted_messages (p # pairs))"
      using chats_after_Cons [OF c_def] p True by (simp add: fun_eq_iff)
    show ?thesis
    proof (cases emit)
      case False
      obtain sc' where sc': "advance_all mem st b emit pairs ?sc events = Inr (sc', events)" "wf_staged_chats sc'"
        "map_of sc' = chats_after mem b ?sc (inserted_messages pairs)"
        using Cons.IH [OF step(3) rest, of events] False by auto
      have "advance_all mem st b emit (p # pairs) sc events = Inr (sc', events)"
        using step(1,2) sc'(1) False by (simp add: p True)
      then show ?thesis using sc'(2,3) False unfolding after by auto
    next
      case emit: True
      obtain m' e where e: "map_of (staged_of st (chat_key m)) (message_key m) = Some m'"
        "or_rejected (NewLiveMessageCommitted m' (chat_unreadCount c) (chat_lastMessageAt c)) = Inr e" "event_for st m e"
        using step(4) by blast
      obtain sc' ev where sc': "advance_all mem st b emit pairs ?sc (events @ [e]) = Inr (sc', (events @ [e]) @ ev)" "wf_staged_chats sc'"
        "map_of sc' = chats_after mem b ?sc (inserted_messages pairs)" "list_all2 (event_for st) (inserted_messages pairs) ev"
        using Cons.IH [OF step(3) rest, of "events @ [e]"] emit by auto
      have "advance_all mem st b emit (p # pairs) sc events = Inr (sc', events @ e # ev)"
        using step(1,2) sc'(1) e(1,2) emit by (simp add: p True Let_def staged_of_def)
      moreover have "list_all2 (event_for st) (inserted_messages (p # pairs)) (e # ev)" using sc'(4) e(3) by (simp add: p True)
      ultimately show ?thesis using sc'(2,3) emit unfolding after by auto
    qed
  qed
qed

section \<open>The commit\<close>

lemma fold_keyed:
  assumes upd: "\<And>kv al. map_of (f kv al) = (map_of al)(fst kv := g kv (map_of al (fst kv)))"
  shows "distinct (map fst kvs) \<Longrightarrow>
    map_of (fold f kvs al) j = (case map_of kvs j of None \<Rightarrow> map_of al j | Some v \<Rightarrow> g (j, v) (map_of al j))"
proof (induction kvs arbitrary: al)
  case (Cons kv kvs)
  obtain k v where kv: "kv = (k, v)" by (cases kv)
  then have "map_of kvs k = None" using Cons.prems by (simp add: map_of_eq_None_iff)
  then show ?case using Cons kv upd by (auto split: option.split)
qed simp

lemma fold_distinct:
  assumes "\<And>kv al. distinct (map fst al) \<Longrightarrow> distinct (map fst (f kv al))"
  shows "distinct (map fst al) \<Longrightarrow> distinct (map fst (fold f kvs al))"
  using assms by (induction kvs arbitrary: al) auto

lemma length_dom: "distinct (map fst al) \<Longrightarrow> length al = card (dom (map_of al))"
  by (metis distinct_card dom_map_of_conv_image_fst length_map set_map)

definition set_chat :: "memory \<Rightarrow> chat \<Rightarrow> memory_chat \<Rightarrow> memory_chat" where
  "set_chat mem c current = current\<lparr>mc_chat := c,
     mc_displayQuality := (if dm_quality (displayFor (mem_display mem) (chat_ID c)) > mc_displayQuality current
       then dm_quality (displayFor (mem_display mem) (chat_ID c)) else mc_displayQuality current)\<rparr>"

definition put_messages :: "(string, message) gomap \<Rightarrow> (string, message) gomap \<Rightarrow> (string, message) gomap" where
  "put_messages new old = fold (\<lambda>(mid, m). AList.update mid (message_WithNotificationEligibility m False)) new old"

lemma commit_chat_map:
  "map_of (commit_chat mem kc chats) = (map_of chats)(fst kc := map_option (set_chat mem (snd kc)) (map_of chats (fst kc)))"
  by (auto simp: commit_chat_def set_chat_def Let_def update_conv' fun_eq_iff split: option.split)

lemma commit_messages_map:
  "map_of (commit_messages km chats) = (map_of chats)(fst km :=
     map_option (\<lambda>current. current\<lparr>mc_messages := put_messages (snd km) (mc_messages current)\<rparr>) (map_of chats (fst km)))"
  by (auto simp: commit_messages_def put_messages_def Let_def update_conv' fun_eq_iff split: option.split)

lemma put_messages_map:
  "distinct (map fst new) \<Longrightarrow>
    map_of (put_messages new old) = map_of old ++ (\<lambda>mk. map_option (\<lambda>m. message_WithNotificationEligibility m False) (map_of new mk))"
  unfolding put_messages_def
  by (rule ext, subst fold_keyed [where g = "\<lambda>kv _. Some (message_WithNotificationEligibility (snd kv) False)"])
    (auto simp: update_conv' map_add_def split: option.split)

lemma put_messages_distinct: "distinct (map fst old) \<Longrightarrow> distinct (map fst (put_messages new old))"
  unfolding put_messages_def by (rule fold_distinct) (auto simp: distinct_update)

end
