(* ===== verification/StoreCommit.thy ===== *)
theory StoreCommit
  imports StoreWrite
begin

text \<open>
  The commit of a staged batch: what the store holds after \<open>writeBatch\<close>, that the store invariant and its capacity
  bounds survive, and the refinement of the whole write to \<open>apply_messages\<close>.
\<close>

definition cleared :: "message_view \<Rightarrow> message_view" where
  "cleared V ck mk = map_option (\<lambda>m. message_WithNotificationEligibility m False) (V ck mk)"

text \<open>A write that may be committed: its staging and its advanced chats, with room for both.\<close>

definition commit_ready :: "memory \<Rightarrow> staging \<Rightarrow> (string, chat) gomap \<Rightarrow> bool" where
  "commit_ready mem st sc \<longleftrightarrow> wf_staging mem st \<and> \<not> over_capacity mem st \<and> wf_staged_chats sc
     \<and> (\<forall>ck \<in> set (stg_newChats st). map_of sc ck \<noteq> None)"

definition committed_base :: "memory \<Rightarrow> staging \<Rightarrow> string \<Rightarrow> memory_chat option" where
  "committed_base mem st ck = (if ck \<in> set (stg_newChats st) then Some (empty_chat zero_chat) else map_of (mem_chats mem) ck)"

definition committed_chat :: "memory \<Rightarrow> (string, chat) gomap \<Rightarrow> string \<Rightarrow> memory_chat \<Rightarrow> memory_chat" where
  "committed_chat mem sc ck current = (case map_of sc ck of None \<Rightarrow> current | Some c \<Rightarrow> set_chat mem c current)"

lemma map_of_fold_update: "map_of (fold (\<lambda>k. AList.update k v) ks al) j = (if j \<in> set ks then Some v else map_of al j)"
  by (induction ks arbitrary: al) (auto simp: update_conv')

lemma wf_staging_facts:
  assumes "wf_staging mem st"
  shows "distinct (map fst (stg_staged st))" "distinct (map fst (staged_of st ck))"
    "map_of (staged_of st ck) mk = Some m \<Longrightarrow> wf_message m \<and> message_key m = mk \<and> chat_key m = ck"
    "distinct (stg_newChats st)"
    "ck \<in> set (stg_newChats st) \<longleftrightarrow> map_of (mem_chats mem) ck = None \<and> staged_of st ck \<noteq> []"
    "distinct (new_ids st ck)"
    "set (new_ids st ck) = {mk. map_of (staged_of st ck) mk \<noteq> None \<and> view mem ck mk = None}"
  using assms unfolding wf_staging_def by blast+

lemma commit_messages_fold:
  assumes "distinct (map fst kvs)"
  shows "map_of (fold commit_messages kvs chats) ck =
    map_option (\<lambda>cur. cur\<lparr>mc_messages := put_messages (or_empty (map_of kvs ck)) (mc_messages cur)\<rparr>) (map_of chats ck)"
  by (subst fold_keyed [where g = "\<lambda>km. map_option (\<lambda>cur. cur\<lparr>mc_messages := put_messages (snd km) (mc_messages cur)\<rparr>)", OF commit_messages_map assms])
    (auto split: option.split simp: put_messages_def option.map_id0 [symmetric] option.map_ident)

lemma commit_chat_fold:
  assumes "distinct (map fst kvs)"
  shows "map_of (fold (commit_chat mem) kvs chats) ck = map_option (committed_chat mem kvs ck) (map_of chats ck)"
  by (subst fold_keyed [where g = "\<lambda>kc. map_option (set_chat mem (snd kc))", OF commit_chat_map assms])
    (cases "map_of chats ck"; auto split: option.split simp: committed_chat_def)

lemma commit_all_map:
  assumes "commit_ready mem st sc"
  shows "map_of (mem_chats (commit_all mem st sc)) ck =
    map_option (\<lambda>cur. (committed_chat mem sc ck cur)\<lparr>mc_messages := put_messages (staged_of st ck) (mc_messages (committed_chat mem sc ck cur))\<rparr>)
      (committed_base mem st ck)"
proof -
  have "distinct (map fst sc)" "distinct (map fst (stg_staged st))"
    using assms wf_staging_facts(1) unfolding commit_ready_def wf_staged_chats_def by blast+
  then show ?thesis
    by (simp add: commit_all_def commit_messages_fold commit_chat_fold map_of_fold_update committed_base_def option.map_comp
        comp_def flip: staged_of_def)
qed

lemma commit_all_distinct:
  assumes "distinct (map fst (mem_chats mem))"
  shows "distinct (map fst (mem_chats (commit_all mem st sc)))"
  unfolding commit_all_def
  by (simp, intro fold_distinct assms)
    (auto simp: commit_messages_def commit_chat_def Let_def distinct_update split: option.split)

lemma commit_all_length:
  assumes "distinct (map fst (mem_chats mem))" "commit_ready mem st sc"
  shows "len (mem_chats (commit_all mem st sc)) \<le> mem_maxChats mem"
proof -
  note wf = wf_staging_facts [of mem st]
  have ready: "wf_staging mem st" "\<not> over_capacity mem st" using assms(2) by (simp_all add: commit_ready_def)
  have dom: "dom (map_of (mem_chats (commit_all mem st sc))) \<subseteq> dom (map_of (mem_chats mem)) \<union> set (stg_newChats st)"
    by (auto simp: commit_all_map [OF assms(2)] committed_base_def split: if_splits)
  have "length (mem_chats (commit_all mem st sc)) = card (dom (map_of (mem_chats (commit_all mem st sc))))"
    by (rule length_dom [OF commit_all_distinct [OF assms(1)]])
  also have "\<dots> \<le> card (dom (map_of (mem_chats mem)) \<union> set (stg_newChats st))"
    by (rule card_mono [OF _ dom]) (simp add: finite_dom_map_of)
  also have "\<dots> \<le> card (dom (map_of (mem_chats mem))) + card (set (stg_newChats st))" by (rule card_Un_le)
  also have "\<dots> = length (mem_chats mem) + length (stg_newChats st)"
    using length_dom [OF assms(1)] distinct_card [OF wf(4) [OF ready(1)]] by simp
  finally show ?thesis using ready(2) unfolding over_capacity_def by linarith
qed

text \<open>The stored messages after the commit are the old ones overlaid with the staged ones, eligibility cleared.\<close>

lemma clear_stored: "wf_memory mem \<Longrightarrow> cleared (view mem) = view mem"
proof (intro ext)
  fix ck mk
  assume wf: "wf_memory mem"
  show "cleared (view mem) ck mk = view mem ck mk"
  proof (cases "view mem ck mk")
    case (Some m)
    then have "\<not> msg_notificationEligible m" using view_wf [OF wf] by blast
    then have "message_WithNotificationEligibility m False = m" by (simp add: message_WithNotificationEligibility_def)
    then show ?thesis using Some by (simp add: cleared_def)
  qed (simp add: cleared_def)
qed

lemma committed_chat_messages [simp]:
  "mc_messages (committed_chat mem sc ck cur) = mc_messages cur" "mc_anchor (committed_chat mem sc ck cur) = mc_anchor cur"
  "mc_hasAnchor (committed_chat mem sc ck cur) = mc_hasAnchor cur"
  by (simp_all add: committed_chat_def set_chat_def split: option.split)

lemma base_messages:
  assumes "wf_staging mem st" "committed_base mem st ck = Some cur"
  shows "map_of (mc_messages cur) = view mem ck" "mc_messages cur = [] \<or> map_of (mem_chats mem) ck = Some cur"
  using assms wf_staging_facts(5) [OF assms(1), of ck]
  by (auto simp: committed_base_def view_def empty_chat_def split: if_splits)

lemma commit_all_view:
  assumes mem: "wf_memory mem" and ready: "commit_ready mem st sc"
  shows "view (commit_all mem st sc) = cleared (sview mem st)"
proof (intro ext)
  fix ck mk
  have st: "wf_staging mem st" using ready by (simp add: commit_ready_def)
  note wf = wf_staging_facts [OF st]
  show "view (commit_all mem st sc) ck mk = cleared (sview mem st) ck mk"
  proof (cases "committed_base mem st ck")
    case None
    then have "map_of (mem_chats mem) ck = None" "staged_of st ck = []" using wf(5) by (auto simp: committed_base_def split: if_splits)
    then show ?thesis using None by (simp add: view_def commit_all_map [OF ready] cleared_def sview_def)
  next
    case (Some cur)
    have "view (commit_all mem st sc) ck mk = map_of (put_messages (staged_of st ck) (mc_messages cur)) mk"
      using Some by (simp add: view_def commit_all_map [OF ready])
    also have "\<dots> = (view mem ck ++ (\<lambda>mk. map_option (\<lambda>m. message_WithNotificationEligibility m False) (map_of (staged_of st ck) mk))) mk"
      by (simp add: put_messages_map [OF wf(2)] base_messages(1) [OF st Some])
    also have "\<dots> = cleared (sview mem st) ck mk"
      using fun_cong [OF fun_cong [OF clear_stored [OF mem], of ck], of mk]
      by (auto simp: sview_def cleared_def map_add_def split: option.splits)
    finally show ?thesis .
  qed
qed

lemma put_messages_length:
  assumes st: "wf_staging mem st" and cap: "\<not> over_capacity mem st" and base: "committed_base mem st ck = Some cur"
    and old: "distinct (map fst (mc_messages cur))" "len (mc_messages cur) \<le> MaxRetentionSnapshotSummaries"
  shows "len (put_messages (staged_of st ck) (mc_messages cur)) \<le> MaxRetentionSnapshotSummaries"
proof -
  note wf = wf_staging_facts [OF st]
  let ?new = "put_messages (staged_of st ck) (mc_messages cur)"
  have count: "message_count mem ck = len (mc_messages cur)"
    using base wf(5) [of ck] by (auto simp: message_count_def committed_base_def empty_chat_def split: if_splits)
  have "dom (map_of ?new) = dom (map_of (mc_messages cur)) \<union> set (new_ids st ck)"
    unfolding put_messages_map [OF wf(2)] wf(7) base_messages(1) [OF st base, symmetric]
    by (auto simp: map_add_def split: option.splits)
  then have "card (dom (map_of ?new)) \<le> card (dom (map_of (mc_messages cur))) + card (set (new_ids st ck))"
    by (simp add: card_Un_le)
  then have "length ?new \<le> length (mc_messages cur) + length (new_ids st ck)"
    using length_dom [OF put_messages_distinct [OF old(1)]] length_dom [OF old(1)] distinct_card [OF wf(6)] by simp
  moreover have "len (mc_messages cur) + len (new_ids st ck) \<le> MaxRetentionSnapshotSummaries"
  proof (cases "map_of (stg_newIDs st) ck")
    case None
    then show ?thesis using old(2) by (simp add: new_ids_def)
  next
    case (Some ids)
    then have "(ck, ids) \<in> set (stg_newIDs st)" by (rule map_of_SomeD)
    then show ?thesis using cap Some count unfolding over_capacity_def new_ids_def by auto
  qed
  ultimately show ?thesis by linarith
qed

lemma wf_memory_chatI:
  assumes "wf_chat (mc_chat c)" "chat_id_value (chat_ID (mc_chat c)) = k" "distinct (map fst (mc_messages c))"
    "len (mc_messages c) \<le> MaxRetentionSnapshotSummaries"
    "\<And>mk m. map_of (mc_messages c) mk = Some m \<Longrightarrow> wf_stored k (mk, m)"
    "mc_hasAnchor c \<Longrightarrow> wf_anchor (mc_anchor c) \<and> chat_id_value (anchor_chatID (mc_anchor c)) = k"
  shows "wf_memory_chat k c"
  using assms unfolding wf_memory_chat_def by (auto simp: map_of_eq_Some_iff)

lemma wf_stored_cleared: "wf_message m \<Longrightarrow> wf_stored (chat_key m) (message_key m, message_WithNotificationEligibility m False)"
  using wf_updates(4) [of m] by (simp add: wf_stored_def) (simp add: message_WithNotificationEligibility_def)

lemma commit_all_chat_wf:
  assumes mem: "wf_memory mem" and ready: "commit_ready mem st sc"
    and c: "map_of (mem_chats (commit_all mem st sc)) ck = Some c"
  shows "wf_memory_chat ck c"
proof -
  have st: "wf_staging mem st" and cap: "\<not> over_capacity mem st" and sc: "wf_staged_chats sc"
    using ready by (simp_all add: commit_ready_def)
  note wf = wf_staging_facts [OF st]
  obtain cur where cur: "committed_base mem st ck = Some cur"
    and c': "c = (committed_chat mem sc ck cur)\<lparr>mc_messages := put_messages (staged_of st ck) (mc_messages cur)\<rparr>"
    using c by (auto simp: commit_all_map [OF ready])
  have old: "distinct (map fst (mc_messages cur))" "len (mc_messages cur) \<le> MaxRetentionSnapshotSummaries"
    "mc_hasAnchor cur \<longrightarrow> wf_anchor (mc_anchor cur) \<and> chat_id_value (anchor_chatID (mc_anchor cur)) = ck"
    using cur chat_of [OF mem, of ck cur]
    by (auto simp: committed_base_def empty_chat_def wf_memory_chat_def MaxRetentionSnapshotSummaries_def split: if_splits)
  show ?thesis
  proof (rule wf_memory_chatI)
    have "wf_chat (mc_chat (committed_chat mem sc ck cur)) \<and> chat_id_value (chat_ID (mc_chat (committed_chat mem sc ck cur))) = ck"
    proof (cases "map_of sc ck")
      case None
      then have "map_of (mem_chats mem) ck = Some cur" using ready cur by (auto simp: commit_ready_def committed_base_def split: if_splits)
      then show ?thesis using None chat_of [OF mem] by (simp add: committed_chat_def wf_memory_chat_def)
    next
      case (Some d)
      then show ?thesis using sc unfolding wf_staged_chats_def by (simp add: committed_chat_def set_chat_def)
    qed
    then show "wf_chat (mc_chat c)" "chat_id_value (chat_ID (mc_chat c)) = ck" by (simp_all add: c')
    show "distinct (map fst (mc_messages c))" by (simp add: c' put_messages_distinct [OF old(1)])
    show "len (mc_messages c) \<le> MaxRetentionSnapshotSummaries" by (simp add: c' put_messages_length [OF st cap cur old(1,2)])
    show "wf_stored ck (mk, m)" if "map_of (mc_messages c) mk = Some m" for mk m
    proof -
      have "cleared (sview mem st) ck mk = Some m"
        using that c by (simp flip: commit_all_view [OF mem ready] add: view_def)
      then obtain m' where "sview mem st ck mk = Some m'" "m = message_WithNotificationEligibility m' False"
        by (auto simp: cleared_def)
      then show ?thesis using sview_wf [OF mem st] wf_stored_cleared by blast
    qed
    show "wf_anchor (mc_anchor c) \<and> chat_id_value (anchor_chatID (mc_anchor c)) = ck" if "mc_hasAnchor c"
      using that old(3) by (simp add: c')
  qed
qed

lemma commit_all_wf:
  assumes mem: "wf_memory mem" and ready: "commit_ready mem st sc"
  shows "wf_memory (commit_all mem st sc)"
proof -
  have dist: "distinct (map fst (mem_chats mem))" using mem by (simp add: wf_memory_def)
  have same: "mem_maxChats (commit_all mem st sc) = mem_maxChats mem" "mem_display (commit_all mem st sc) = mem_display mem"
    "mem_displayNext (commit_all mem st sc) = mem_displayNext mem"
    by (simp_all add: commit_all_def)
  have "wf_memory_chat (fst kc) (snd kc)" if "kc \<in> set (mem_chats (commit_all mem st sc))" for kc
    using that commit_all_chat_wf [OF mem ready, of "fst kc" "snd kc"] map_of_is_SomeI [OF commit_all_distinct [OF dist], of "fst kc" "snd kc"]
    by simp
  then show ?thesis
    using mem commit_all_distinct [OF dist] commit_all_length [OF dist ready] unfolding wf_memory_def same by blast
qed

section \<open>The whole write\<close>

text \<open>A message that the old view lacks and the new one has was inserted by some message of the batch.\<close>

lemma inserted_of_new:
  assumes "apply_messages V ms = Some V'" "wf_view V" "\<forall>m \<in> set ms. wf_message m" "V ck mk = None" "V' ck mk \<noteq> None"
  shows "\<exists>m \<in> set (inserted_messages (zip ms (inserted_flags V ms))). chat_key m = ck \<and> message_key m = mk"
  using assms
proof (induction ms arbitrary: V)
  case (Cons m ms)
  then obtain V1 where V1: "apply_message V m = Some V1" "apply_messages V1 ms = Some V'" by (auto split: bind_splits)
  have m: "wf_message m" using Cons.prems(3) by simp
  note wf1 = apply_message_places [OF Cons.prems(2) m V1(1)]
  show ?case
  proof (cases "V1 ck mk")
    case None
    then have "\<exists>n \<in> set (inserted_messages (zip ms (inserted_flags V1 ms))). chat_key n = ck \<and> message_key n = mk"
      using Cons.IH [OF V1(2)] wf1 Cons.prems(3,5) by simp
    then show ?thesis using V1(1) by (auto simp: inserted_messages_def)
  next
    case (Some n)
    have "V (chat_key m) (message_key m) = None \<and> chat_key m = ck \<and> message_key m = mk"
    proof (cases "V (chat_key m) (message_key m)")
      case None
      then have "V1 = put_view V m" using V1(1) by (simp add: apply_message_def)
      then show ?thesis using None Some Cons.prems(4) by (auto simp: put_view_def split: if_splits)
    next
      case (Some prior)
      then have same: "msg_sentAt prior = msg_sentAt m" "msg_fromMe prior = msg_fromMe m" and "V1 = put_view V (merge_duplicate prior m)"
        using V1(1) by (auto simp: apply_message_def split: if_splits)
      moreover have "wf_message prior \<and> message_key prior = message_key m \<and> chat_key prior = chat_key m"
        using Cons.prems(2) Some unfolding wf_view_def by blast
      then have "same_place (merge_duplicate prior m) m"
        using merge_duplicate_wf(2) [OF _ m] same_place_prior [OF _ _ _ same] by blast
      ultimately show ?thesis
        using Some \<open>V1 ck mk = Some n\<close> Cons.prems(4) same_place_keys by (fastforce simp: put_view_def split: if_splits)
    qed
    then show ?thesis using V1(1) by (auto simp: inserted_messages_def)
  qed
qed simp

text \<open>The capacity test, stated over the stored messages.\<close>

definition fits :: "memory \<Rightarrow> message list \<Rightarrow> message_view \<Rightarrow> bool" where
  "fits mem ms V \<longleftrightarrow> int (card (dom (map_of (mem_chats mem)) \<union> chat_key ` set ms)) \<le> mem_maxChats mem
     \<and> (\<forall>ck. int (card (dom (V ck))) \<le> MaxRetentionSnapshotSummaries)"

lemma stage_message_chats:
  "stage_message mem st m = Inr st' \<Longrightarrow> staged_of st' ck \<noteq> [] \<longleftrightarrow> ck = chat_key m \<or> staged_of st ck \<noteq> []"
  by (auto simp: stage_message_def Let_def staged_of_def or_empty_update split: option.splits if_splits)

lemma stage_all_chats:
  "stage_all mem st ms = Inr st' \<Longrightarrow> staged_of st' ck \<noteq> [] \<longleftrightarrow> ck \<in> chat_key ` set ms \<or> staged_of st ck \<noteq> []"
proof (induction ms arbitrary: st)
  case (Cons m ms)
  then obtain st1 where "stage_message mem st m = Inr st1" "stage_all mem st1 ms = Inr st'" by auto
  then show ?case using Cons.IH stage_message_chats by auto
qed simp

lemma dom_sview_card:
  assumes mem: "wf_memory mem" and st: "wf_staging mem st"
  shows "int (card (dom (sview mem st ck))) = message_count mem ck + len (new_ids st ck)"
proof -
  note wf = wf_staging_facts [OF st]
  have fin: "finite (dom (view mem ck))" by (auto simp: view_def finite_dom_map_of split: option.split)
  have old: "int (card (dom (view mem ck))) = message_count mem ck"
    using chat_of [OF mem, of ck]
    by (auto simp: view_def message_count_def wf_memory_chat_def length_dom [symmetric] split: option.split)
  have "dom (sview mem st ck) = dom (view mem ck) \<union> set (new_ids st ck)"
    unfolding wf(7) by (auto simp: sview_def map_add_def split: option.splits)
  moreover have "dom (view mem ck) \<inter> set (new_ids st ck) = {}" unfolding wf(7) by auto
  ultimately have "card (dom (sview mem st ck)) = card (dom (view mem ck)) + card (set (new_ids st ck))"
    using fin by (simp add: card_Un_disjoint)
  then show ?thesis using old distinct_card [OF wf(6)] by simp
qed

lemma over_capacity_fits:
  assumes mem: "wf_memory mem" and all: "stage_all mem empty_staging ms = Inr st" and st: "wf_staging mem st"
  shows "over_capacity mem st \<longleftrightarrow> \<not> fits mem ms (sview mem st)"
proof -
  note wf = wf_staging_facts [OF st]
  have dist: "distinct (map fst (mem_chats mem))" using mem by (simp add: wf_memory_def)
  have new: "set (stg_newChats st) = chat_key ` set ms - dom (map_of (mem_chats mem))"
    using wf(5) stage_all_chats [OF all] by (auto simp: empty_staging_def staged_of_def)
  have "card (dom (map_of (mem_chats mem)) \<union> chat_key ` set ms) = card (dom (map_of (mem_chats mem)) \<union> set (stg_newChats st))"
    unfolding new by (simp add: Un_Diff_cancel)
  also have "\<dots> = card (dom (map_of (mem_chats mem))) + card (set (stg_newChats st))"
    by (rule card_Un_disjoint) (auto simp: new finite_dom_map_of)
  finally have chats: "int (card (dom (map_of (mem_chats mem)) \<union> chat_key ` set ms)) = len (mem_chats mem) + len (stg_newChats st)"
    using length_dom [OF dist] distinct_card [OF wf(4)] by simp
  have bound: "message_count mem ck \<le> MaxRetentionSnapshotSummaries" for ck
    using chat_of [OF mem, of ck] by (auto simp: message_count_def wf_memory_chat_def MaxRetentionSnapshotSummaries_def split: option.split)
  have keyed: "distinct (map fst (stg_newIDs st))" using st unfolding wf_staging_def by blast
  have "(\<exists>(ck, ids) \<in> set (stg_newIDs st). message_count mem ck + len ids > MaxRetentionSnapshotSummaries) \<longleftrightarrow>
      (\<exists>ck. message_count mem ck + len (new_ids st ck) > MaxRetentionSnapshotSummaries)"
  proof
    assume "\<exists>(ck, ids) \<in> set (stg_newIDs st). message_count mem ck + len ids > MaxRetentionSnapshotSummaries"
    then obtain ck ids where ids: "(ck, ids) \<in> set (stg_newIDs st)" "message_count mem ck + len ids > MaxRetentionSnapshotSummaries"
      by auto
    then have "new_ids st ck = ids" using keyed by (simp add: new_ids_def)
    then show "\<exists>ck. message_count mem ck + len (new_ids st ck) > MaxRetentionSnapshotSummaries" using ids(2) by blast
  next
    assume "\<exists>ck. message_count mem ck + len (new_ids st ck) > MaxRetentionSnapshotSummaries"
    then obtain ck where ck: "message_count mem ck + len (new_ids st ck) > MaxRetentionSnapshotSummaries" by blast
    then have "new_ids st ck \<noteq> []" using bound [of ck] by auto
    then obtain ids where "map_of (stg_newIDs st) ck = Some ids" "new_ids st ck = ids"
      by (cases "map_of (stg_newIDs st) ck") (auto simp: new_ids_def)
    then show "\<exists>(ck, ids) \<in> set (stg_newIDs st). message_count mem ck + len ids > MaxRetentionSnapshotSummaries"
      using ck map_of_SomeD by fastforce
  qed
  then show ?thesis
    unfolding over_capacity_def fits_def chats dom_sview_card [OF mem st] by (auto simp: not_less not_le)
qed

text \<open>What a write does to the chats: every chat that got new messages advances through them in batch order.\<close>

definition chat_at :: "memory \<Rightarrow> string \<Rightarrow> chat option" where
  "chat_at mem ck = map_option mc_chat (map_of (mem_chats mem) ck)"

definition advanced_to :: "memory \<Rightarrow> bool \<Rightarrow> message list \<Rightarrow> string \<Rightarrow> chat option" where
  "advanced_to mem b ms ck =
     (if in_chat ck ms = [] then chat_at mem ck else Some (foldl (advance_one mem b) (base_chat mem [] ck) (in_chat ck ms)))"

definition event_of :: "message_view \<Rightarrow> message \<Rightarrow> live_event \<Rightarrow> bool" where
  "event_of V m e \<longleftrightarrow> wf_live e \<and> V (chat_key m) (message_key m) = Some (live_message e)"

definition wf_batch :: "write_batch \<Rightarrow> bool" where
  "wf_batch b \<longleftrightarrow> (\<forall>m \<in> set (batch_messages b). wf_message m) \<and> len (batch_messages b) \<le> MaxWriteBatchMessages
     \<and> validateWriteOrigin (batch_origin b) = None"

lemma commit_all_chat_at:
  assumes st: "wf_staging mem st" and ready: "commit_ready mem st sc" and sc: "map_of sc = chats_after mem b [] ms"
    and new: "\<forall>ck \<in> set (stg_newChats st). in_chat ck ms \<noteq> []" and old: "\<forall>m \<in> set ms. staged_of st (chat_key m) \<noteq> []"
  shows "chat_at (commit_all mem st sc) ck = advanced_to mem b ms ck"
proof (cases "in_chat ck ms = []")
  case True
  then have "ck \<notin> set (stg_newChats st)" "map_of sc ck = None" using new by (auto simp: sc chats_after_def)
  then show ?thesis
    using True by (simp add: chat_at_def advanced_to_def commit_all_map [OF ready] committed_base_def committed_chat_def option.map_comp comp_def)
next
  case False
  then obtain m where "m \<in> set ms" "chat_key m = ck" by (auto simp: in_chat_def filter_empty_conv)
  then have "staged_of st ck \<noteq> []" using old by blast
  then obtain cur where "committed_base mem st ck = Some cur"
    using wf_staging_facts(5) [OF st, of ck] by (cases "map_of (mem_chats mem) ck") (auto simp: committed_base_def)
  then show ?thesis
    using False by (simp add: chat_at_def advanced_to_def commit_all_map [OF ready] committed_chat_def set_chat_def sc chats_after_def)
qed

lemma inserted_messages_subset: "set (inserted_messages (zip ms bs)) \<subseteq> set ms"
  by (auto simp: inserted_messages_def dest: set_zip_leftD)

lemma inserted_messages_length: "length (inserted_messages (zip ms bs)) \<le> length ms"
  unfolding inserted_messages_def by (metis length_filter_le length_map length_zip min.cobounded1 order_trans)

definition write_post :: "memory \<Rightarrow> bool \<Rightarrow> bool \<Rightarrow> message list \<Rightarrow> message_view \<Rightarrow> memory \<Rightarrow> live_event list \<Rightarrow> bool" where
  "write_post mem b emit ms V mem' ev \<longleftrightarrow>
     (let new = inserted_messages (zip ms (inserted_flags (view mem) ms)) in
      wf_memory mem' \<and> view mem' = cleared V \<and> chat_at mem' = advanced_to mem b new
      \<and> (if emit then list_all2 (event_of V) new ev else ev = []))"

lemma inserted_empty [simp]: "stg_inserted empty_staging = []"
  by (simp add: empty_staging_def)

lemma writeBatch_step:
  assumes mem: "wf_memory mem" and ms: "\<forall>m \<in> set ms. wf_message m" "len ms \<le> MaxWriteBatchMessages"
    and V: "apply_messages (view mem) ms = Some V" and fits: "fits mem ms V"
  shows "\<exists>st sc ev. stage_all mem empty_staging ms = Inr st \<and> \<not> over_capacity mem st
    \<and> advance_all mem st b emit (zip ms (stg_inserted st)) [] [] = Inr (sc, ev) \<and> NewLiveEventBatch ev = Inr ev
    \<and> write_post mem b emit ms V (commit_all mem st sc) ev"
proof -
  obtain st where st: "stage_all mem empty_staging ms = Inr st" "wf_staging mem st" "sview mem st = V"
    "stg_inserted st = inserted_flags (view mem) ms"
    using stage_all_ok [OF mem wf_staging_empty ms(1)] V by (auto simp: sview_empty)
  define new where "new = inserted_messages (zip ms (stg_inserted st))"
  have cap: "\<not> over_capacity mem st" using over_capacity_fits [OF mem st(1,2)] fits st(3) by simp
  have staged: "\<exists>m'. map_of (staged_of st (chat_key m)) (message_key m) = Some m'" if "m \<in> set ms" for m
    using stage_all_staged [OF st(1)] that by blast
  have committable: "committable st m" if m: "m \<in> set ms" for m
  proof -
    obtain m' where m': "map_of (staged_of st (chat_key m)) (message_key m) = Some m'" using staged [OF m] by blast
    then have "V (chat_key m) (message_key m) = Some m'" by (simp add: sview_def flip: st(3))
    then have "same_place m' m" using apply_messages_places [OF view_wf_view [OF mem] ms(1) V] m by fastforce
    then show ?thesis using m ms(1) m' wf_staging_facts(3) [OF st(2) m'] same_place_keys by (auto simp: committable_def)
  qed
  have "\<forall>p \<in> set (zip ms (stg_inserted st)). committable st (fst p)"
    using committable set_zip_leftD by fastforce
  from advance_all_ok [OF mem _ this, of "[]" b emit "[]"]
  obtain sc ev where sc: "advance_all mem st b emit (zip ms (stg_inserted st)) [] [] = Inr (sc, ev)" "wf_staged_chats sc"
    "map_of sc = chats_after mem b [] new" "if emit then list_all2 (event_for st) new ev else ev = []"
    by (auto simp: wf_staged_chats_def new_def)
  have new_sub: "set new \<subseteq> set ms" and new_len: "length new \<le> length ms"
    using inserted_messages_subset inserted_messages_length by (auto simp: new_def)
  have new_chat: "in_chat ck new \<noteq> []" if "ck \<in> set (stg_newChats st)" for ck
  proof -
    have ck: "map_of (mem_chats mem) ck = None" "staged_of st ck \<noteq> []" using that wf_staging_facts(5) [OF st(2)] by blast+
    then obtain mk where "map_of (staged_of st ck) mk \<noteq> None" by (metis map_of_eq_empty_iff not_None_eq ext)
    then have "V ck mk \<noteq> None" by (auto simp: sview_def simp flip: st(3))
    moreover have "view mem ck mk = None" using ck by (simp add: view_def)
    ultimately show ?thesis
      using inserted_of_new [OF V view_wf_view [OF mem] ms(1)] unfolding new_def st(4) in_chat_def filter_empty_conv by blast
  qed
  have ready: "commit_ready mem st sc"
    using st(2) cap sc(2,3) new_chat by (auto simp: commit_ready_def chats_after_def)
  have ev: "(\<forall>e \<in> set ev. wf_live e) \<and> len ev \<le> MaxLiveEventsPerCommit"
  proof (cases emit)
    case True
    then have l: "list_all2 (event_for st) new ev" using sc(4) by simp
    then have "length ev = length new" by (rule list_all2_lengthD [symmetric])
    moreover have "\<forall>e \<in> set ev. wf_live e" using l by (auto simp: list_all2_conv_all_nth in_set_conv_nth event_for_def)
    ultimately show ?thesis using new_len ms(2) by (simp add: MaxLiveEventsPerCommit_def)
  next
    case False
    then show ?thesis using sc(4) by (simp add: MaxLiveEventsPerCommit_def MaxWriteBatchMessages_def)
  qed
  have events: "if emit then list_all2 (event_of V) new ev else ev = []"
    using sc(4) by (auto simp: st(3) [symmetric] sview_def event_for_def event_of_def elim!: list_all2_mono split: if_splits)
  have "\<forall>m \<in> set new. staged_of st (chat_key m) \<noteq> []" using staged new_sub by fastforce
  then have "chat_at (commit_all mem st sc) = advanced_to mem b new"
    using commit_all_chat_at [OF st(2) ready sc(3)] new_chat by (simp add: fun_eq_iff)
  then have "write_post mem b emit ms V (commit_all mem st sc) ev"
    using commit_all_wf [OF mem ready] commit_all_view [OF mem ready] events
    unfolding write_post_def Let_def st(4) [symmetric] new_def [symmetric] st(3) by blast
  then show ?thesis using st(1) cap sc(1) NewLiveEventBatch_wf [of ev] ev by blast
qed

text \<open>Every write, on every branch: refused, out of room, or committed as a whole.\<close>

lemma writeBatch_cases:
  assumes mem: "wf_memory mem" and batch: "wf_batch batch" and ne: "batch_messages batch \<noteq> []"
  shows "case apply_messages (view mem) (batch_messages batch) of
      None \<Rightarrow> store_writeBatch LiveContext batch emit mem = (mem, Inl StoreRejected)
    | Some V \<Rightarrow>
        if fits mem (batch_messages batch) V
        then \<exists>mem' ev. store_writeBatch LiveContext batch emit mem = (mem', Inr ev)
          \<and> write_post mem (batch_origin batch = WriteRealtime) emit (batch_messages batch) V mem' ev
        else store_writeBatch LiveContext batch emit mem = (mem, Inl StoreCapacity)"
proof -
  let ?ms = "batch_messages batch"
  have ms: "\<forall>m \<in> set ?ms. wf_message m" "len ?ms \<le> MaxWriteBatchMessages" "validateWriteOrigin (batch_origin batch) = None"
    using batch by (simp_all add: wf_batch_def)
  note built = NewWriteBatch_wf [OF ms]
  have ctx: "checkContext LiveContext = None" by (simp add: checkContext_def)
  note staged = stage_all_ok [OF mem wf_staging_empty ms(1), unfolded sview_empty]
  show ?thesis
  proof (cases "apply_messages (view mem) ?ms")
    case None
    then show ?thesis using staged ne by (simp add: store_writeBatch_def ctx built)
  next
    case (Some V)
    then obtain st where st: "stage_all mem empty_staging ?ms = Inr st" "wf_staging mem st" "sview mem st = V"
      using staged by auto
    show ?thesis
    proof (cases "fits mem ?ms V")
      case True
      show ?thesis
        using writeBatch_step [OF mem ms(1,2) Some True, of "batch_origin batch = WriteRealtime" emit] ne Some True
        by (auto simp: store_writeBatch_def ctx built)
    next
      case False
      then show ?thesis using over_capacity_fits [OF mem st(1,2)] st ne Some by (simp add: store_writeBatch_def ctx built)
    qed
  qed
qed

lemma writeBatch_wf:
  assumes mem: "wf_memory mem" and batch: "wf_batch batch"
  shows "wf_memory (fst (store_writeBatch ctx batch emit mem))"
proof (cases "ctx = LiveContext \<and> batch_messages batch \<noteq> []")
  case True
  then show ?thesis
    using writeBatch_cases [OF mem batch, of emit] mem
    by (auto simp: write_post_def Let_def split: option.splits if_splits)
next
  case False
  then show ?thesis
    using mem batch by (cases ctx) (auto simp: store_writeBatch_def checkContext_def wf_batch_def NewWriteBatch_wf)
qed

lemma writeBatch_failed: "store_writeBatch ctx batch emit mem = (mem', Inl e) \<Longrightarrow> mem' = mem"
  by (auto simp: store_writeBatch_def Let_def split: option.splits sum.splits if_splits prod.splits)

section \<open>Unread counters and activity\<close>

text \<open>The counter after a realtime batch: one more for each new message of somebody else, up to the largest
  \<open>uint32\<close>, where it stays.\<close>

definition incoming :: "bool \<Rightarrow> message list \<Rightarrow> nat" where
  "incoming b ms = (if b then length (filter (\<lambda>m. \<not> msg_fromMe m) ms) else 0)"

lemma WithDisplay_unread [simp]:
  "chat_unreadCount (WithDisplayMetadata c d) = chat_unreadCount c" "chat_lastMessageAt (WithDisplayMetadata c d) = chat_lastMessageAt c"
  by (simp_all add: WithDisplayMetadata_def Let_def)

lemma unat_max_word32: "unat (u :: 32 word) \<le> 2 ^ 32 - 1" "unat (-1 :: 32 word) = 2 ^ 32 - 1"
  using unsigned_less [of u, where ?'a = nat] by (simp_all add: unsigned_minus_1_eq_mask mask_eq_exp_minus_1)

lemma advanced_unread_unat:
  "unat (advanced_unread b m u) = min (unat u + incoming b [m]) (2 ^ 32 - 1)"
proof (cases "b \<and> \<not> msg_fromMe m")
  case True
  show ?thesis
  proof (cases "u < -1")
    case lt: True
    then have "unat u < 2 ^ 32 - 1" using unat_max_word32(2) by (simp add: word_less_nat_alt)
    moreover from this have "unat (u + 1) = unat u + 1" by (simp add: unat_word_ariths)
    ultimately show ?thesis using True lt by (simp add: advanced_unread_def incoming_def)
  next
    case False
    then have "u = -1" by (simp add: not_less word_order.extremum_unique)
    then show ?thesis using unat_max_word32(2) by (simp add: advanced_unread_def incoming_def)
  qed
next
  case False
  then show ?thesis using unat_max_word32(1) [of u] by (auto simp: advanced_unread_def incoming_def)
qed

lemma advance_fold_unread:
  "unat (chat_unreadCount (foldl (advance_one mem b) c ms)) = min (unat (chat_unreadCount c) + incoming b ms) (2 ^ 32 - 1)"
proof (induction ms arbitrary: c)
  case Nil
  then show ?case using unat_max_word32(1) [of "chat_unreadCount c"] by (simp add: incoming_def)
next
  case (Cons m ms)
  have "incoming b (m # ms) = incoming b [m] + incoming b ms" by (simp add: incoming_def)
  then show ?case using Cons by (simp add: advance_one_def advanced_unread_unat)
qed

lemma advance_fold_activity:
  "chat_lastMessageAt (foldl (advance_one mem b) c ms) = foldl (\<lambda>t m. advanced_activity m t) (chat_lastMessageAt c) ms"
  by (induction ms arbitrary: c) (simp_all add: advance_one_def)

end
