(* ===== verification/Config.thy ===== *)
theory Config
  imports Prelude
begin

text \<open>
  The dependency-free configuration of \<open>internal/config/values.go\<close>: limits, defaults and the
  two-level validation (every value positive, aggregates without overflow, then ranges, then the
  cross-field bounds). A field name is its string; \<open>int\<close> and \<open>int64\<close> sums carry the
  overflow guards of the code.
\<close>

definition kibibyte :: int where "kibibyte = 2 ^ 10"
definition mebibyte :: int where "mebibyte = 2 ^ 20"
definition millisecond :: duration where "millisecond = 1000000"
definition day :: duration where "day = 24 * 3600 * 1000000000"
definition maxAggregateQueueBytes :: int where "maxAggregateQueueBytes = 13 * mebibyte div 2"
definition maxRetentionSummaries :: int where "maxRetentionSummaries = 551"

lemmas config_units = kibibyte_def mebibyte_def millisecond_def day_def maxAggregateQueueBytes_def
  maxRetentionSummaries_def

record queue_limit =
  limit_Entries :: int
  limit_Bytes :: int

record retention_config =
  cfg_MessagesPerChat :: int
  cfg_MaxAge :: duration
  cfg_CacheBytes :: int
  cfg_MaxChats :: int

record queues_config =
  cfg_Realtime :: queue_limit
  cfg_HistoryQueue :: queue_limit
  cfg_Commands :: queue_limit
  cfg_LiveWrites :: queue_limit
  cfg_HistoryWrites :: queue_limit
  cfg_ViewUpdates :: queue_limit
  cfg_LiveWriteBusy :: duration

record history_config =
  cfg_ChunkRecords :: int
  cfg_ChunkBytes :: int

record batch_config =
  cfg_MaxOperations :: int
  cfg_MaxWait :: duration

record config_values =
  cfg_Retention :: retention_config
  cfg_Queues :: queues_config
  cfg_History :: history_config
  cfg_Batch :: batch_config

datatype validation_rule = RequiredRule | OutOfRange | Overflow | AggregateExceeded

record config_error =
  ce_Field :: string
  ce_Rule :: validation_rule
  ce_Value :: int
  ce_Min :: int
  ce_Max :: int

definition config_newValidationError :: "string \<Rightarrow> validation_rule \<Rightarrow> int \<Rightarrow> int \<Rightarrow> int \<Rightarrow> config_error" where
  "config_newValidationError field rule val lo hi =
     \<lparr>ce_Field = field, ce_Rule = rule, ce_Value = val, ce_Min = lo, ce_Max = hi\<rparr>"

definition DefaultValues :: config_values where
  "DefaultValues = \<lparr>
     cfg_Retention = \<lparr>cfg_MessagesPerChat = 100, cfg_MaxAge = 90 * day, cfg_CacheBytes = 250 * mebibyte,
       cfg_MaxChats = 10000\<rparr>,
     cfg_Queues = \<lparr>
       cfg_Realtime = \<lparr>limit_Entries = 128, limit_Bytes = 2 * mebibyte\<rparr>,
       cfg_HistoryQueue = \<lparr>limit_Entries = 4, limit_Bytes = 512 * kibibyte\<rparr>,
       cfg_Commands = \<lparr>limit_Entries = 32, limit_Bytes = 512 * kibibyte\<rparr>,
       cfg_LiveWrites = \<lparr>limit_Entries = 128, limit_Bytes = mebibyte\<rparr>,
       cfg_HistoryWrites = \<lparr>limit_Entries = 256, limit_Bytes = 2 * mebibyte\<rparr>,
       cfg_ViewUpdates = \<lparr>limit_Entries = 64, limit_Bytes = 512 * kibibyte\<rparr>,
       cfg_LiveWriteBusy = 25 * millisecond\<rparr>,
     cfg_History = \<lparr>cfg_ChunkRecords = 32, cfg_ChunkBytes = 128 * kibibyte\<rparr>,
     cfg_Batch = \<lparr>cfg_MaxOperations = 50, cfg_MaxWait = 25 * millisecond\<rparr>\<rparr>"

record numeric_limit =
  nl_field :: string
  nl_value :: int
  nl_min :: int
  nl_max :: int

definition numericLimit :: "string \<Rightarrow> int \<Rightarrow> int \<Rightarrow> int \<Rightarrow> numeric_limit" where
  "numericLimit f v lo hi = \<lparr>nl_field = f, nl_value = v, nl_min = lo, nl_max = hi\<rparr>"

definition retention_limits :: "retention_config \<Rightarrow> numeric_limit list" where
  "retention_limits r =
    [numericLimit ''retention.messages_per_chat'' (cfg_MessagesPerChat r) 20 500,
     numericLimit ''retention.max_age'' (cfg_MaxAge r) day (365 * day),
     numericLimit ''retention.cache_bytes'' (cfg_CacheBytes r) (32 * mebibyte) (2048 * mebibyte),
     numericLimit ''retention.max_chats'' (cfg_MaxChats r) 100 10000]"

definition limitsFor :: "config_values \<Rightarrow> numeric_limit list" where
  "limitsFor v =
    (let q = cfg_Queues v in
     [numericLimit ''retention.messages_per_chat'' (cfg_MessagesPerChat (cfg_Retention v)) 20 500,
      numericLimit ''retention.max_age'' (cfg_MaxAge (cfg_Retention v)) day (365 * day),
      numericLimit ''retention.cache_bytes'' (cfg_CacheBytes (cfg_Retention v)) (32 * mebibyte) (2048 * mebibyte),
      numericLimit ''retention.max_chats'' (cfg_MaxChats (cfg_Retention v)) 100 10000,
      numericLimit ''queues.realtime.entries'' (limit_Entries (cfg_Realtime q)) 32 512,
      numericLimit ''queues.realtime.bytes'' (limit_Bytes (cfg_Realtime q)) (512 * kibibyte) (4 * mebibyte),
      numericLimit ''queues.history.entries'' (limit_Entries (cfg_HistoryQueue q)) 1 16,
      numericLimit ''queues.history.bytes'' (limit_Bytes (cfg_HistoryQueue q)) (128 * kibibyte) (2 * mebibyte),
      numericLimit ''queues.commands.entries'' (limit_Entries (cfg_Commands q)) 1 64,
      numericLimit ''queues.commands.bytes'' (limit_Bytes (cfg_Commands q)) (64 * kibibyte) mebibyte,
      numericLimit ''queues.live_writes.entries'' (limit_Entries (cfg_LiveWrites q)) 16 256,
      numericLimit ''queues.live_writes.bytes'' (limit_Bytes (cfg_LiveWrites q)) (256 * kibibyte) (2 * mebibyte),
      numericLimit ''queues.history_writes.entries'' (limit_Entries (cfg_HistoryWrites q)) 16 512,
      numericLimit ''queues.history_writes.bytes'' (limit_Bytes (cfg_HistoryWrites q)) (512 * kibibyte) (4 * mebibyte),
      numericLimit ''queues.view_updates.entries'' (limit_Entries (cfg_ViewUpdates q)) 64 64,
      numericLimit ''queues.view_updates.bytes'' (limit_Bytes (cfg_ViewUpdates q)) (128 * kibibyte) mebibyte,
      numericLimit ''queues.live_write_busy'' (cfg_LiveWriteBusy q) (5 * millisecond) (100 * millisecond),
      numericLimit ''history.chunk_records'' (cfg_ChunkRecords (cfg_History v)) 1 32,
      numericLimit ''history.chunk_bytes'' (cfg_ChunkBytes (cfg_History v)) (64 * kibibyte) (128 * kibibyte),
      numericLimit ''batch.max_operations'' (cfg_MaxOperations (cfg_Batch v)) 1 50,
      numericLimit ''batch.max_wait'' (cfg_MaxWait (cfg_Batch v)) (5 * millisecond) (100 * millisecond)])"

fun validatePositive :: "numeric_limit list \<Rightarrow> config_error option" where
  "validatePositive [] = None"
| "validatePositive (l # ls) =
     (if nl_value l = 0
      then Some (config_newValidationError (nl_field l) RequiredRule (nl_value l) (nl_min l) (nl_max l))
      else if nl_value l < 0
      then Some (config_newValidationError (nl_field l) OutOfRange (nl_value l) (nl_min l) (nl_max l))
      else validatePositive ls)"

fun range_loop :: "numeric_limit list \<Rightarrow> config_error option" where
  "range_loop [] = None"
| "range_loop (l # ls) =
     (if nl_value l < nl_min l \<or> nl_value l > nl_max l
      then Some (config_newValidationError (nl_field l) OutOfRange (nl_value l) (nl_min l) (nl_max l))
      else range_loop ls)"

definition validateRanges :: "numeric_limit list \<Rightarrow> config_error option" where
  "validateRanges ls = (case validatePositive ls of Some e \<Rightarrow> Some e | None \<Rightarrow> range_loop ls)"

definition retention_Validate :: "retention_config \<Rightarrow> config_error option" where
  "retention_Validate r = validateRanges (retention_limits r)"

definition checkedAddInt :: "int \<Rightarrow> int \<Rightarrow> int option" where
  "checkedAddInt left right =
     (if right > 0 \<and> left > max_int - right then None
      else if right < 0 \<and> left < (- max_int - 1) - right then None
      else Some (left + right))"

definition retentionSummaryRecords :: "int \<Rightarrow> int \<Rightarrow> config_error + int" where
  "retentionSummaryRecords messagesPerChat batchOperations =
     (case Option.bind (checkedAddInt messagesPerChat batchOperations) (\<lambda>sofar. checkedAddInt sofar 1) of
        None \<Rightarrow> Inl (config_newValidationError ''retention.summary_records'' Overflow max_int 1 maxRetentionSummaries)
      | Some sofar \<Rightarrow> Inr sofar)"

definition validateRetentionSummaryRecords :: "int \<Rightarrow> config_error option" where
  "validateRetentionSummaryRecords n =
     (if n \<le> maxRetentionSummaries then None
      else Some (config_newValidationError ''retention.summary_records'' AggregateExceeded n 1 maxRetentionSummaries))"

definition validateHistoryChunkCapacity :: "int \<Rightarrow> int \<Rightarrow> config_error option" where
  "validateHistoryChunkCapacity chunkBytes queueBytes =
     (if chunkBytes \<le> queueBytes then None
      else Some (config_newValidationError ''history.chunk_bytes'' AggregateExceeded chunkBytes (64 * kibibyte) queueBytes))"

fun add_budgets :: "int \<Rightarrow> int list \<Rightarrow> int option" where
  "add_budgets sofar [] = Some sofar"
| "add_budgets sofar (b # bs) =
     (case checkedAddInt sofar b of None \<Rightarrow> None | Some nxt \<Rightarrow> add_budgets nxt bs)"

definition queueBytesTotal :: "queues_config \<Rightarrow> config_error + int" where
  "queueBytesTotal q =
     (case add_budgets 0 [limit_Bytes (cfg_Realtime q), limit_Bytes (cfg_HistoryQueue q), limit_Bytes (cfg_Commands q),
         limit_Bytes (cfg_LiveWrites q), limit_Bytes (cfg_HistoryWrites q), limit_Bytes (cfg_ViewUpdates q)] of
        None \<Rightarrow> Inl (config_newValidationError ''queues.total_bytes'' Overflow max_int 1 maxAggregateQueueBytes)
      | Some n \<Rightarrow> Inr n)"

definition values_Validate :: "config_values \<Rightarrow> config_error + unit" where
  "values_Validate v =
     fail_if (validatePositive (limitsFor v)) (
     on_ok (retentionSummaryRecords (cfg_MessagesPerChat (cfg_Retention v)) (cfg_MaxOperations (cfg_Batch v))) (\<lambda>summaryRecords.
     on_ok (queueBytesTotal (cfg_Queues v)) (\<lambda>totalQueueBytes.
     fail_if (retention_Validate (cfg_Retention v)) (
     fail_if (validateRanges (drop 4 (limitsFor v))) (
     fail_if (validateRetentionSummaryRecords summaryRecords) (
     if totalQueueBytes > maxAggregateQueueBytes
     then Inl (config_newValidationError ''queues.total_bytes'' AggregateExceeded totalQueueBytes 1 maxAggregateQueueBytes)
     else
       fail_if (validateHistoryChunkCapacity (cfg_ChunkBytes (cfg_History v)) (limit_Bytes (cfg_HistoryQueue (cfg_Queues v)))) (
       let live = limit_Entries (cfg_LiveWrites (cfg_Queues v));
           hist = limit_Entries (cfg_HistoryWrites (cfg_Queues v));
           writeEntryLimit = (if hist < live then hist else live)
       in if cfg_MaxOperations (cfg_Batch v) > writeEntryLimit
          then Inl (config_newValidationError ''batch.max_operations'' AggregateExceeded (cfg_MaxOperations (cfg_Batch v)) 1 writeEntryLimit)
          else Inr ())))))))"

section \<open>Facts\<close>

lemma validatePositive_None: "validatePositive ls = None \<longleftrightarrow> (\<forall>l \<in> set ls. 0 < nl_value l)"
  by (induction ls) auto

lemma range_loop_None: "range_loop ls = None \<longleftrightarrow> (\<forall>l \<in> set ls. nl_min l \<le> nl_value l \<and> nl_value l \<le> nl_max l)"
  by (induction ls) auto

definition within :: "numeric_limit \<Rightarrow> bool" where
  "within l \<longleftrightarrow> 0 < nl_value l \<and> nl_min l \<le> nl_value l \<and> nl_value l \<le> nl_max l"

lemma validateRanges_None: "validateRanges ls = None \<longleftrightarrow> list_all within ls"
proof -
  have "validateRanges ls = None \<longleftrightarrow> validatePositive ls = None \<and> range_loop ls = None"
    by (simp add: validateRanges_def split: option.split)
  then show ?thesis by (auto simp: validatePositive_None range_loop_None within_def list_all_iff)
qed

lemma limitsFor_split: "limitsFor v = retention_limits (cfg_Retention v) @ drop 4 (limitsFor v)"
  by (simp add: limitsFor_def retention_limits_def Let_def)

lemma checkedAddInt_pos: "0 < a \<Longrightarrow> 0 < b \<Longrightarrow> checkedAddInt a b = (if a + b \<le> max_int then Some (a + b) else None)"
  by (auto simp: checkedAddInt_def)

text \<open>The bytes all queues may hold together.\<close>

definition total_queue_bytes :: "queues_config \<Rightarrow> int" where
  "total_queue_bytes q = limit_Bytes (cfg_Realtime q) + limit_Bytes (cfg_HistoryQueue q) + limit_Bytes (cfg_Commands q)
     + limit_Bytes (cfg_LiveWrites q) + limit_Bytes (cfg_HistoryWrites q) + limit_Bytes (cfg_ViewUpdates q)"

lemma add_budgets_eq:
  "0 \<le> sofar \<Longrightarrow> sofar \<le> max_int \<Longrightarrow> \<forall>b \<in> set bs. 0 < b \<Longrightarrow>
     add_budgets sofar bs = (if sofar + sum_list bs \<le> max_int then Some (sofar + sum_list bs) else None)"
proof (induction bs arbitrary: sofar)
  case (Cons b bs)
  have "0 \<le> sum_list bs" using Cons.prems by (intro sum_list_nonneg) force
  then show ?case using Cons by (auto simp: checkedAddInt_def algebra_simps split: option.split)
qed simp

lemma range_facts:
  assumes "list_all within (limitsFor v)"
  shows "20 \<le> cfg_MessagesPerChat (cfg_Retention v)" "cfg_MessagesPerChat (cfg_Retention v) \<le> 500"
    and "1 \<le> cfg_MaxOperations (cfg_Batch v)" "cfg_MaxOperations (cfg_Batch v) \<le> 50"
    and "cfg_ChunkBytes (cfg_History v) \<le> 131072" "131072 \<le> limit_Bytes (cfg_HistoryQueue (cfg_Queues v))"
    and "\<forall>q \<in> {cfg_Realtime, cfg_HistoryQueue, cfg_Commands, cfg_LiveWrites, cfg_HistoryWrites, cfg_ViewUpdates}.
      0 < limit_Bytes (q (cfg_Queues v)) \<and> limit_Bytes (q (cfg_Queues v)) \<le> 4194304"
  using assms by (simp_all add: limitsFor_def numericLimit_def within_def config_units Let_def)

lemma queueBytesTotal_eq:
  assumes "list_all within (limitsFor v)"
  shows "queueBytesTotal (cfg_Queues v) = Inr (total_queue_bytes (cfg_Queues v))"
proof -
  note b = range_facts(7) [OF assms]
  then have "total_queue_bytes (cfg_Queues v) \<le> max_int"
    by (simp add: total_queue_bytes_def max_int_def)
  then have "0 + sum_list [limit_Bytes (cfg_Realtime (cfg_Queues v)), limit_Bytes (cfg_HistoryQueue (cfg_Queues v)),
      limit_Bytes (cfg_Commands (cfg_Queues v)), limit_Bytes (cfg_LiveWrites (cfg_Queues v)),
      limit_Bytes (cfg_HistoryWrites (cfg_Queues v)), limit_Bytes (cfg_ViewUpdates (cfg_Queues v))] \<le> max_int"
    by (simp add: total_queue_bytes_def)
  from add_budgets_eq [of 0, OF _ _ _] this b show ?thesis
    by (simp add: queueBytesTotal_def total_queue_bytes_def max_int_def del: add_budgets.simps)
qed

lemma retentionSummaryRecords_eq:
  assumes "list_all within (limitsFor v)"
  shows "retentionSummaryRecords (cfg_MessagesPerChat (cfg_Retention v)) (cfg_MaxOperations (cfg_Batch v))
    = Inr (cfg_MessagesPerChat (cfg_Retention v) + cfg_MaxOperations (cfg_Batch v) + 1)"
  using range_facts(1-4) [OF assms] by (simp add: retentionSummaryRecords_def checkedAddInt_def max_int_def)

text \<open>Two of the aggregate checks can no longer fail once every range holds.\<close>

lemma aggregate_checks_pass:
  assumes "list_all within (limitsFor v)"
  shows "validateRetentionSummaryRecords (cfg_MessagesPerChat (cfg_Retention v) + cfg_MaxOperations (cfg_Batch v) + 1) = None"
    and "validateHistoryChunkCapacity (cfg_ChunkBytes (cfg_History v)) (limit_Bytes (cfg_HistoryQueue (cfg_Queues v))) = None"
  using range_facts(1-6) [OF assms]
  by (simp_all add: validateRetentionSummaryRecords_def validateHistoryChunkCapacity_def maxRetentionSummaries_def)

definition values_ok :: "config_values \<Rightarrow> bool" where
  "values_ok v \<longleftrightarrow> list_all within (limitsFor v) \<and> total_queue_bytes (cfg_Queues v) \<le> maxAggregateQueueBytes
     \<and> cfg_MaxOperations (cfg_Batch v) \<le> limit_Entries (cfg_LiveWrites (cfg_Queues v))
     \<and> cfg_MaxOperations (cfg_Batch v) \<le> limit_Entries (cfg_HistoryWrites (cfg_Queues v))"

lemma values_Validate_ranges: "values_Validate v = Inr () \<Longrightarrow> list_all within (limitsFor v)"
  by (subst limitsFor_split)
    (auto simp: values_Validate_def retention_Validate_def validateRanges_None)

lemma values_Validate_iff: "values_Validate v = Inr () \<longleftrightarrow> values_ok v"
proof (cases "list_all within (limitsFor v)")
  case True
  then have "list_all within (retention_limits (cfg_Retention v))" "list_all within (drop 4 (limitsFor v))"
    using limitsFor_split [of v] by (metis list_all_append)+
  moreover have "validatePositive (limitsFor v) = None"
    using True by (auto simp: validatePositive_None list_all_iff within_def)
  ultimately show ?thesis
    using True by (auto simp: values_Validate_def retention_Validate_def validateRanges_None queueBytesTotal_eq
        retentionSummaryRecords_eq aggregate_checks_pass values_ok_def Let_def)
next
  case False
  then show ?thesis using values_Validate_ranges by (auto simp: values_ok_def)
qed

section \<open>Properties\<close>

text \<open>C14: Validation accepts exactly the configurations whose every field is in its range, whose queues fit the aggregate
  byte limit and whose write queues hold a whole batch; the defaults are such a configuration.\<close>

theorem config_validate_exact:
  "values_Validate v = Inr () \<longleftrightarrow>
     (\<forall>l \<in> set (limitsFor v). nl_min l \<le> nl_value l \<and> nl_value l \<le> nl_max l)
     \<and> total_queue_bytes (cfg_Queues v) \<le> maxAggregateQueueBytes
     \<and> cfg_MaxOperations (cfg_Batch v) \<le> limit_Entries (cfg_LiveWrites (cfg_Queues v))
     \<and> cfg_MaxOperations (cfg_Batch v) \<le> limit_Entries (cfg_HistoryWrites (cfg_Queues v))"
proof -
  have "\<forall>l \<in> set (limitsFor v). 0 < nl_min l"
    by (simp add: limitsFor_def Let_def retention_limits_def numericLimit_def day_def kibibyte_def mebibyte_def millisecond_def)
  then have "list_all within (limitsFor v) \<longleftrightarrow> (\<forall>l \<in> set (limitsFor v). nl_min l \<le> nl_value l \<and> nl_value l \<le> nl_max l)"
    by (fastforce simp: list_all_iff within_def)
  then show ?thesis by (simp add: values_Validate_iff values_ok_def)
qed

theorem config_validate_exact_witness: "values_Validate DefaultValues = Inr ()"
  by (simp add: config_validate_exact) (code_simp)

text \<open>Once every field is in its range, the two aggregate checks on retained summaries and on the history chunk can
  no longer fail: they are implied by the ranges.\<close>

theorem config_aggregate_checks_implied:
  assumes "validateRanges (limitsFor v) = None"
  shows "\<exists>records. retentionSummaryRecords (cfg_MessagesPerChat (cfg_Retention v)) (cfg_MaxOperations (cfg_Batch v)) = Inr records
      \<and> validateRetentionSummaryRecords records = None \<and> records \<le> maxRetentionSummaries
      \<and> validateHistoryChunkCapacity (cfg_ChunkBytes (cfg_History v)) (limit_Bytes (cfg_HistoryQueue (cfg_Queues v))) = None"
  using assms aggregate_checks_pass [of v] retentionSummaryRecords_eq [of v] range_facts(2,4) [of v]
  by (auto simp: validateRanges_None maxRetentionSummaries_def)

theorem config_aggregate_checks_implied_witness:
  "validateHistoryChunkCapacity (cfg_ChunkBytes (cfg_History DefaultValues)) (limit_Bytes (cfg_HistoryQueue (cfg_Queues DefaultValues))) = None"
proof -
  have "validateRanges (limitsFor DefaultValues) = None" by code_simp
  then show ?thesis using config_aggregate_checks_implied by blast
qed

end
