(* ===== verification/Policy.thy ===== *)
theory Policy
  imports Retention Config
begin

text \<open>
  The retention policy of \<open>internal/syncpolicy/policy.go\<close>: the decision for one incoming message and the
  bounded prune plan for one chat. A nil \<open>*Policy\<close> is \<open>None\<close>. The fixed arrays of \<open>PlanPrune\<close>
  are the lists of their used parts; \<open>oldestDeleted\<close> with \<open>hasDeleted\<close> is an option.
\<close>

record policy =
  pol_messagesPerChat :: int
  pol_maxAge :: duration
  pol_cacheBytes :: int

definition policy_New :: "retention_config \<Rightarrow> config_error + policy" where
  "policy_New r =
     fail_if (retention_Validate r)
       (Inr \<lparr>pol_messagesPerChat = cfg_MessagesPerChat r, pol_maxAge = cfg_MaxAge r, pol_cacheBytes = cfg_CacheBytes r\<rparr>)"

definition policy_validate :: "policy option \<Rightarrow> model_error option" where
  "policy_validate p =
     (case p of
        None \<Rightarrow> Some (ValidationError Required ''retention_policy'' 0)
      | Some p \<Rightarrow>
          if pol_messagesPerChat p \<le> 0 \<or> pol_maxAge p \<le> 0 \<or> pol_cacheBytes p \<le> 0
          then Some (ValidationError Required ''retention_policy'' 0) else None)"

definition validateMessageIdentity :: "message \<Rightarrow> model_error + unit" where
  "validateMessageIdentity m =
     on_ok (NewChatID (chat_key m)) (\<lambda>_.
     on_ok (NewMessageID (message_key m)) (\<lambda>_.
     if msg_sentAt m = 0 then Inl (ValidationError Required ''sent_at'' 0) else Inr ()))"

definition validateState :: "retention_state \<Rightarrow> model_error option" where
  "validateState st =
     (if rst_Now st = 0 then Some (ValidationError Required ''retention_now'' 0)
      else if rst_NewerBodies st < 0 then Some (ValidationError InvalidValue ''newer_bodies'' 0)
      else case usage_Validate (rst_Usage st) of
        Some e \<Rightarrow> Some e
      | None \<Rightarrow>
          if rst_Origin st = WriteRealtime \<or> rst_Origin st = WriteHistory then None
          else if rst_Origin st = 0 then Some (ValidationError Required ''write_origin'' 0)
          else Some (ValidationError InvalidValue ''write_origin'' 0))"

definition validate_summary :: "chat_id \<Rightarrow> summary \<Rightarrow> model_error + unit" where
  "validate_summary chatID s =
     on_ok (NewChatID (chat_id_value (sum_chatID s))) (\<lambda>_.
     if chat_id_value (sum_chatID s) \<noteq> chat_id_value chatID then Inl (ValidationError InvalidValue ''summary_chat_id'' 0)
     else
       on_ok (NewMessageID (message_id_value (sum_messageID s))) (\<lambda>_.
       if sum_sentAt s = 0 then Inl (ValidationError Required ''sent_at'' 0)
       else if sum_bodyBytes s < 0 \<or> sum_bodyBytes s > MaxRetainedTextBytes
         \<or> \<not> sum_bodyRetained s \<and> sum_bodyBytes s \<noteq> 0
       then Inl (ValidationError InvalidValue ''body_bytes'' MaxRetainedTextBytes)
       else Inr ()))"

definition validateSnapshot :: "snapshot \<Rightarrow> model_error + unit" where
  "validateSnapshot p =
     on_ok (NewChatID (chat_id_value (snap_chatID p))) (\<lambda>chatID.
     if len (snap_summaries p) > MaxRetentionSnapshotSummaries
     then Inl (ValidationError SizeExceeded ''retention_snapshot_summaries'' MaxRetentionSnapshotSummaries)
     else
       on_ok (map_ok (validate_summary chatID) (snap_summaries p)) (\<lambda>_.
       if snap_hasAnchor p
       then
         on_ok (NewMessageAnchor (anchor_chatID (snap_anchor p)) (anchor_messageID (snap_anchor p))
           (anchor_sentAt (snap_anchor p)) (anchor_fromMe (snap_anchor p))) (\<lambda>owned.
         if chat_id_value (anchor_chatID owned) \<noteq> chat_id_value chatID
         then Inl (ValidationError InvalidValue ''anchor_chat_id'' 0) else Inr ())
       else Inr ()))"

section \<open>Orders\<close>

definition summaryNewer :: "summary \<Rightarrow> summary \<Rightarrow> bool" where
  "summaryNewer left right =
     (if sum_sentAt left = sum_sentAt right
      then message_id_value (sum_messageID left) > message_id_value (sum_messageID right)
      else sum_sentAt left > sum_sentAt right)"

definition summaryOlder :: "summary \<Rightarrow> summary \<Rightarrow> bool" where
  "summaryOlder left right =
     (if sum_sentAt left = sum_sentAt right
      then message_id_value (sum_messageID left) < message_id_value (sum_messageID right)
      else sum_sentAt left < sum_sentAt right)"

definition anchorOlder :: "anchor \<Rightarrow> anchor \<Rightarrow> bool" where
  "anchorOlder left right =
     (if anchor_sentAt left = anchor_sentAt right
      then message_id_value (anchor_messageID left) < message_id_value (anchor_messageID right)
      else anchor_sentAt left < anchor_sentAt right)"

section \<open>Decisions\<close>

definition policy_Decide :: "policy option \<Rightarrow> message \<Rightarrow> retention_state \<Rightarrow> model_error + decision" where
  "policy_Decide policy m st =
     on_ok (validateMessageIdentity m) (\<lambda>_.
     fail_if (policy_validate policy) (
     fail_if (validateState st) (
     let cutoff = rst_Now st - pol_maxAge (the policy) in
     if msg_sentAt m < cutoff then NewRetentionDecision KeepMetadata RetentionTooOld
     else if rst_NewerBodies st \<ge> pol_messagesPerChat (the policy)
     then NewRetentionDecision KeepMetadata RetentionMessageCountLimit
     else if rst_Origin st = WriteHistory \<and> use_estimatedBytes (rst_Usage st) \<ge> pol_cacheBytes (the policy)
     then NewRetentionDecision KeepMetadata RetentionCacheLimit
     else NewRetentionDecision KeepBody RetentionEligible)))"

fun prune_loop :: "policy \<Rightarrow> instant \<Rightarrow> summary list \<Rightarrow> int \<Rightarrow> message_id list \<Rightarrow> summary option
    \<Rightarrow> message_id list \<times> summary option" where
  "prune_loop policy cutoff [] keptBodies deleteIDs oldestDeleted = (deleteIDs, oldestDeleted)"
| "prune_loop policy cutoff (s # work) keptBodies deleteIDs oldestDeleted =
     (let remove = (\<not> sum_bodyRetained s \<or> sum_sentAt s < cutoff) in
      if \<not> remove \<and> keptBodies < pol_messagesPerChat policy
      then prune_loop policy cutoff work (keptBodies + 1) deleteIDs oldestDeleted
      else prune_loop policy cutoff work keptBodies (deleteIDs @ [sum_messageID s])
        (case oldestDeleted of
           None \<Rightarrow> Some s
         | Some old \<Rightarrow> if summaryOlder s old then Some s else Some old))"

definition policy_PlanPrune :: "policy option \<Rightarrow> snapshot \<Rightarrow> retention_state \<Rightarrow> model_error + prune_plan" where
  "policy_PlanPrune policy p st =
     fail_if (policy_validate policy) (
     fail_if (validateState st) (
     on_ok (validateSnapshot p) (\<lambda>_.
     let work = sort_slice summaryNewer (snap_summaries p);
         cutoff = rst_Now st - pol_maxAge (the policy);
         (deleteIDs, oldestDeleted) = prune_loop (the policy) cutoff work 0 [] None
     in
       on_ok (case oldestDeleted of
           None \<Rightarrow> Inr None
         | Some old \<Rightarrow>
             on_ok (NewMessageAnchor (sum_chatID old) (sum_messageID old) (sum_sentAt old) (sum_fromMe old)) (\<lambda>candidate.
             Inr (if \<not> snap_hasAnchor p \<or> anchorOlder candidate (snap_anchor p) then Some candidate else None)))
         (\<lambda>replacement. NewPrunePlan (snap_chatID p) deleteIDs replacement))))"

section \<open>Validation facts\<close>

definition wf_policy :: "policy \<Rightarrow> bool" where
  "wf_policy p \<longleftrightarrow> 0 < pol_messagesPerChat p \<and> 0 < pol_maxAge p \<and> 0 < pol_cacheBytes p"

definition wf_state :: "retention_state \<Rightarrow> bool" where
  "wf_state st \<longleftrightarrow> rst_Now st \<noteq> 0 \<and> 0 \<le> rst_NewerBodies st \<and> wf_usage (rst_Usage st)
     \<and> (rst_Origin st = WriteRealtime \<or> rst_Origin st = WriteHistory)"

lemma policy_validate_None [simp]: "policy_validate p = None \<longleftrightarrow> (\<exists>q. p = Some q \<and> wf_policy q)"
  by (cases p) (auto simp: policy_validate_def wf_policy_def)

lemma validateState_None [simp]: "validateState st = None \<longleftrightarrow> wf_state st"
  by (cases "usage_Validate (rst_Usage st)")
    (auto simp: validateState_def wf_state_def WriteRealtime_def WriteHistory_def simp flip: usage_Validate_None)

lemma policy_New_wf: "policy_New r = Inr p \<Longrightarrow> wf_policy p"
  by (auto simp: policy_New_def retention_Validate_def validateRanges_None retention_limits_def numericLimit_def
      within_def wf_policy_def)

lemma validate_summary_iff: "validate_summary c s = Inr u \<longleftrightarrow> wf_summary s \<and> sum_chatID s = c"
  by (auto simp: validate_summary_def wf_summary_def chat_id_eq_iff)

lemma map_ok_unit: "map_ok f xs = Inr (us :: unit list) \<longleftrightarrow> (\<forall>x \<in> set xs. f x = Inr ()) \<and> length us = length xs"
  by (induction xs arbitrary: us) (auto simp: length_Suc_conv)

lemma validateSnapshot_wf: "wf_snapshot p \<Longrightarrow> validateSnapshot p = Inr ()"
  by (auto simp: validateSnapshot_def wf_snapshot_def map_ok_unit validate_summary_iff NewMessageAnchor_eq_Inr
      wf_anchor_def Ex_list_of_length split: if_splits)

lemma validateSnapshot_iff:
  "validateSnapshot p = Inr () \<longleftrightarrow> valid_identifier (chat_id_value (snap_chatID p))
     \<and> len (snap_summaries p) \<le> MaxRetentionSnapshotSummaries
     \<and> (\<forall>s \<in> set (snap_summaries p). wf_summary s \<and> sum_chatID s = snap_chatID p)
     \<and> (snap_hasAnchor p \<longrightarrow> wf_anchor (snap_anchor p) \<and> anchor_chatID (snap_anchor p) = snap_chatID p)"
  by (auto simp: validateSnapshot_def map_ok_unit validate_summary_iff NewMessageAnchor_eq_Inr wf_anchor_def
      chat_id_eq_iff Ex_list_of_length)

section \<open>The three comparisons are one order\<close>

definition summary_recency :: "summary \<Rightarrow> recency" where
  "summary_recency s = Recency (sum_sentAt s) (message_id_value (sum_messageID s))"

definition anchor_recency :: "anchor \<Rightarrow> recency" where
  "anchor_recency a = Recency (anchor_sentAt a) (message_id_value (anchor_messageID a))"

lemma summaryNewer_recency: "summaryNewer s t \<longleftrightarrow> summary_recency s < summary_recency t"
  by (auto simp: summaryNewer_def summary_recency_def less_recency_def)

lemma summaryOlder_recency: "summaryOlder s t \<longleftrightarrow> summary_recency t < summary_recency s"
  by (auto simp: summaryOlder_def summary_recency_def less_recency_def)

lemma anchorOlder_recency: "anchorOlder s t \<longleftrightarrow> anchor_recency t < anchor_recency s"
  by (auto simp: anchorOlder_def anchor_recency_def less_recency_def)

interpretation newest_first: key_order summaryNewer summary_recency
  by unfold_locales (rule summaryNewer_recency)

section \<open>What a plan removes\<close>

text \<open>A row is worth keeping when its body is retained and it is not older than the cutoff.\<close>

definition keepable :: "instant \<Rightarrow> summary \<Rightarrow> bool" where
  "keepable cutoff s \<longleftrightarrow> sum_bodyRetained s \<and> cutoff \<le> sum_sentAt s"

fun pruned :: "instant \<Rightarrow> int \<Rightarrow> summary list \<Rightarrow> summary list" where
  "pruned cutoff room [] = []"
| "pruned cutoff room (s # work) =
     (if keepable cutoff s \<and> 0 < room then pruned cutoff (room - 1) work else s # pruned cutoff room work)"

definition oldest_of :: "summary option \<Rightarrow> summary list \<Rightarrow> summary option" where
  "oldest_of prev ss = fold (\<lambda>s old. case old of None \<Rightarrow> Some s | Some o' \<Rightarrow> if summaryOlder s o' then Some s else Some o') ss prev"

lemma prune_loop_eq:
  "prune_loop q cutoff work kept dels old =
     (dels @ map sum_messageID (pruned cutoff (pol_messagesPerChat q - kept) work),
      oldest_of old (pruned cutoff (pol_messagesPerChat q - kept) work))"
proof (induction work arbitrary: kept dels old)
  case (Cons s work)
  show ?case using Cons by (auto simp: keepable_def oldest_of_def not_less diff_diff_eq)
qed (simp add: oldest_of_def)

lemma pruned_subset: "set (pruned cutoff room work) \<subseteq> set work"
  by (induction work arbitrary: room) auto

lemma pruned_iff:
  assumes "sorted_wrt summaryNewer work" "s \<in> set work"
  shows "s \<in> set (pruned cutoff room work) \<longleftrightarrow>
    \<not> (keepable cutoff s \<and> int (card {t \<in> set work. keepable cutoff t \<and> summaryNewer t s}) < room)"
  using assms
proof (induction work arbitrary: room)
  case (Cons w work)
  let ?before = "\<lambda>ws. {t \<in> set ws. keepable cutoff t \<and> summaryNewer t s}"
  have order: "summaryNewer w t \<and> \<not> summaryNewer t w" if "t \<in> set work" for t
    using Cons.prems(1) that by (auto simp: summaryNewer_recency)
  have w_notin: "w \<notin> set work" using order by (auto simp: summaryNewer_recency)
  show ?case
  proof (cases "s = w")
    case True
    then have "?before (w # work) = {}" using order by (auto simp: summaryNewer_recency)
    then have none: "card (?before (w # work)) = 0" by (simp only: card.empty)
    have "w \<notin> set (pruned cutoff r work)" for r using w_notin pruned_subset [of cutoff r work] by blast
    then show ?thesis unfolding none by (simp add: True)
  next
    case False
    then have s: "s \<in> set work" using Cons.prems(2) by simp
    then have split: "?before (w # work) = (if keepable cutoff w then insert w (?before work) else ?before work)"
      using order by auto
    have "w \<notin> ?before work" using w_notin by simp
    then have card: "int (card (?before (w # work))) = int (card (?before work)) + (if keepable cutoff w then 1 else 0)"
      unfolding split by simp
    have IH: "s \<in> set (pruned cutoff r work) \<longleftrightarrow> \<not> (keepable cutoff s \<and> int (card (?before work)) < r)" for r
      using Cons s by simp
    show ?thesis
    proof (cases "keepable cutoff w \<and> 0 < room")
      case True
      then have "s \<in> set (pruned cutoff room (w # work)) \<longleftrightarrow> s \<in> set (pruned cutoff (room - 1) work)" by simp
      then show ?thesis unfolding card IH using True by auto
    next
      case other: False
      then have "s \<in> set (pruned cutoff room (w # work)) \<longleftrightarrow> s \<in> set (pruned cutoff room work)"
        using False by auto
      then show ?thesis unfolding card IH using other by auto
    qed
  qed
qed simp

lemma oldest_of_None: "oldest_of old ss = None \<longleftrightarrow> old = None \<and> ss = []"
  by (induction ss arbitrary: old) (auto simp: oldest_of_def split: option.splits if_splits)

lemma oldest_of_Some:
  "oldest_of old ss = Some x \<Longrightarrow> x \<in> set_option old \<union> set ss
     \<and> (\<forall>y \<in> set_option old \<union> set ss. summary_recency y \<le> summary_recency x)"
proof (induction ss arbitrary: old)
  case (Cons s ss)
  define old' where "old' = (case old of None \<Rightarrow> s | Some o' \<Rightarrow> if summaryOlder s o' then s else o')"
  have "oldest_of (Some old') ss = Some x"
    using Cons.prems by (cases old) (auto simp: oldest_of_def old'_def split: if_splits)
  then have IH: "x \<in> insert old' (set ss)" "\<forall>y \<in> insert old' (set ss). summary_recency y \<le> summary_recency x"
    using Cons.IH by auto
  have "old' \<in> insert s (set_option old)" "\<forall>y \<in> insert s (set_option old). summary_recency y \<le> summary_recency old'"
    by (auto simp: old'_def summaryOlder_recency split: option.splits)
  note first = this
  show ?case
  proof (intro conjI ballI)
    show "x \<in> set_option old \<union> set (s # ss)" using IH(1) first(1) by auto
    fix y assume "y \<in> set_option old \<union> set (s # ss)"
    then consider "y \<in> insert s (set_option old)" | "y \<in> set ss" by auto
    then show "summary_recency y \<le> summary_recency x"
    proof cases
      case 1
      then have "summary_recency y \<le> summary_recency old'" using first(2) by blast
      also have "\<dots> \<le> summary_recency x" using IH(2) by blast
      finally show ?thesis .
    qed (use IH(2) in blast)
  qed
qed (auto simp: oldest_of_def)

text \<open>Messages of a chat have different recencies; that makes the sorted order the only one.\<close>

definition distinct_rows :: "summary list \<Rightarrow> bool" where
  "distinct_rows ss \<longleftrightarrow> distinct (map summary_recency ss)"

lemma sorted_rows:
  assumes "distinct_rows ss"
  shows "sorted_wrt summaryNewer (sort_slice summaryNewer ss)"
proof -
  have "distinct (map summary_recency (sort_slice summaryNewer ss))" using assms by (simp add: distinct_rows_def)
  then have "sorted_wrt (<) (map summary_recency (sort_slice summaryNewer ss))"
    using newest_first.sorted_sort_slice [of ss] by (simp add: strict_sorted_iff)
  then show ?thesis by (simp add: sorted_wrt_map flip: summaryNewer_recency)
qed

text \<open>The retained-body rows that survive: the newest ones, up to the configured count.\<close>

definition survives :: "policy \<Rightarrow> instant \<Rightarrow> summary list \<Rightarrow> summary \<Rightarrow> bool" where
  "survives q now ss s \<longleftrightarrow> keepable (now - pol_maxAge q) s
     \<and> int (card {t \<in> set ss. keepable (now - pol_maxAge q) t \<and> summaryNewer t s}) < pol_messagesPerChat q"

definition plan_rows :: "policy \<Rightarrow> instant \<Rightarrow> summary list \<Rightarrow> summary list" where
  "plan_rows q now ss = pruned (now - pol_maxAge q) (pol_messagesPerChat q) (sort_slice summaryNewer ss)"

lemma plan_rows_set:
  assumes "distinct_rows ss"
  shows "set (plan_rows q now ss) = {s \<in> set ss. \<not> survives q now ss s}"
proof -
  have "s \<in> set (plan_rows q now ss) \<longleftrightarrow> \<not> survives q now ss s" if "s \<in> set ss" for s
    using pruned_iff [OF sorted_rows [OF assms], of s] that by (simp add: plan_rows_def survives_def)
  moreover have "set (plan_rows q now ss) \<subseteq> set ss"
    using pruned_subset [of _ _ "sort_slice summaryNewer ss"] by (simp add: plan_rows_def)
  ultimately show ?thesis by blast
qed

lemma pruned_length: "length (pruned c r ss) \<le> length ss"
  by (induction ss arbitrary: r) (auto simp: le_SucI)

lemma pruned_count:
  "0 \<le> room \<Longrightarrow> int (length (pruned c room ss)) = len ss - min room (len (filter (keepable c) ss))"
  by (induction ss arbitrary: room) auto

lemma plan_rows_count:
  assumes "wf_policy q"
  shows "int (length (plan_rows q now ss)) =
    len ss - min (pol_messagesPerChat q) (len (filter (keepable (now - pol_maxAge q)) ss))"
proof -
  have "mset (filter (keepable (now - pol_maxAge q)) (sort_slice summaryNewer ss)) = mset (filter (keepable (now - pol_maxAge q)) ss)"
    by simp
  then have "length (filter (keepable (now - pol_maxAge q)) (sort_slice summaryNewer ss)) = length (filter (keepable (now - pol_maxAge q)) ss)"
    by (metis size_mset)
  then show ?thesis using assms by (simp add: plan_rows_def pruned_count wf_policy_def)
qed

definition plan_anchor :: "summary \<Rightarrow> anchor" where
  "plan_anchor s = \<lparr>anchor_chatID = sum_chatID s, anchor_messageID = sum_messageID s, anchor_sentAt = sum_sentAt s,
     anchor_fromMe = sum_fromMe s\<rparr>"

definition plan_replacement_for :: "snapshot \<Rightarrow> summary list \<Rightarrow> anchor option" where
  "plan_replacement_for p rows =
     (case oldest_of None rows of
        None \<Rightarrow> None
      | Some old \<Rightarrow> if \<not> snap_hasAnchor p \<or> anchorOlder (plan_anchor old) (snap_anchor p) then Some (plan_anchor old) else None)"

lemma PlanPrune_eq:
  assumes "wf_policy q" "wf_state st" "validateSnapshot p = Inr ()"
  defines "rows \<equiv> plan_rows q (rst_Now st) (snap_summaries p)"
  shows "policy_PlanPrune (Some q) p st =
    NewPrunePlan (snap_chatID p) (map sum_messageID rows) (plan_replacement_for p rows)"
    and "is_ok (policy_PlanPrune (Some q) p st)"
proof -
  have valid: "policy_validate (Some q) = None" "validateState st = None" using assms(1,2) by simp_all
  have rows_wf: "wf_summary s \<and> sum_chatID s = snap_chatID p" if "s \<in> set rows" for s
    using that assms(3) pruned_subset [of _ _ "sort_slice summaryNewer (snap_summaries p)"]
    by (auto simp: rows_def plan_rows_def validateSnapshot_iff)
  have anchor: "NewMessageAnchor (sum_chatID s) (sum_messageID s) (sum_sentAt s) (sum_fromMe s) = Inr (plan_anchor s)
      \<and> wf_anchor (plan_anchor s) \<and> anchor_chatID (plan_anchor s) = snap_chatID p" if "s \<in> set rows" for s
    using rows_wf [OF that] by (auto simp: NewMessageAnchor_eq_Inr wf_summary_def plan_anchor_def wf_anchor_def)
  have old: "x \<in> set rows" if "oldest_of None rows = Some x" for x
    using oldest_of_Some [OF that] by simp
  show eq: "policy_PlanPrune (Some q) p st =
      NewPrunePlan (snap_chatID p) (map sum_messageID rows) (plan_replacement_for p rows)"
    using anchor old
    by (auto simp: policy_PlanPrune_def valid assms(3) prune_loop_eq plan_replacement_for_def Let_def
        simp flip: plan_rows_def rows_def split: option.split)
  have "length rows \<le> length (snap_summaries p)"
    using pruned_length [of _ _ "sort_slice summaryNewer (snap_summaries p)"] by (simp add: rows_def plan_rows_def)
  then have "len rows \<le> MaxPrunePlanDeletes"
    using assms(3) by (simp add: validateSnapshot_iff MaxRetentionSnapshotSummaries_def MaxPrunePlanDeletes_def)
  moreover have "case plan_replacement_for p rows of None \<Rightarrow> True | Some a \<Rightarrow> wf_anchor a \<and> anchor_chatID a = snap_chatID p"
    using anchor old by (auto simp: plan_replacement_for_def split: option.split)
  moreover have "valid_identifier (chat_id_value (snap_chatID p))"
    using assms(3) by (simp add: validateSnapshot_iff)
  moreover have "\<forall>i \<in> set (map sum_messageID rows). valid_identifier (message_id_value i)"
    using rows_wf by (auto simp: wf_summary_def)
  ultimately have "\<exists>pl. NewPrunePlan (snap_chatID p) (map sum_messageID rows) (plan_replacement_for p rows) = Inr pl"
    unfolding NewPrunePlan_eq_Inr
    by (intro exI [of _ "\<lparr>plan_chatID = snap_chatID p, plan_deleteIDs = map sum_messageID rows,
      plan_replacement = (case plan_replacement_for p rows of None \<Rightarrow> zero_anchor | Some a \<Rightarrow> a),
      plan_hasReplacement = (plan_replacement_for p rows \<noteq> None)\<rparr>"]) (auto split: option.splits)
  then show "is_ok (policy_PlanPrune (Some q) p st)" by (simp add: eq is_ok_iff)
qed

section \<open>Properties\<close>

text \<open>A decision for a valid message keeps the body unless the message is too old, enough newer bodies are kept
  already, or the message comes from history while the cache is full; the reasons are tried in that order, and a
  realtime message is never dropped for the cache.\<close>

theorem decide_reasons:
  assumes "wf_policy q" "wf_state st" "valid_identifier (chat_key m)" "valid_identifier (message_key m)" "msg_sentAt m \<noteq> 0"
  shows "\<exists>d. policy_Decide (Some q) m st = Inr d
    \<and> (dec_action d = KeepBody \<longleftrightarrow> dec_reason d = RetentionEligible)
    \<and> dec_action d \<in> {KeepBody, KeepMetadata}
    \<and> (dec_reason d = RetentionTooOld \<longleftrightarrow> msg_sentAt m < rst_Now st - pol_maxAge q)
    \<and> (dec_reason d = RetentionMessageCountLimit \<longleftrightarrow>
         rst_Now st - pol_maxAge q \<le> msg_sentAt m \<and> pol_messagesPerChat q \<le> rst_NewerBodies st)
    \<and> (dec_reason d = RetentionCacheLimit \<longleftrightarrow> rst_Now st - pol_maxAge q \<le> msg_sentAt m \<and> rst_NewerBodies st < pol_messagesPerChat q
         \<and> rst_Origin st = WriteHistory \<and> pol_cacheBytes q \<le> use_estimatedBytes (rst_Usage st))"
  using assms
  by (auto simp: policy_Decide_def validateMessageIdentity_def Let_def new_id_ok NewRetentionDecision_def
      validateRetentionAction_def validateRetentionReason_def retention_codes)


text \<open>Concrete values for the witnesses: one body may be kept, at most ten units old.\<close>

definition sample_policy :: policy where
  "sample_policy = \<lparr>pol_messagesPerChat = 1, pol_maxAge = 10, pol_cacheBytes = 1000\<rparr>"

definition sample_state :: retention_state where
  "sample_state = \<lparr>rst_Now = 20, rst_NewerBodies = 0, rst_Usage = zero_usage\<lparr>use_valid := True\<rparr>, rst_Origin = WriteHistory\<rparr>"

definition sample_summary :: "string \<Rightarrow> instant \<Rightarrow> summary" where
  "sample_summary mid t = \<lparr>sum_chatID = ChatID ''c'', sum_messageID = MessageID mid, sum_sentAt = t, sum_fromMe = False,
     sum_bodyRetained = True, sum_bodyBytes = 5\<rparr>"

definition sample_snapshot :: snapshot where
  "sample_snapshot = \<lparr>snap_chatID = ChatID ''c'', snap_summaries = [sample_summary ''m'' 15, sample_summary ''n'' 18],
     snap_anchor = zero_anchor, snap_hasAnchor = False\<rparr>"

lemma samples_wf: "wf_policy sample_policy" "wf_state sample_state"
  by (simp_all add: wf_policy_def sample_policy_def wf_state_def sample_state_def wf_usage_def zero_usage_def)

theorem decide_reasons_witness:
  "\<exists>d. policy_Decide (Some sample_policy) (sample_message ''c'' ''m'' 5) sample_state = Inr d \<and> dec_reason d = RetentionTooOld"
proof -
  have "valid_identifier ''c''" "valid_identifier ''m''" by (rule ascii_clean; simp add: ascii_eval)+
  then show ?thesis
    using decide_reasons [OF samples_wf, of "sample_message ''c'' ''m'' 5"]
    by (auto simp: sample_state_def sample_policy_def)
qed


end
