(* ===== verification/StoreRead.thy ===== *)
theory StoreRead
  imports StoreCommit Policy
begin

text \<open>
  Reading and pruning the in-memory store: every read is a function of the stored messages in one order, newest
  first; pages continue each other without gaps or repeats; a snapshot of a chat is always plannable; a prune
  removes what it lists and nothing else.
\<close>

definition message_recency :: "message \<Rightarrow> recency" where
  "message_recency m = Recency (msg_sentAt m) (message_key m)"

lemma store_newer_recency: "store_newer m n \<longleftrightarrow> message_recency m < message_recency n"
  by (auto simp: store_newer_def message_recency_def less_recency_def)

interpretation newest_message: key_order store_newer message_recency
  by unfold_locales (rule store_newer_recency)

definition cursor_recency :: "cursor \<Rightarrow> recency" where
  "cursor_recency c = Recency (cursor_sentAt c) (message_id_value (cursor_messageID c))"

lemma olderThan_recency: "olderThan m c \<longleftrightarrow> cursor_recency c < message_recency m"
  by (auto simp: olderThan_def message_recency_def cursor_recency_def less_recency_def)

section \<open>The rows of a chat\<close>

definition rows :: "memory \<Rightarrow> string \<Rightarrow> message list" where
  "rows mem ck = (case map_of (mem_chats mem) ck of None \<Rightarrow> [] | Some c \<Rightarrow> sort_slice store_newer (map snd (mc_messages c)))"

definition newest_first_rows :: "message list \<Rightarrow> bool" where
  "newest_first_rows ms \<longleftrightarrow> sorted_wrt (<) (map message_recency ms)"

lemma stored_recency_inj:
  assumes "wf_memory_chat k c"
  shows "distinct (map message_recency (map snd (mc_messages c)))"
proof -
  have key: "message_key (snd km) = fst km" if "km \<in> set (mc_messages c)" for km
    using assms that by (simp add: wf_memory_chat_def wf_stored_def)
  have "distinct (map fst (mc_messages c))" using assms by (simp add: wf_memory_chat_def)
  then have "distinct (map (message_key \<circ> snd) (mc_messages c))" using key by (simp add: distinct_map inj_on_def)
  then have "distinct (map (recency_name \<circ> (message_recency \<circ> snd)) (mc_messages c))" by (simp add: comp_def message_recency_def)
  then have "distinct (map (message_recency \<circ> snd) (mc_messages c))" by (metis distinct_map inj_on_imageI2 map_map)
  then show ?thesis by simp
qed

lemma rows_sorted: "wf_memory mem \<Longrightarrow> newest_first_rows (rows mem ck)"
proof (cases "map_of (mem_chats mem) ck")
  case (Some c)
  assume "wf_memory mem"
  note wf = chat_of [OF this Some]
  have "distinct (map message_recency (sort_slice store_newer (map snd (mc_messages c))))"
    unfolding distinct_sort_slice by (rule stored_recency_inj [OF wf])
  then show ?thesis
    using newest_message.sorted_sort_slice Some by (simp add: newest_first_rows_def rows_def strict_sorted_iff)
qed (simp add: newest_first_rows_def rows_def)

lemma rows_set: "wf_memory mem \<Longrightarrow> set (rows mem ck) = ran (view mem ck)"
  using chat_of [of mem ck] by (auto simp: rows_def view_def ran_distinct wf_memory_chat_def split: option.splits)

lemma rows_wf: "wf_memory mem \<Longrightarrow> m \<in> set (rows mem ck) \<Longrightarrow> wf_message m \<and> chat_key m = ck \<and> view mem ck (message_key m) = Some m"
  using view_wf by (fastforce simp: rows_set ran_def)

lemma rows_length: "wf_memory mem \<Longrightarrow> len (rows mem ck) \<le> MaxRetentionSnapshotSummaries"
  using chat_of [of mem ck] by (auto simp: rows_def wf_memory_chat_def MaxRetentionSnapshotSummaries_def split: option.splits)

text \<open>Two stores with the same messages have the same rows, whatever order their maps are walked in.\<close>

lemma newest_first_rows_unique: "newest_first_rows ms \<Longrightarrow> newest_first_rows ns \<Longrightarrow> set ms = set ns \<Longrightarrow> ms = ns"
proof -
  assume a: "newest_first_rows ms" "newest_first_rows ns" "set ms = set ns"
  then have "map message_recency ms = map message_recency ns"
    unfolding newest_first_rows_def by (intro strict_sorted_equal) simp_all
  moreover have "inj_on message_recency (set ms \<union> set ns)"
    using a by (simp add: newest_first_rows_def strict_sorted_iff distinct_map)
  ultimately show ?thesis by (metis map_inj_on)
qed

lemma rows_view: "wf_memory mem \<Longrightarrow> wf_memory mem' \<Longrightarrow> view mem ck = view mem' ck \<Longrightarrow> rows mem ck = rows mem' ck"
  by (rule newest_first_rows_unique) (simp_all add: rows_sorted rows_set)

section \<open>Pages\<close>

definition page_limit :: "int \<Rightarrow> nat" where
  "page_limit limit = nat (if limit > maxPageMessages then maxPageMessages else limit)"

definition row_cursor :: "message \<Rightarrow> cursor" where
  "row_cursor m = \<lparr>cursor_sentAt = msg_sentAt m, cursor_messageID = msg_messageID m\<rparr>"

definition older_rows :: "memory \<Rightarrow> string \<Rightarrow> cursor \<Rightarrow> message list" where
  "older_rows mem ck cur = filter (\<lambda>m. cursor_IsZero cur \<or> olderThan m cur) (rows mem ck)"

definition next_cursor :: "nat \<Rightarrow> message list \<Rightarrow> cursor" where
  "next_cursor n ms = (if n < length ms then row_cursor (last (take n ms)) else NoCursor)"

lemma filter_sort_slice: "filter P (sort_slice store_newer xs) = sort_slice store_newer (filter P xs)"
  by (simp add: newest_message.sort_slice_sort_key filter_sort)

lemma row_cursor_new: "wf_message m \<Longrightarrow> NewCursor (msg_sentAt m) (msg_messageID m) = Inr (row_cursor m)"
  by (simp add: NewCursor_eq_Inr row_cursor_def wf_message_def message_parts_ok_def)

lemma Page_eq:
  assumes wf: "wf_memory mem" and cid: "valid_identifier (chat_id_value cid)" and cur: "validateCursor cur" and limit: "0 < limit"
  shows "store_Page LiveContext cid cur limit mem =
    (let older = older_rows mem (chat_id_value cid) cur; n = page_limit limit in Inr (take n older, next_cursor n older))"
proof (cases "map_of (mem_chats mem) (chat_id_value cid)")
  case None
  then show ?thesis
    using assms by (simp add: store_Page_def checkContext_def new_id_ok older_rows_def rows_def next_cursor_def)
next
  case (Some c)
  define older where "older = older_rows mem (chat_id_value cid) cur"
  have older: "older = sort_slice store_newer (filter (\<lambda>m. cursor_IsZero cur \<or> olderThan m cur) (map snd (mc_messages c)))"
    using Some by (simp add: older_def older_rows_def rows_def filter_sort_slice)
  define l where "l = (if limit > maxPageMessages then maxPageMessages else limit)"
  have n: "page_limit limit = nat l" and l: "0 < l" using limit by (simp_all add: page_limit_def l_def maxPageMessages_def)
  have last: "NewCursor (msg_sentAt (last p)) (msg_messageID (last p)) = Inr (row_cursor (last p))"
    if "p \<noteq> []" "p = take (nat l) older" for p
  proof -
    have "last p \<in> set older" using that by (metis in_set_takeD last_in_set)
    then have "last p \<in> set (rows mem (chat_id_value cid))" by (simp add: older_def older_rows_def)
    then show ?thesis using row_cursor_new rows_wf [OF wf] by blast
  qed
  show ?thesis
  proof (cases "len older > l")
    case True
    then have long: "nat l < length older" using l by (simp add: nat_less_iff)
    then have "take (nat l) older \<noteq> []" using l by auto
    then show ?thesis
      using assms Some True long last [of "take (nat l) older"]
      by (simp add: store_Page_def checkContext_def new_id_ok Let_def l_def [symmetric] n next_cursor_def older_def [symmetric] older [symmetric])
  next
    case False
    then have "\<not> nat l < length older" "older = take (nat l) older" using l by auto
    then show ?thesis
      using assms Some False
      by (simp add: store_Page_def checkContext_def new_id_ok Let_def l_def [symmetric] n next_cursor_def older_def [symmetric] older [symmetric])
  qed
qed

text \<open>The rows older than the cursor a page returns are exactly the rows after that page.\<close>

lemma filter_after:
  "newest_first_rows ms \<Longrightarrow> i < length ms \<Longrightarrow> filter (\<lambda>m. message_recency (ms ! i) < message_recency m) ms = drop (Suc i) ms"
proof (induction ms arbitrary: i)
  case (Cons a ms)
  have a: "\<forall>m \<in> set ms. message_recency a < message_recency m" and ms: "newest_first_rows ms"
    using Cons.prems(1) by (auto simp: newest_first_rows_def)
  show ?case
  proof (cases i)
    case 0
    then show ?thesis using a by simp
  next
    case (Suc j)
    then have "message_recency a < message_recency (ms ! j)" using a Cons.prems(2) by simp
    then have "\<not> message_recency (ms ! j) < message_recency a" by (rule less_not_sym)
    then show ?thesis using Cons.IH [OF ms] Suc Cons.prems(2) by simp
  qed
qed simp

lemma row_cursor_recency: "olderThan n (row_cursor m) \<longleftrightarrow> message_recency m < message_recency n"
  unfolding olderThan_recency by (simp add: cursor_recency_def message_recency_def row_cursor_def)

lemma row_cursor_valid: "wf_message m \<Longrightarrow> validateCursor (row_cursor m) \<and> \<not> cursor_IsZero (row_cursor m)"
  using row_cursor_new [of m]
  by (simp add: validateCursor_def row_cursor_def cursor_IsZero_def wf_message_def message_parts_ok_def)

lemma older_rows_next:
  assumes wf: "wf_memory mem" and n: "0 < n" "n < length (drop k (rows mem ck))"
  shows "older_rows mem ck (next_cursor n (drop k (rows mem ck))) = drop (k + n) (rows mem ck)"
    and "validateCursor (next_cursor n (drop k (rows mem ck)))"
    and "next_cursor n (drop k (rows mem ck)) \<noteq> NoCursor"
proof -
  let ?rs = "rows mem ck"
  have i: "k + n - 1 < length ?rs" "Suc (k + n - 1) = k + n" using n by auto
  have "last (take n (drop k ?rs)) = take n (drop k ?rs) ! (n - 1)"
    using n by (subst last_conv_nth) (auto simp: min_def)
  also have "\<dots> = ?rs ! (k + n - 1)" using n by simp
  finally have cur: "next_cursor n (drop k ?rs) = row_cursor (?rs ! (k + n - 1))" using n(2) by (simp add: next_cursor_def)
  have "wf_message (?rs ! (k + n - 1))" using rows_wf [OF wf] nth_mem [OF i(1)] by blast
  note valid = row_cursor_valid [OF this]
  have "filter (\<lambda>m. message_recency (?rs ! (k + n - 1)) < message_recency m) ?rs = drop (k + n) ?rs"
    using filter_after [OF rows_sorted [OF wf] i(1)] unfolding i(2) .
  then show "older_rows mem ck (next_cursor n (drop k ?rs)) = drop (k + n) ?rs"
    using valid by (simp add: older_rows_def cur row_cursor_recency)
  show "validateCursor (next_cursor n (drop k ?rs))" "next_cursor n (drop k ?rs) \<noteq> NoCursor"
    using valid by (simp_all add: cur cursor_IsZero_iff)
qed

text \<open>A reader that follows the cursors until there is none, with a page size and a bound on the number of pages.\<close>

fun read_pages :: "nat \<Rightarrow> chat_id \<Rightarrow> cursor \<Rightarrow> int \<Rightarrow> memory \<Rightarrow> message list list" where
  "read_pages 0 cid cur limit mem = []"
| "read_pages (Suc fuel) cid cur limit mem =
     (case store_Page LiveContext cid cur limit mem of
        Inl _ \<Rightarrow> []
      | Inr (page, next) \<Rightarrow> page # (if next = NoCursor then [] else read_pages fuel cid next limit mem))"

lemma read_pages_from:
  assumes wf: "wf_memory mem" and cid: "valid_identifier (chat_id_value cid)" and limit: "0 < limit"
  shows "validateCursor cur \<Longrightarrow> older_rows mem (chat_id_value cid) cur = drop k (rows mem (chat_id_value cid)) \<Longrightarrow>
    length (rows mem (chat_id_value cid)) < k + fuel \<or> fuel \<noteq> 0 \<and> length (rows mem (chat_id_value cid)) \<le> k + fuel \<Longrightarrow>
    concat (read_pages fuel cid cur limit mem) = drop k (rows mem (chat_id_value cid))
    \<and> (\<forall>p \<in> set (read_pages fuel cid cur limit mem). length p \<le> page_limit limit)"
proof (induction fuel arbitrary: cur k)
  case (Suc fuel)
  let ?rs = "rows mem (chat_id_value cid)" and ?n = "page_limit limit"
  have n: "0 < ?n" using limit by (simp add: page_limit_def maxPageMessages_def)
  have page: "store_Page LiveContext cid cur limit mem = Inr (take ?n (drop k ?rs), next_cursor ?n (drop k ?rs))"
    using Page_eq [OF wf cid Suc.prems(1) limit] Suc.prems(2) by (simp add: Let_def)
  show ?case
  proof (cases "?n < length (drop k ?rs)")
    case True
    note nxt = older_rows_next [OF wf n True]
    have "concat (read_pages fuel cid (next_cursor ?n (drop k ?rs)) limit mem) = drop (k + ?n) ?rs
        \<and> (\<forall>p \<in> set (read_pages fuel cid (next_cursor ?n (drop k ?rs)) limit mem). length p \<le> ?n)"
      by (rule Suc.IH [OF nxt(2,1)]) (use Suc.prems(3) n True in auto)
    then show ?thesis
      using page nxt(3) by (simp add: add.commute [of k]) (metis append_take_drop_id drop_drop)
  next
    case False
    then show ?thesis using page by (simp add: next_cursor_def)
  qed
qed auto

section \<open>Snapshots\<close>

definition row_summaries :: "memory \<Rightarrow> string \<Rightarrow> summary list" where
  "row_summaries mem ck = map NewMessageSummary (rows mem ck)"

definition stored_anchor :: "memory \<Rightarrow> string \<Rightarrow> anchor option" where
  "stored_anchor mem ck =
     (case map_of (mem_chats mem) ck of None \<Rightarrow> None | Some c \<Rightarrow> if mc_hasAnchor c then Some (mc_anchor c) else None)"

lemma stored_anchor_wf: "wf_memory mem \<Longrightarrow> stored_anchor mem ck = Some a \<Longrightarrow> wf_anchor a \<and> chat_id_value (anchor_chatID a) = ck"
  using chat_of [of mem ck] by (auto simp: stored_anchor_def wf_memory_chat_def split: option.splits if_splits)

lemma summary_of_row:
  "wf_message m \<Longrightarrow> summary_recency (NewMessageSummary m) = message_recency m"
  by (simp add: summary_recency_def message_recency_def NewMessageSummary_simps)

lemma row_summaries_distinct: "wf_memory mem \<Longrightarrow> distinct_rows (row_summaries mem ck)"
proof -
  assume wf: "wf_memory mem"
  have "map summary_recency (row_summaries mem ck) = map message_recency (rows mem ck)"
    using rows_wf [OF wf] summary_of_row by (simp add: row_summaries_def comp_def)
  then show ?thesis using rows_sorted [OF wf, of ck] by (simp add: distinct_rows_def newest_first_rows_def strict_sorted_iff)
qed

lemma RetentionSnapshot_eq:
  assumes wf: "wf_memory mem" and cid: "valid_identifier (chat_id_value cid)"
  shows "\<exists>p. store_RetentionSnapshot LiveContext cid mem = Inr p \<and> wf_snapshot p \<and> snap_chatID p = cid
    \<and> snap_summaries p = row_summaries mem (chat_id_value cid)
    \<and> stored_anchor mem (chat_id_value cid) = (if snap_hasAnchor p then Some (snap_anchor p) else None)"
proof -
  let ?ck = "chat_id_value cid"
  define p where "p = \<lparr>snap_chatID = cid, snap_summaries = row_summaries mem ?ck,
    snap_anchor = (case stored_anchor mem ?ck of None \<Rightarrow> zero_anchor | Some a \<Rightarrow> a), snap_hasAnchor = (stored_anchor mem ?ck \<noteq> None)\<rparr>"
  have sums: "wf_summary s \<and> sum_chatID s = cid" if "s \<in> set (row_summaries mem ?ck)" for s
    using that rows_wf [OF wf, of _ ?ck] NewMessageSummary_wf
    by (auto simp: row_summaries_def NewMessageSummary_simps chat_id_eq_iff)
  have count: "len (row_summaries mem ?ck) \<le> MaxRetentionSnapshotSummaries"
    using rows_length [OF wf, of ?ck] by (simp add: row_summaries_def)
  have "wf_snapshot p"
  proof (cases "stored_anchor mem ?ck")
    case None
    then show ?thesis using sums cid count unfolding wf_snapshot_def p_def by simp
  next
    case (Some a)
    then have "wf_anchor a \<and> anchor_chatID a = cid" using stored_anchor_wf [OF wf Some] chat_id_eq_iff by blast
    then show ?thesis using Some sums cid count unfolding wf_snapshot_def p_def by simp
  qed
  then have "NewRetentionSnapshot cid (row_summaries mem ?ck) (stored_anchor mem ?ck) = Inr p"
    unfolding NewRetentionSnapshot_eq_Inr by (auto simp: p_def split: option.split)
  moreover have "store_RetentionSnapshot LiveContext cid mem =
      (case NewRetentionSnapshot cid (row_summaries mem ?ck) (stored_anchor mem ?ck) of Inl e \<Rightarrow> Inl (Inr e) | Inr p \<Rightarrow> Inr p)"
    using cid by (simp add: store_RetentionSnapshot_def checkContext_def new_id_ok row_summaries_def rows_def stored_anchor_def split: option.split)
  ultimately show ?thesis using \<open>wf_snapshot p\<close> by (intro exI [of _ p]) (auto simp: p_def)
qed

section \<open>Pruning\<close>

lemma delete_loop_eq:
  "distinct (map fst ms) \<Longrightarrow> set seen \<inter> dom (map_of ms) = {} \<Longrightarrow> delete_loop ids seen ms d b = (ms', d', b') \<Longrightarrow>
    distinct (map fst ms') \<and> set ms' \<subseteq> set ms \<and> map_of ms' = (map_of ms) |` (- (message_id_value ` set ids))
    \<and> d' = d + int (card (dom (map_of ms) \<inter> message_id_value ` set ids))
    \<and> b' = b + int (card {k \<in> message_id_value ` set ids. \<exists>m. map_of ms k = Some m \<and> msg_bodyRetained m})"
proof (induction ids arbitrary: seen ms d b)
  case (Cons i ids)
  let ?k = "message_id_value i"
  show ?case
  proof (cases "map_of ms ?k")
    case None
    have loop: "delete_loop ids (if ?k \<in> set seen then seen else ?k # seen) ms d b = (ms', d', b')"
      using Cons.prems(3) None by (auto simp: Let_def split: if_splits)
    have "set (if ?k \<in> set seen then seen else ?k # seen) \<inter> dom (map_of ms) = {}" using Cons.prems(2) None by auto
    note IH = Cons.IH [OF Cons.prems(1) this loop]
    have "dom (map_of ms) \<inter> message_id_value ` set (i # ids) = dom (map_of ms) \<inter> message_id_value ` set ids"
      "{k \<in> message_id_value ` set (i # ids). \<exists>m. map_of ms k = Some m \<and> msg_bodyRetained m}
        = {k \<in> message_id_value ` set ids. \<exists>m. map_of ms k = Some m \<and> msg_bodyRetained m}"
      "(map_of ms) |` (- (message_id_value ` set (i # ids))) = (map_of ms) |` (- (message_id_value ` set ids))"
      using None by (auto simp: restrict_map_def fun_eq_iff)
    then show ?thesis using IH by simp
  next
    case (Some m)
    let ?ms = "AList.delete ?k ms"
    have fresh: "?k \<notin> set seen" using Cons.prems(2) Some by auto
    then have loop: "delete_loop ids (?k # seen) ?ms (d + 1) (if msg_bodyRetained m then b + 1 else b) = (ms', d', b')"
      using Cons.prems(3) Some by (simp add: Let_def)
    have del: "map_of ?ms = (map_of ms)(?k := None)" by (simp add: delete_conv')
    have "set (?k # seen) \<inter> dom (map_of ?ms) = {}" unfolding del using Cons.prems(2) by auto
    note IH = Cons.IH [OF distinct_delete [OF Cons.prems(1)] this loop]
    have doms: "dom (map_of ms) \<inter> message_id_value ` set (i # ids) = insert ?k (dom (map_of ?ms) \<inter> message_id_value ` set ids)"
      "?k \<notin> dom (map_of ?ms) \<inter> message_id_value ` set ids"
      unfolding del using Some by auto
    have bodies: "{k \<in> message_id_value ` set (i # ids). \<exists>m. map_of ms k = Some m \<and> msg_bodyRetained m}
        = (if msg_bodyRetained m then insert ?k {k \<in> message_id_value ` set ids. \<exists>m. map_of ?ms k = Some m \<and> msg_bodyRetained m}
           else {k \<in> message_id_value ` set ids. \<exists>m. map_of ?ms k = Some m \<and> msg_bodyRetained m})"
      "?k \<notin> {k \<in> message_id_value ` set ids. \<exists>m. map_of ?ms k = Some m \<and> msg_bodyRetained m}"
      unfolding del using Some by auto
    have maps: "(map_of ms) |` (- (message_id_value ` set (i # ids))) = (map_of ?ms) |` (- (message_id_value ` set ids))"
      unfolding del by (auto simp: restrict_map_def fun_eq_iff)
    have cards: "card (dom (map_of ms) \<inter> message_id_value ` set (i # ids)) = Suc (card (dom (map_of ?ms) \<inter> message_id_value ` set ids))"
      unfolding doms(1) using doms(2) by (intro card_insert_disjoint) (simp_all add: finite_dom_map_of)
    have bcards: "int (card {k \<in> message_id_value ` set (i # ids). \<exists>m. map_of ms k = Some m \<and> msg_bodyRetained m}) =
        int (card {k \<in> message_id_value ` set ids. \<exists>m. map_of ?ms k = Some m \<and> msg_bodyRetained m}) + (if msg_bodyRetained m then 1 else 0)"
      unfolding bodies(1) using bodies(2) by simp
    have sub: "set ?ms \<subseteq> set ms" by (simp add: AList.delete_eq)
    show ?thesis unfolding maps cards bcards using IH sub by auto
  qed
qed (auto simp: restrict_map_def)

definition wf_plan :: "prune_plan \<Rightarrow> bool" where
  "wf_plan p \<longleftrightarrow> NewPrunePlan (plan_chatID p) (plan_deleteIDs p)
     (if plan_hasReplacement p then Some (plan_replacement p) else None) = Inr p"

definition listed :: "prune_plan \<Rightarrow> string set" where
  "listed p = message_id_value ` set (plan_deleteIDs p)"

lemma NewPrunePlan_wf: "NewPrunePlan c ids a = Inr p \<Longrightarrow> wf_plan p"
  unfolding wf_plan_def NewPrunePlan_eq_Inr by (cases a) auto

definition prune_post :: "memory \<Rightarrow> prune_plan \<Rightarrow> memory \<Rightarrow> prune_result \<Rightarrow> bool" where
  "prune_post mem p mem' r \<longleftrightarrow>
     (let ck = chat_id_value (plan_chatID p) in
      wf_memory mem' \<and> view mem' = (view mem)(ck := (view mem ck) |` (- listed p)) \<and> chat_at mem' = chat_at mem
      \<and> pr_deletedRows r = int (card (dom (view mem ck) \<inter> listed p))
      \<and> pr_removedBodies r = int (card {k \<in> listed p. \<exists>m. view mem ck k = Some m \<and> msg_bodyRetained m})
      \<and> (\<forall>j. stored_anchor mem' j =
           (if j = ck \<and> plan_hasReplacement p \<and> chat_at mem ck \<noteq> None then Some (plan_replacement p) else stored_anchor mem j))
      \<and> pr_anchorReplaced r = (stored_anchor mem' ck \<noteq> stored_anchor mem ck))"

lemma sameAnchor_iff: "sameAnchor a b \<longleftrightarrow> a = b"
  by (cases a; cases b) (auto simp: sameAnchor_def chat_id_eq_iff message_id_eq_iff)

lemma wf_memory_chat_pruned:
  assumes "wf_memory_chat k c" "distinct (map fst ms)" "set ms \<subseteq> set (mc_messages c)"
  shows "wf_memory_chat k (c\<lparr>mc_messages := ms\<rparr>)"
proof -
  have "distinct ms" using assms(2) by (simp add: distinct_map)
  then have "length ms \<le> card (set (mc_messages c))" using assms(3) by (metis card_mono distinct_card finite_set)
  also have "\<dots> \<le> length (mc_messages c)" by (rule card_length)
  finally have "len ms \<le> MaxRetentionSnapshotSummaries" using assms(1) by (simp add: wf_memory_chat_def)
  then show ?thesis using assms by (auto simp: wf_memory_chat_def)
qed

lemma ApplyPrune_ok:
  assumes wf: "wf_memory mem" and plan: "wf_plan p"
  shows "\<exists>mem' r. store_ApplyPrune LiveContext p mem = (mem', Inr r) \<and> prune_post mem p mem' r"
proof (cases "map_of (mem_chats mem) (chat_id_value (plan_chatID p))")
  let ?ck = "chat_id_value (plan_chatID p)"
  have rebuilt: "NewPrunePlan (plan_chatID p) (plan_deleteIDs p) (if plan_hasReplacement p then Some (plan_replacement p) else None) = Inr p"
    using plan by (simp only: wf_plan_def)
  {
    case None
    have "view mem ?ck = Map.empty" "chat_at mem ?ck = None" using None by (simp_all add: view_def chat_at_def)
    then have "prune_post mem p mem \<lparr>pr_deletedRows = 0, pr_removedBodies = 0, pr_anchorReplaced = False\<rparr>"
      using wf by (simp add: prune_post_def fun_upd_idem)
    then show ?thesis
      unfolding store_ApplyPrune_def rebuilt by (simp add: None checkContext_def NewPruneResult_def)
  next
    case (Some c)
    note c = chat_of [OF wf Some]
    obtain ms d b where loop: "delete_loop (plan_deleteIDs p) [] (mc_messages c) 0 0 = (ms, d, b)" by (metis prod_cases3)
    have "distinct (map fst (mc_messages c))" using c by (simp add: wf_memory_chat_def)
    note del = delete_loop_eq [OF this _ loop, simplified, folded listed_def]
    have vw: "view mem ?ck = map_of (mc_messages c)" using Some by (simp add: view_def)
    define c2 where "c2 = (if plan_hasReplacement p then (c\<lparr>mc_messages := ms\<rparr>)\<lparr>mc_anchor := plan_replacement p, mc_hasAnchor := True\<rparr>
      else c\<lparr>mc_messages := ms\<rparr>)"
    define r where "r = \<lparr>pr_deletedRows = d, pr_removedBodies = b, pr_anchorReplaced =
      (plan_hasReplacement p \<and> (\<not> mc_hasAnchor c \<or> \<not> sameAnchor (mc_anchor c) (plan_replacement p)))\<rparr>"
    let ?mem = "mem\<lparr>mem_chats := AList.update ?ck c2 (mem_chats mem)\<rparr>"
    have anchor: "wf_anchor (plan_replacement p) \<and> anchor_chatID (plan_replacement p) = plan_chatID p" if "plan_hasReplacement p"
      using rebuilt that unfolding NewPrunePlan_eq_Inr by simp
    have "wf_memory_chat ?ck (c\<lparr>mc_messages := ms\<rparr>)" using wf_memory_chat_pruned [OF c] del by blast
    then have c2: "wf_memory_chat ?ck c2" using anchor by (simp add: c2_def wf_memory_chat_def)
    have fields: "mc_messages c2 = ms" "mc_chat c2 = mc_chat c" by (simp_all add: c2_def)
    have "wf_memory ?mem" using wf_memory_put [OF wf c2] Some by simp
    moreover have "view ?mem = (view mem)(?ck := (view mem ?ck) |` (- listed p))"
      using del by (intro ext) (simp add: view_def update_conv' fields Some)
    moreover have "chat_at ?mem = chat_at mem" by (intro ext) (simp add: chat_at_def update_conv' fields Some)
    moreover have "stored_anchor ?mem j = (if j = ?ck \<and> plan_hasReplacement p \<and> chat_at mem ?ck \<noteq> None
        then Some (plan_replacement p) else stored_anchor mem j)" for j
      using Some by (simp add: stored_anchor_def update_conv' c2_def chat_at_def)
    moreover have "pr_anchorReplaced r = (stored_anchor ?mem ?ck \<noteq> stored_anchor mem ?ck)"
      using Some by (auto simp: stored_anchor_def update_conv' c2_def r_def sameAnchor_iff)
    ultimately have "prune_post mem p ?mem r"
      using del unfolding prune_post_def Let_def vw by (simp add: r_def vw)
    moreover have "store_ApplyPrune LiveContext p mem = (?mem, Inr r)"
      unfolding store_ApplyPrune_def rebuilt
      using del by (simp add: checkContext_def Some loop Let_def c2_def r_def NewPruneResult_def)
    ultimately show ?thesis by blast
  }
qed

lemma ApplyPrune_wf: "wf_memory mem \<Longrightarrow> wf_memory (fst (store_ApplyPrune ctx p mem))"
proof (cases "ctx = LiveContext \<and> (\<exists>q. NewPrunePlan (plan_chatID p) (plan_deleteIDs p)
    (if plan_hasReplacement p then Some (plan_replacement p) else None) = Inr q)")
  case True
  assume wf: "wf_memory mem"
  obtain q where q: "NewPrunePlan (plan_chatID p) (plan_deleteIDs p)
    (if plan_hasReplacement p then Some (plan_replacement p) else None) = Inr q" using True by blast
  have "wf_plan q" by (rule NewPrunePlan_wf [OF q])
  then have same: "NewPrunePlan (plan_chatID q) (plan_deleteIDs q) (if plan_hasReplacement q then Some (plan_replacement q) else None) = Inr q"
    by (simp only: wf_plan_def)
  have "store_ApplyPrune LiveContext p mem = store_ApplyPrune LiveContext q mem"
    unfolding store_ApplyPrune_def q same by (rule refl)
  then show ?thesis using ApplyPrune_ok [OF wf \<open>wf_plan q\<close>] True by (auto simp: prune_post_def Let_def)
next
  case False
  assume wf: "wf_memory mem"
  then show ?thesis using False
    by (cases ctx; cases "NewPrunePlan (plan_chatID p) (plan_deleteIDs p) (if plan_hasReplacement p then Some (plan_replacement p) else None)")
      (simp_all add: store_ApplyPrune_def checkContext_def)
qed

section \<open>A whole retention cycle\<close>

text \<open>What a cycle keeps: the newest retained bodies that are recent enough, up to the configured count.\<close>

definition fresh_body :: "policy \<Rightarrow> instant \<Rightarrow> message \<Rightarrow> bool" where
  "fresh_body q now m \<longleftrightarrow> msg_bodyRetained m \<and> now - pol_maxAge q \<le> msg_sentAt m"

definition kept_message :: "policy \<Rightarrow> instant \<Rightarrow> (string \<Rightarrow> message option) \<Rightarrow> message \<Rightarrow> bool" where
  "kept_message q now ms m \<longleftrightarrow> fresh_body q now m
     \<and> int (card {n \<in> ran ms. fresh_body q now n \<and> store_newer n m}) < pol_messagesPerChat q"

definition retained_keys :: "policy \<Rightarrow> instant \<Rightarrow> (string \<Rightarrow> message option) \<Rightarrow> string set" where
  "retained_keys q now ms = {k. \<exists>m. ms k = Some m \<and> kept_message q now ms m}"

lemma summary_row_simps:
  assumes "wf_memory mem" "m \<in> set (rows mem ck)"
  shows "keepable (now - pol_maxAge q) (NewMessageSummary m) \<longleftrightarrow> fresh_body q now m"
    and "sum_messageID (NewMessageSummary m) = msg_messageID m"
  using rows_wf [OF assms] by (simp_all add: keepable_def fresh_body_def NewMessageSummary_simps)

lemma summary_newer_rows:
  assumes "wf_memory mem" "m \<in> set (rows mem ck)" "n \<in> set (rows mem ck)"
  shows "summaryNewer (NewMessageSummary m) (NewMessageSummary n) \<longleftrightarrow> store_newer m n"
  using rows_wf [OF assms(1,2)] rows_wf [OF assms(1,3)] by (simp add: summaryNewer_recency summary_of_row store_newer_recency)

lemma summary_inj: "wf_memory mem \<Longrightarrow> inj_on NewMessageSummary (set (rows mem ck))"
proof (rule inj_onI)
  fix m n
  assume wf: "wf_memory mem" and m: "m \<in> set (rows mem ck)" and n: "n \<in> set (rows mem ck)"
    and eq: "NewMessageSummary m = NewMessageSummary n"
  then have "message_key m = message_key n" using summary_row_simps(2) by metis
  moreover have "view mem ck (message_key m) = Some m" "view mem ck (message_key n) = Some n"
    using rows_wf [OF wf] m n by blast+
  ultimately show "m = n" by (metis option.inject)
qed

lemma filter_image: "{t \<in> f ` A. P t} = f ` {n \<in> A. P (f n)}"
  by blast

lemma survives_row:
  assumes wf: "wf_memory mem" and m: "m \<in> set (rows mem ck)"
  shows "survives q now (row_summaries mem ck) (NewMessageSummary m) \<longleftrightarrow> kept_message q now (view mem ck) m"
proof -
  let ?before = "{n \<in> ran (view mem ck). fresh_body q now n \<and> store_newer n m}"
  have conv: "keepable (now - pol_maxAge q) (NewMessageSummary n) \<and> summaryNewer (NewMessageSummary n) (NewMessageSummary m)
      \<longleftrightarrow> fresh_body q now n \<and> store_newer n m" if "n \<in> set (rows mem ck)" for n
    using summary_row_simps(1) [OF wf that] summary_newer_rows [OF wf that m] by blast
  have "{t \<in> set (row_summaries mem ck). keepable (now - pol_maxAge q) t \<and> summaryNewer t (NewMessageSummary m)}
      = NewMessageSummary ` {n \<in> set (rows mem ck). keepable (now - pol_maxAge q) (NewMessageSummary n)
          \<and> summaryNewer (NewMessageSummary n) (NewMessageSummary m)}"
    unfolding row_summaries_def set_map by (rule filter_image)
  also have "{n \<in> set (rows mem ck). keepable (now - pol_maxAge q) (NewMessageSummary n)
          \<and> summaryNewer (NewMessageSummary n) (NewMessageSummary m)} = ?before"
    unfolding rows_set [OF wf, symmetric] using conv by blast
  finally have "{t \<in> set (row_summaries mem ck). keepable (now - pol_maxAge q) t \<and> summaryNewer t (NewMessageSummary m)}
      = NewMessageSummary ` ?before" .
  moreover have "inj_on NewMessageSummary ?before"
    using summary_inj [OF wf, of ck] unfolding rows_set [OF wf] by (rule inj_on_subset) blast
  ultimately show ?thesis
    using summary_row_simps(1) [OF wf m] by (simp add: survives_def kept_message_def card_image)
qed

text \<open>The plan made from a snapshot lists exactly what the policy does not keep.\<close>

lemma planned_deletions:
  assumes wf: "wf_memory mem" and cid: "valid_identifier (chat_id_value cid)" and q: "wf_policy q"
    and p: "store_RetentionSnapshot LiveContext cid mem = Inr p" and pl: "policy_PlanPrune (Some q) p st = Inr pl"
  shows "wf_plan pl" "plan_chatID pl = cid"
    "plan_hasReplacement pl = (plan_replacement_for p (plan_rows q (rst_Now st) (row_summaries mem (chat_id_value cid))) \<noteq> None)"
    "view mem (chat_id_value cid) |` (- listed pl)
      = view mem (chat_id_value cid) |` retained_keys q (rst_Now st) (view mem (chat_id_value cid))"
proof -
  let ?ck = "chat_id_value cid" and ?now = "rst_Now st"
  let ?V = "view mem ?ck"
  have snap: "wf_snapshot p" "snap_chatID p = cid" "snap_summaries p = row_summaries mem ?ck"
    using RetentionSnapshot_eq [OF wf cid] p by auto
  have st: "wf_state st" using pl validateState_None by (cases "validateState st") (auto simp: policy_PlanPrune_def fail_if_def split: option.splits)
  note plan = PlanPrune_eq [OF q st validateSnapshot_wf [OF snap(1)], unfolded snap(2,3)]
  have made: "NewPrunePlan cid (map sum_messageID (plan_rows q ?now (row_summaries mem ?ck)))
      (plan_replacement_for p (plan_rows q ?now (row_summaries mem ?ck))) = Inr pl"
    using plan(1) pl by simp
  then show "wf_plan pl" by (rule NewPrunePlan_wf)
  from made have ids: "plan_chatID pl = cid" "plan_deleteIDs pl = map sum_messageID (plan_rows q ?now (row_summaries mem ?ck))"
    "plan_hasReplacement pl = (plan_replacement_for p (plan_rows q ?now (row_summaries mem ?ck)) \<noteq> None)"
    unfolding NewPrunePlan_eq_Inr by (auto split: option.splits)
  then show "plan_chatID pl = cid"
    "plan_hasReplacement pl = (plan_replacement_for p (plan_rows q (rst_Now st) (row_summaries mem (chat_id_value cid))) \<noteq> None)"
    by simp_all
  have "listed pl = message_key ` {m \<in> set (rows mem ?ck). \<not> kept_message q ?now ?V m}"
  proof -
    have "listed pl = (message_id_value \<circ> sum_messageID) ` {s \<in> set (row_summaries mem ?ck). \<not> survives q ?now (row_summaries mem ?ck) s}"
      using plan_rows_set [OF row_summaries_distinct [OF wf]] by (simp add: listed_def ids(2) image_comp)
    also have "\<dots> = (message_id_value \<circ> sum_messageID \<circ> NewMessageSummary) ` {m \<in> set (rows mem ?ck). \<not> kept_message q ?now ?V m}"
      using survives_row [OF wf, of _ ?ck] unfolding row_summaries_def set_map by fastforce
    also have "\<dots> = message_key ` {m \<in> set (rows mem ?ck). \<not> kept_message q ?now ?V m}"
      using summary_row_simps(2) [OF wf, of _ ?ck] by (intro image_cong) simp_all
    finally show ?thesis .
  qed
  moreover have "message_key m = k" if "?V k = Some m" for k m using view_wf [OF wf that] by simp
  ultimately have "k \<in> listed pl \<longleftrightarrow> k \<notin> retained_keys q ?now ?V" if "?V k = Some m" for k m
    using that by (auto simp: rows_set [OF wf] ran_def retained_keys_def image_iff)
  then show "?V |` (- listed pl) = ?V |` retained_keys q ?now ?V"
    by (intro ext) (metis (no_types, lifting) ComplI Compl_iff not_None_eq restrict_in restrict_out)
qed

lemma plan_exists:
  assumes wf: "wf_memory mem" and cid: "valid_identifier (chat_id_value cid)" and q: "wf_policy q" and st: "wf_state st"
    and p: "store_RetentionSnapshot LiveContext cid mem = Inr p"
  shows "\<exists>pl. policy_PlanPrune (Some q) p st = Inr pl"
proof -
  have "wf_snapshot p" "snap_summaries p = row_summaries mem (chat_id_value cid)" using RetentionSnapshot_eq [OF wf cid] p by auto
  then show ?thesis using PlanPrune_eq(2) [OF q st validateSnapshot_wf] by (auto simp: is_ok_iff)
qed

lemma retention_cycle:
  assumes wf: "wf_memory mem" and cid: "valid_identifier (chat_id_value cid)" and q: "wf_policy q" and st: "wf_state st"
  shows "\<exists>p plan mem' r. store_RetentionSnapshot LiveContext cid mem = Inr p \<and> policy_PlanPrune (Some q) p st = Inr plan
    \<and> store_ApplyPrune LiveContext plan mem = (mem', Inr r) \<and> prune_post mem plan mem' r \<and> plan_chatID plan = cid
    \<and> plan_hasReplacement plan = (plan_replacement_for p (plan_rows q (rst_Now st) (row_summaries mem (chat_id_value cid))) \<noteq> None)
    \<and> view mem' = (view mem)(chat_id_value cid := (view mem (chat_id_value cid)) |` retained_keys q (rst_Now st) (view mem (chat_id_value cid)))"
proof -
  obtain p where p: "store_RetentionSnapshot LiveContext cid mem = Inr p" using RetentionSnapshot_eq [OF wf cid] by blast
  obtain pl where pl: "policy_PlanPrune (Some q) p st = Inr pl" using plan_exists [OF wf cid q st p] by blast
  note plan = planned_deletions [OF wf cid q p pl]
  obtain mem' r where "store_ApplyPrune LiveContext pl mem = (mem', Inr r)" "prune_post mem pl mem' r"
    using ApplyPrune_ok [OF wf plan(1)] by blast
  then show ?thesis using p pl plan(2-4) by (auto simp: prune_post_def Let_def)
qed

lemma butlast_newer: "newest_first_rows ms \<Longrightarrow> \<forall>m \<in> set (butlast ms). store_newer m (last ms)"
  by (cases ms rule: rev_cases) (simp_all add: newest_first_rows_def sorted_wrt_append store_newer_recency)

lemma retained_count:
  assumes wf: "wf_memory mem" and q: "wf_policy q"
  shows "int (card (dom (view mem ck |` retained_keys q now (view mem ck)))) \<le> pol_messagesPerChat q"
proof -
  let ?kept = "filter (\<lambda>m. kept_message q now (view mem ck) m) (rows mem ck)"
  have sorted: "newest_first_rows ?kept"
    using rows_sorted [OF wf, of ck] by (simp add: newest_first_rows_def sorted_wrt_map sorted_wrt_filter)
  have dom: "dom (view mem ck |` retained_keys q now (view mem ck)) = message_key ` set ?kept"
    using view_wf [OF wf] by (fastforce simp: retained_keys_def restrict_map_def rows_set [OF wf] ran_def split: if_splits)
  have "card (message_key ` set ?kept) \<le> length ?kept" by (rule order_trans [OF card_image_le card_length]) simp
  moreover have "int (length ?kept) \<le> pol_messagesPerChat q"
  proof (cases "?kept = []")
    case True
    then show ?thesis using q unfolding True by (simp add: wf_policy_def)
  next
    case False
    let ?last = "last ?kept"
    have last: "?last \<in> set ?kept" using False by (rule last_in_set)
    then have bound: "int (card {n \<in> ran (view mem ck). fresh_body q now n \<and> store_newer n ?last}) < pol_messagesPerChat q"
      by (simp add: kept_message_def)
    have lt: "\<forall>m \<in> set (butlast ?kept). store_newer m ?last" by (rule butlast_newer [OF sorted])
    have "set (butlast ?kept) \<subseteq> {n \<in> ran (view mem ck). fresh_body q now n \<and> store_newer n ?last}"
    proof
      fix n
      assume n: "n \<in> set (butlast ?kept)"
      then have "n \<in> set ?kept" by (rule in_set_butlastD)
      then have "n \<in> ran (view mem ck) \<and> fresh_body q now n" by (simp add: rows_set [OF wf] kept_message_def)
      then show "n \<in> {n \<in> ran (view mem ck). fresh_body q now n \<and> store_newer n ?last}" using lt n by blast
    qed
    moreover have "finite {n \<in> ran (view mem ck). fresh_body q now n \<and> store_newer n ?last}"
      by (simp add: rows_set [OF wf, symmetric])
    ultimately have "card (set (butlast ?kept)) \<le> card {n \<in> ran (view mem ck). fresh_body q now n \<and> store_newer n ?last}"
      by (intro card_mono)
    moreover have "distinct (butlast ?kept)"
      using sorted by (intro distinct_butlast) (metis newest_first_rows_def strict_sorted_iff distinct_map)
    then have "card (set (butlast ?kept)) = length ?kept - 1" by (simp add: distinct_card)
    ultimately show ?thesis using bound by linarith
  qed
  ultimately show ?thesis unfolding dom by linarith
qed

end
