(* ===== verification/StoreDisplay.thy ===== *)
theory StoreDisplay
  imports StoreRead
begin

text \<open>
  The remaining operations of the in-memory store: display metadata (\<open>memory_display.go\<close>), local reads, the chat
  list (\<open>chat_list.go\<close>) and the usage report, with the store invariant for all of them.
\<close>

section \<open>Display metadata\<close>

lemma display_index_Some:
  "display_index i ds c = Some j \<Longrightarrow> \<exists>k < length ds. j = i + k \<and> dm_id (ds ! k) = c"
proof (induction ds arbitrary: i)
  case (Cons d ds)
  show ?case
  proof (cases "dm_id d = c")
    case True
    then have "j = i" using Cons.prems by simp
    then show ?thesis using True by (intro exI [of _ 0]) simp
  next
    case False
    then have "display_index (i + 1) ds c = Some j" using Cons.prems by simp
    then obtain k where "k < length ds" "j = i + 1 + k" "dm_id (ds ! k) = c" using Cons.IH by blast
    then show ?thesis by (intro exI [of _ "Suc k"]) simp
  qed
qed simp

lemma zero_display_ID: "chat_id_value (dm_id zero_display) = []"
  by (simp add: zero_display_def)

lemma merge_zero: "display_Merge zero_display d = d"
  by (simp add: display_Merge_def zero_display_def)

lemma wf_slot_replace:
  assumes "wf_memory mem" "wf_display_slot d" "i < length (mem_display mem)"
  shows "wf_memory (mem\<lparr>mem_display := (mem_display mem)[i := d]\<rparr>)"
  using assms set_update_subset_insert [of "mem_display mem" i d] by (auto simp: wf_memory_def)

lemma display_slot_step:
  assumes "wf_display_slot d" "wf_display n" "d = zero_display \<or> dm_id d = dm_id n"
  shows "wf_display (display_Merge d n) \<and> dm_id (display_Merge d n) = dm_id n"
proof (cases "d = zero_display")
  case True
  then show ?thesis using assms(2) merge_zero [of n] by simp
next
  case False
  then have d: "wf_display d" "dm_id d = dm_id n" using assms(1,3) by (simp_all add: wf_display_slot_def)
  have "chat_id_value (dm_id d) \<noteq> []" using d(1) by (auto simp: wf_display_def)
  then show ?thesis using Merge_wf [OF d(1) assms(2)] Merge_same(1) [OF _ d(2)] d(2) by simp
qed

text \<open>The two halves of \<open>ApplyDisplayMetadata\<close>: finding or freeing a slot, and updating the chat.\<close>

definition display_slot_for :: "memory \<Rightarrow> chat_id \<Rightarrow> nat \<times> memory" where
  "display_slot_for mem c =
     (case display_index 0 (mem_display mem) c of
        Some index \<Rightarrow> (index, mem)
      | None \<Rightarrow>
          (mem_displayNext mem,
           mem\<lparr>mem_displayNext := (mem_displayNext mem + 1) mod length (mem_display mem),
             mem_display := (mem_display mem)[mem_displayNext mem := zero_display]\<rparr>))"

definition display_for_chat :: "memory_chat \<Rightarrow> display_metadata \<Rightarrow> display_metadata" where
  "display_for_chat current d =
     (if dm_quality d < mc_displayQuality current
      then or_zero_display (NewDisplayMetadata (chat_id_value (dm_id d)) (chat_displayName (mc_chat current))
             (mc_displayQuality current) (chat_isGroup (mc_chat current) \<or> dm_group d))
      else d)"

definition display_chat :: "memory_chat \<Rightarrow> display_metadata \<Rightarrow> memory_chat" where
  "display_chat current d =
     current\<lparr>mc_chat := WithDisplayMetadata (mc_chat current) d,
       mc_displayQuality := (if dm_name d \<noteq> [] then dm_quality d else mc_displayQuality current)\<rparr>"

definition display_commit :: "nat \<Rightarrow> display_metadata \<Rightarrow> memory \<Rightarrow> memory \<times> display_metadata" where
  "display_commit index d mem =
     (case map_of (mem_chats mem) (chat_id_value (dm_id d)) of
        None \<Rightarrow> (mem\<lparr>mem_display := (mem_display mem)[index := d]\<rparr>, d)
      | Some current \<Rightarrow>
          let owned = display_for_chat current d in
          (mem\<lparr>mem_chats := AList.update (chat_id_value (dm_id d)) (display_chat current owned) (mem_chats mem),
             mem_display := (mem_display mem)[index := owned]\<rparr>, owned))"

lemma ApplyDisplay_eq:
  assumes "NewDisplayMetadata (chat_id_value (dm_id metadata)) (dm_name metadata) (dm_quality metadata) (dm_group metadata) = Inr owned"
  shows "ApplyDisplayMetadata LiveContext metadata mem =
    (let (index, mem1) = display_slot_for mem (dm_id owned);
         (mem2, d) = display_commit index (display_Merge (mem_display mem1 ! index) owned) mem1
     in (mem2, Inr d))"
  unfolding ApplyDisplayMetadata_def assms
  by (simp add: checkContext_def display_slot_for_def display_commit_def display_for_chat_def display_chat_def Let_def
      split: option.split prod.split)

lemma display_slot_for_ok:
  assumes wf: "wf_memory mem" and slot: "display_slot_for mem c = (index, mem1)"
  shows "wf_memory mem1 \<and> index < length (mem_display mem1) \<and> mem_chats mem1 = mem_chats mem
    \<and> (mem_display mem1 ! index = zero_display \<or> dm_id (mem_display mem1 ! index) = c) \<and> wf_display_slot (mem_display mem1 ! index)"
proof (cases "display_index 0 (mem_display mem) c")
  case (Some i)
  then show ?thesis using slot wf display_index_Some [OF Some] by (auto simp: display_slot_for_def wf_memory_def)
next
  case None
  have next_slot: "mem_displayNext mem < length (mem_display mem)" using wf by (simp add: wf_memory_def)
  then have nonempty: "0 < length (mem_display mem)" by linarith
  have "wf_memory (mem\<lparr>mem_display := (mem_display mem)[mem_displayNext mem := zero_display]\<rparr>)"
    by (rule wf_slot_replace [OF wf _ next_slot]) (simp add: wf_display_slot_def)
  then have "wf_memory (mem\<lparr>mem_displayNext := (mem_displayNext mem + 1) mod length (mem_display mem),
      mem_display := (mem_display mem)[mem_displayNext mem := zero_display]\<rparr>)"
    using mod_less_divisor [OF nonempty, of "Suc (mem_displayNext mem)"] by (simp add: wf_memory_def)
  then show ?thesis using None slot next_slot by (auto simp: display_slot_for_def wf_display_slot_def)
qed

lemma display_for_chat_wf: "wf_display d \<Longrightarrow> wf_display_slot (display_for_chat current d)"
  by (auto simp: display_for_chat_def wf_display_slot_def or_zero_display_def dest: NewDisplayMetadata_wf split: sum.split)

lemma display_chat_wf: "wf_memory_chat k c \<Longrightarrow> wf_display_slot d \<Longrightarrow> wf_memory_chat k (display_chat c d)"
  by (simp add: wf_memory_chat_def display_chat_def WithDisplay_slot_wf)

lemma display_commit_ok:
  assumes wf: "wf_memory mem" and i: "index < length (mem_display mem)" and d: "wf_display d"
    and c: "display_commit index d mem = (mem', d')"
  shows "wf_memory mem' \<and> view mem' = view mem \<and> wf_display_slot d'"
proof (cases "map_of (mem_chats mem) (chat_id_value (dm_id d))")
  case None
  then show ?thesis using c d wf_slot_replace [OF wf _ i, of d] by (auto simp: display_commit_def wf_display_slot_def view_def)
next
  case (Some current)
  let ?owned = "display_for_chat current d"
  let ?mem = "mem\<lparr>mem_chats := AList.update (chat_id_value (dm_id d)) (display_chat current ?owned) (mem_chats mem)\<rparr>"
  note owned = display_for_chat_wf [OF d, of current]
  have "wf_memory ?mem" using wf_memory_put [OF wf display_chat_wf [OF chat_of [OF wf Some] owned]] Some by simp
  then have "wf_memory (?mem\<lparr>mem_display := (mem_display ?mem)[index := ?owned]\<rparr>)"
    by (rule wf_slot_replace) (use owned i in simp_all)
  moreover have "view (?mem\<lparr>mem_display := (mem_display ?mem)[index := ?owned]\<rparr>) = view mem"
    using Some by (intro ext) (simp add: view_def update_conv' display_chat_def)
  ultimately show ?thesis using c Some owned by (auto simp: display_commit_def Let_def)
qed

lemma ApplyDisplay_ok:
  assumes wf: "wf_memory mem"
  shows "wf_memory (fst (ApplyDisplayMetadata ctx d mem)) \<and> view (fst (ApplyDisplayMetadata ctx d mem)) = view mem"
proof (cases "ctx = LiveContext")
  case True
  show ?thesis
  proof (cases "NewDisplayMetadata (chat_id_value (dm_id d)) (dm_name d) (dm_quality d) (dm_group d)")
    case (Inl e)
    then show ?thesis using wf True by (simp add: ApplyDisplayMetadata_def checkContext_def)
  next
    case (Inr owned)
    obtain index mem1 where s: "display_slot_for mem (dm_id owned) = (index, mem1)" by (cases "display_slot_for mem (dm_id owned)")
    note slot = display_slot_for_ok [OF wf s]
    let ?d = "display_Merge (mem_display mem1 ! index) owned"
    have d: "wf_display ?d" using display_slot_step [OF _ NewDisplayMetadata_wf [OF Inr]] slot by blast
    obtain mem2 d2 where c: "display_commit index ?d mem1 = (mem2, d2)" by (cases "display_commit index ?d mem1")
    have "wf_memory mem2 \<and> view mem2 = view mem1" using display_commit_ok [OF _ _ d c] slot by blast
    moreover have "view mem1 = view mem" using slot by (simp add: view_def fun_eq_iff)
    ultimately show ?thesis using True ApplyDisplay_eq [OF Inr, of mem] s c by simp
  qed
next
  case False
  then show ?thesis using wf by (cases ctx) (simp_all add: ApplyDisplayMetadata_def checkContext_def)
qed

section \<open>Local reads and the chat list\<close>

lemma MarkRead_ok:
  assumes wf: "wf_memory mem" and cid: "valid_identifier (chat_id_value cid)" and c: "chat_at mem (chat_id_value cid) = Some c"
  shows "\<exists>mem'. MarkChatLocallyRead LiveContext cid through mem = (mem', None) \<and> wf_memory mem' \<and> view mem' = view mem
    \<and> chat_at mem' = (if through < chat_lastMessageAt c then chat_at mem
        else (chat_at mem)(chat_id_value cid \<mapsto> c\<lparr>chat_nameTruncated := False, chat_unreadCount := 0\<rparr>))"
proof -
  obtain current where cur: "map_of (mem_chats mem) (chat_id_value cid) = Some current" "mc_chat current = c"
    using c by (auto simp: chat_at_def)
  have "wf_chat c" using chat_of [OF wf cur(1)] cur(2) by (simp add: wf_memory_chat_def)
  then have eq: "MarkChatLocallyRead LiveContext cid through mem =
      (if through < chat_lastMessageAt c then (mem, None)
       else (mem\<lparr>mem_chats := AList.update (chat_id_value cid)
         (current\<lparr>mc_chat := c\<lparr>chat_nameTruncated := False, chat_unreadCount := 0\<rparr>\<rparr>) (mem_chats mem)\<rparr>, None))"
    using cid cur by (simp add: MarkChatLocallyRead_def checkContext_def new_id_ok rebuildChatUnread_eq)
  have "wf_memory (fst (MarkChatLocallyRead LiveContext cid through mem))" by (rule MarkChatLocallyRead_wf [OF wf])
  then show ?thesis using cur by (auto simp: eq view_def chat_at_def update_conv' fun_eq_iff)
qed

definition chat_listing :: "chat \<Rightarrow> listing" where
  "chat_listing c = Listing (chat_lastMessageAt c) (chat_id_value (chat_ID c))"

interpretation listed_chats: key_order chat_listed_before chat_listing
  by unfold_locales (auto simp: chat_listed_before_def chat_listing_def less_listing_def)

lemma stored_chats_distinct:
  assumes "wf_memory mem"
  shows "distinct (map chat_listing (map (\<lambda>kc. mc_chat (snd kc)) (mem_chats mem)))"
    and "set (map (\<lambda>kc. mc_chat (snd kc)) (mem_chats mem)) = ran (chat_at mem)"
proof -
  have key: "chat_id_value (chat_ID (mc_chat (snd kc))) = fst kc" if "kc \<in> set (mem_chats mem)" for kc
    using assms that by (simp add: wf_memory_def wf_memory_chat_def)
  have dist: "distinct (map fst (mem_chats mem))" using assms by (simp add: wf_memory_def)
  then have "inj_on fst (set (mem_chats mem))" "distinct (mem_chats mem)" by (simp_all add: distinct_map)
  then have "inj_on (\<lambda>kc. chat_listing (mc_chat (snd kc))) (set (mem_chats mem))"
    using key by (intro inj_onI) (metis chat_listing_def inj_onD listing.inject)
  then show "distinct (map chat_listing (map (\<lambda>kc. mc_chat (snd kc)) (mem_chats mem)))"
    using \<open>distinct (mem_chats mem)\<close> by (simp add: distinct_map comp_def inj_on_def)
  have "ran (chat_at mem) = mc_chat ` ran (map_of (mem_chats mem))" by (auto simp: chat_at_def ran_def)
  then show "set (map (\<lambda>kc. mc_chat (snd kc)) (mem_chats mem)) = ran (chat_at mem)"
    by (simp add: ran_distinct [OF dist] image_image)
qed

lemma ListChats_eq:
  assumes wf: "wf_memory mem"
  obtains cs where "set cs = ran (chat_at mem)" "sorted_wrt chat_listed_before cs" "length cs = length (mem_chats mem)"
    "store_ListChats LiveContext limit mem = Inr (take (nat (boundedChatListLimit limit)) cs)"
proof -
  let ?cs = "sort_slice chat_listed_before (map (\<lambda>kc. mc_chat (snd kc)) (mem_chats mem))"
  have pos: "0 < boundedChatListLimit limit" by (simp add: boundedChatListLimit_def MaxChatSummaries_def)
  have "distinct (map chat_listing ?cs)" unfolding distinct_sort_slice by (rule stored_chats_distinct(1) [OF wf])
  then have "sorted_wrt (<) (map chat_listing ?cs)" using listed_chats.sorted_sort_slice by (simp add: strict_sorted_iff)
  then have "sorted_wrt chat_listed_before ?cs" by (simp add: sorted_wrt_map flip: listed_chats.lt_key)
  moreover have "store_ListChats LiveContext limit mem = Inr (take (nat (boundedChatListLimit limit)) ?cs)"
    using pos by (simp add: store_ListChats_def checkContext_def Let_def)
  ultimately show ?thesis using that [of ?cs] stored_chats_distinct(2) [OF wf] by simp
qed

section \<open>The usage report\<close>

text \<open>Saturating additions of non-negative sizes compute the exact sum, cut at the largest \<open>int64\<close>.\<close>

definition saturated :: "int \<Rightarrow> int" where
  "saturated n = min max_int n"

lemma addSaturated_eq: "0 \<le> r \<Longrightarrow> addSaturated (saturated l) r = saturated (l + r)"
  by (auto simp: addSaturated_def saturated_def min_def)

lemma saturated_zero [simp]: "saturated 0 = 0"
  by (simp add: saturated_def max_int_def)

definition message_cost :: "message \<Rightarrow> int" where
  "message_cost m = storeMessageEnvelopeBytes + msg_byteSize m"

definition bodies_of :: "message list \<Rightarrow> int" where
  "bodies_of ms = len (filter msg_bodyRetained ms)"

lemma usage_messages:
  "\<forall>m \<in> set ms. 0 \<le> message_cost m \<Longrightarrow> foldl usage_message (saturated b, n, k) ms =
    (saturated (b + (\<Sum>m\<leftarrow>ms. message_cost m)), n + len ms, k + bodies_of ms)"
proof (induction ms arbitrary: b n k)
  case (Cons m ms)
  have "usage_message (saturated b, n, k) m = (saturated (b + message_cost m), n + 1, k + bodies_of [m])"
    using Cons.prems by (simp add: usage_message_def addSaturated_eq bodies_of_def flip: message_cost_def)
  then show ?case using Cons by (simp add: bodies_of_def add.assoc)
qed (simp add: bodies_of_def)

definition chat_cost :: "memory_chat \<Rightarrow> int" where
  "chat_cost c = chat_bytes (mc_chat c) + (\<Sum>m\<leftarrow>map snd (mc_messages c). message_cost m)
     + (if mc_hasAnchor c then anchor_bytes (mc_anchor c) else 0)"

lemma chat_bytes_nonneg: "0 \<le> chat_bytes c" "0 \<le> anchor_bytes a"
  by (simp_all add: chat_bytes_def chatEnvelopeBytes_def anchor_bytes_def anchorEnvelopeBytes_def)

lemma usage_chats:
  "\<forall>c \<in> set cs. \<forall>m \<in> set (map snd (mc_messages c)). 0 \<le> message_cost m \<Longrightarrow> foldl usage_chat (saturated b, n, k, a) cs =
    (saturated (b + (\<Sum>c\<leftarrow>cs. chat_cost c)), n + (\<Sum>c\<leftarrow>cs. len (mc_messages c)),
     k + (\<Sum>c\<leftarrow>cs. bodies_of (map snd (mc_messages c))), a + len (filter mc_hasAnchor cs))"
proof (induction cs arbitrary: b n k a)
  case (Cons c cs)
  have "\<forall>m \<in> set (map snd (mc_messages c)). 0 \<le> message_cost m" using Cons.prems by simp
  from usage_messages [OF this]
  have "usage_chat (saturated b, n, k, a) c = (saturated (b + chat_cost c), n + len (mc_messages c),
      k + bodies_of (map snd (mc_messages c)), a + len (filter mc_hasAnchor [c]))"
    by (simp add: usage_chat_def addSaturated_eq chat_bytes_nonneg chat_cost_def add.assoc)
  then show ?case using Cons by (simp add: add.assoc)
qed simp

definition display_cost :: "display_metadata list \<Rightarrow> int" where
  "display_cost ds = (\<Sum>d\<leftarrow>filter (\<lambda>d. chat_id_value (dm_id d) \<noteq> []) ds. 32 + display_ByteSize d)"

lemma usage_display_eq: "usage_display ds = saturated (display_cost ds)"
proof -
  have "foldl (\<lambda>n d. if chat_id_value (dm_id d) \<noteq> [] then addSaturated n (32 + display_ByteSize d) else n) (saturated b) ds
      = saturated (b + display_cost ds)" for b
    by (induction ds arbitrary: b) (simp_all add: addSaturated_eq display_ByteSize_def display_cost_def add.assoc)
  from this [of 0] show ?thesis by (simp add: usage_display_def)
qed

lemma sum_list_nonneg_map: "(\<And>x. x \<in> set xs \<Longrightarrow> 0 \<le> f x) \<Longrightarrow> 0 \<le> (\<Sum>x\<leftarrow>xs. f x :: int)"
  by (induction xs) auto

lemma Usage_eq:
  assumes wf: "wf_memory mem"
  shows "\<exists>u. store_Usage LiveContext mem = Inr u \<and> wf_usage u
    \<and> use_estimatedBytes u = saturated (display_cost (mem_display mem) + (\<Sum>c\<leftarrow>map snd (mem_chats mem). chat_cost c))
    \<and> use_chats u = len (mem_chats mem) \<and> use_messages u = (\<Sum>c\<leftarrow>map snd (mem_chats mem). len (mc_messages c))
    \<and> use_bodies u = (\<Sum>c\<leftarrow>map snd (mem_chats mem). bodies_of (map snd (mc_messages c)))
    \<and> use_anchors u = len (filter mc_hasAnchor (map snd (mem_chats mem)))"
proof -
  have cost: "0 \<le> message_cost m" if "c \<in> set (map snd (mem_chats mem))" "m \<in> set (map snd (mc_messages c))" for c m
  proof -
    have "wf_message m" using that wf by (auto simp: wf_memory_def wf_memory_chat_def wf_stored_def)
    then show ?thesis using wf_message_bounds [of m] by (simp add: message_cost_def storeMessageEnvelopeBytes_def)
  qed
  have chats: "0 \<le> chat_cost c" if "c \<in> set (map snd (mem_chats mem))" for c
    using sum_list_nonneg_map [of "map snd (mc_messages c)" message_cost] cost [OF that] chat_bytes_nonneg
    by (auto simp: chat_cost_def)
  have "0 \<le> display_cost (mem_display mem)"
    unfolding display_cost_def by (rule sum_list_nonneg_map) (simp add: display_ByteSize_def)
  moreover have "0 \<le> (\<Sum>c\<leftarrow>map snd (mem_chats mem). chat_cost c)" by (rule sum_list_nonneg_map [OF chats])
  ultimately have bytes: "0 \<le> saturated (display_cost (mem_display mem) + (\<Sum>c\<leftarrow>map snd (mem_chats mem). chat_cost c))"
    by (simp add: saturated_def max_int_def)
  have bodies: "0 \<le> (\<Sum>c\<leftarrow>map snd (mem_chats mem). bodies_of (map snd (mc_messages c)))"
    "0 \<le> (\<Sum>c\<leftarrow>map snd (mem_chats mem). len (mc_messages c))"
    by (rule sum_list_nonneg_map, simp add: bodies_of_def)+
  have "\<forall>c \<in> set (map snd (mem_chats mem)). \<forall>m \<in> set (map snd (mc_messages c)). 0 \<le> message_cost m" using cost by blast
  from usage_chats [OF this, of "display_cost (mem_display mem)" 0 0 0]
  show ?thesis
    using bytes bodies by (simp add: store_Usage_def checkContext_def usage_display_eq NewCacheUsage_def wf_usage_def del: map_map)
qed

end
