(* ===== verification/StoreContract.thy ===== *)
theory StoreContract
  imports StoreDisplay
begin

text \<open>
  What the in-memory store promises to the service: its invariant over any sequence of calls, the meaning of a write,
  the live events it announces, counters, pages and prunes.
\<close>

section \<open>What a batch inserts\<close>

abbreviation place :: "message \<Rightarrow> string \<times> string" where
  "place m \<equiv> (chat_key m, message_key m)"

definition occupied :: "message_view \<Rightarrow> (string \<times> string) set" where
  "occupied V = {(ck, mk). V ck mk \<noteq> None}"

definition newly_inserted :: "message_view \<Rightarrow> message list \<Rightarrow> message list" where
  "newly_inserted V ms = inserted_messages (zip ms (inserted_flags V ms))"

lemma apply_message_occupied:
  assumes V: "wf_view V" and m: "wf_message m" and ap: "apply_message V m = Some V'"
  shows "occupied V' = insert (place m) (occupied V)"
proof (cases "V (chat_key m) (message_key m)")
  case None
  then have "V' = put_view V m" using ap by (simp add: apply_message_def)
  then show ?thesis by (auto simp: occupied_def put_view_def split: if_splits)
next
  case (Some prior)
  then have same: "msg_sentAt prior = msg_sentAt m" "msg_fromMe prior = msg_fromMe m"
    and V': "V' = put_view V (merge_duplicate prior m)"
    using ap by (auto simp: apply_message_def split: if_splits)
  have prior: "wf_message prior" "message_key prior = message_key m" "chat_key prior = chat_key m"
    using V Some unfolding wf_view_def by blast+
  have "chat_key (merge_duplicate prior m) = chat_key m" "message_key (merge_duplicate prior m) = message_key m"
    using same_place_keys [OF merge_duplicate_wf(2) [OF prior(1) m same_place_prior [OF prior same]]] by simp_all
  then show ?thesis using Some by (auto simp: occupied_def V' put_view_def split: if_splits)
qed

text \<open>The inserted messages are the places that become occupied, each once.\<close>

lemma newly_inserted_places:
  "wf_view V \<Longrightarrow> \<forall>m \<in> set ms. wf_message m \<Longrightarrow> apply_messages V ms = Some V' \<Longrightarrow>
    distinct (map place (newly_inserted V ms)) \<and> place ` set (newly_inserted V ms) = occupied V' - occupied V
    \<and> occupied V \<subseteq> occupied V'"
proof (induction ms arbitrary: V)
  case Nil
  then show ?case by (simp add: newly_inserted_def)
next
  case (Cons m ms)
  then obtain V1 where V1: "apply_message V m = Some V1" "apply_messages V1 ms = Some V'" by (auto split: bind_splits)
  have m: "wf_message m" using Cons.prems(2) by simp
  have wf1: "wf_view V1" using apply_message_places [OF Cons.prems(1) m V1(1)] by blast
  have rest: "\<forall>m \<in> set ms. wf_message m" using Cons.prems(2) by simp
  note IH = Cons.IH [OF wf1 rest V1(2)]
  note occ = apply_message_occupied [OF Cons.prems(1) m V1(1)]
  have split: "newly_inserted V (m # ms) = (if V (chat_key m) (message_key m) = None then m # newly_inserted V1 ms else newly_inserted V1 ms)"
    using V1(1) by (cases "V (chat_key m) (message_key m)") (simp_all add: newly_inserted_def)
  show ?case
  proof (cases "place m \<in> occupied V")
    case True
    then have old: "occupied V1 = occupied V" unfolding occ by (rule insert_absorb)
    have "V (chat_key m) (message_key m) \<noteq> None" using True unfolding occupied_def by blast
    then have eq: "newly_inserted V (m # ms) = newly_inserted V1 ms" unfolding split by (rule if_not_P)
    show ?thesis using IH unfolding eq old .
  next
    case False
    then have none: "V (chat_key m) (message_key m) = None" by (simp add: occupied_def)
    have "place m \<in> occupied V1" using occ by blast
    then have "place m \<in> occupied V'" "place m \<notin> place ` set (newly_inserted V1 ms)" using IH by blast+
    then have "distinct (map place (m # newly_inserted V1 ms))"
      "place ` set (m # newly_inserted V1 ms) = occupied V' - occupied V" "occupied V \<subseteq> occupied V'"
      using IH False unfolding occ by auto
    then show ?thesis using none split by simp
  qed
qed

lemma list_all2_ex: "list_all2 P xs ys \<Longrightarrow> y \<in> set ys \<Longrightarrow> \<exists>x \<in> set xs. P x y"
  by (induction rule: list_all2_induct) auto

lemma occupied_cleared [simp]: "occupied (cleared V) = occupied V"
  by (auto simp: occupied_def cleared_def)

section \<open>Sequences of calls\<close>

text \<open>The calls of the store interface that may change it.\<close>

datatype store_call =
    CallEnsure chat | CallRead chat_id instant | CallDisplay display_metadata | CallWrite write_batch | CallRealtime write_batch
  | CallPrune prune_plan

fun store_step :: "context_state \<times> store_call \<Rightarrow> memory \<Rightarrow> memory" where
  "store_step (ctx, CallEnsure c) mem = fst (EnsureChat ctx c mem)"
| "store_step (ctx, CallRead c t) mem = fst (MarkChatLocallyRead ctx c t mem)"
| "store_step (ctx, CallDisplay d) mem = fst (ApplyDisplayMetadata ctx d mem)"
| "store_step (ctx, CallWrite b) mem = fst (store_Write ctx b mem)"
| "store_step (ctx, CallRealtime b) mem = fst (store_WriteRealtime ctx b mem)"
| "store_step (ctx, CallPrune p) mem = fst (store_ApplyPrune ctx p mem)"

definition call_ok :: "store_call \<Rightarrow> bool" where
  "call_ok c = (case c of CallWrite b \<Rightarrow> wf_batch b | CallRealtime b \<Rightarrow> wf_batch b | _ \<Rightarrow> True)"

lemma store_Write_fst: "fst (store_Write ctx b mem) = fst (store_writeBatch ctx b False mem)"
  by (auto simp: store_Write_def split: prod.split sum.split)

lemma store_step_wf: "wf_memory mem \<Longrightarrow> call_ok (snd call) \<Longrightarrow> wf_memory (store_step call mem)"
  by (cases call; cases "snd call")
    (auto simp: call_ok_def EnsureChat_wf MarkChatLocallyRead_wf ApplyDisplay_ok store_Write_fst writeBatch_wf ApplyPrune_wf
      store_WriteRealtime_def)

text \<open>Values for the witnesses.\<close>

definition sample_store :: memory where
  "sample_store = (case NewMemory 5 of Inr mem \<Rightarrow> mem)"

definition sample_batch :: write_batch where
  "sample_batch = \<lparr>batch_origin = WriteRealtime,
     batch_messages = [sample_message ''c'' ''m'' 5, sample_message ''c'' ''n'' 6], batch_byteSize = 0\<rparr>"

lemma sample_store_wf: "wf_memory sample_store" "mem_chats sample_store = []"
  using NewMemory_wf [of 5 sample_store] by (simp_all add: sample_store_def NewMemory_def)

lemma sample_messages_wf: "wf_message (sample_message ''c'' ''m'' 5)" "wf_message (sample_message ''c'' ''n'' 6)"
  by (intro sample_message_wf ascii_clean; simp add: ascii_eval)+

lemma sample_batch_wf: "wf_batch sample_batch"
  using sample_messages_wf
  by (simp add: wf_batch_def sample_batch_def MaxWriteBatchMessages_def validateWriteOrigin_def WriteRealtime_def WriteHistory_def)

lemma sample_view: "view sample_store = (\<lambda>_ _. None)"
  using sample_store_wf(2) by (simp add: view_def fun_eq_iff)

lemma sample_applies:
  "\<exists>V. apply_messages (view sample_store) (batch_messages sample_batch) = Some V \<and> fits sample_store (batch_messages sample_batch) V
    \<and> newly_inserted (view sample_store) (batch_messages sample_batch) = batch_messages sample_batch"
proof -
  let ?V = "put_view (put_view (\<lambda>_ _. None) (sample_message ''c'' ''m'' 5)) (sample_message ''c'' ''n'' 6)"
  have ap: "apply_messages (view sample_store) (batch_messages sample_batch) = Some ?V"
    by (simp add: sample_view sample_batch_def apply_message_def put_view_def)
  have "dom (?V ck) \<subseteq> {''m'', ''n''}" for ck by (auto simp: put_view_def)
  then have "card (dom (?V ck)) \<le> card {''m'', ''n''}" for ck by (intro card_mono) simp_all
  then have "card (dom (?V ck)) \<le> 2" for ck by (simp add: eval_nat_numeral)
  then have "int (card (dom (?V ck))) \<le> 2" for ck by (metis of_nat_le_iff of_nat_numeral)
  then have "int (card (dom (?V ck))) \<le> MaxRetentionSnapshotSummaries" for ck
    unfolding MaxRetentionSnapshotSummaries_def by (rule order_trans) simp
  moreover have "mem_maxChats sample_store = 5" by (simp add: sample_store_def NewMemory_def)
  ultimately have "fits sample_store (batch_messages sample_batch) ?V"
    by (simp add: fits_def sample_store_wf sample_batch_def)
  then show ?thesis using ap by (simp add: newly_inserted_def sample_view sample_batch_def apply_message_def put_view_def)
qed

section \<open>Properties\<close>

text \<open>C3: Every sequence of calls on a new store, with live, nil or ended contexts, keeps the store invariant: the
  configured number of chats, at most 551 messages per chat, every message well-formed and filed under its own
  identifiers with its notification bit cleared, anchors of the right chat, and a display cache of 128 slots.\<close>

theorem store_invariant:
  assumes "NewMemory n = Inr mem" "\<forall>call \<in> set calls. call_ok (snd call)"
  shows "wf_memory (fold store_step calls mem)"
proof -
  have "wf_memory mem \<Longrightarrow> wf_memory (fold store_step calls mem)" using assms(2)
    by (induction calls arbitrary: mem) (simp_all add: store_step_wf)
  then show ?thesis using NewMemory_wf [OF assms(1)] by blast
qed

theorem store_invariant_witness:
  "wf_memory (fold store_step [(LiveContext, CallRealtime sample_batch), (DoneContext, CallWrite sample_batch)] sample_store)"
  by (rule store_invariant [where n = 5]) (simp_all add: sample_store_def NewMemory_def call_ok_def sample_batch_wf)

text \<open>C1: A write is the one-by-one application of its messages to the stored messages: it is refused when one of them
  contradicts a stored message, runs out of room exactly when the result would not fit, and otherwise stores
  exactly that result with every notification bit cleared.\<close>

theorem write_refines_application:
  assumes "wf_memory mem" "wf_batch batch" "batch_messages batch \<noteq> []"
  shows "case apply_messages (view mem) (batch_messages batch) of
      None \<Rightarrow> store_Write LiveContext batch mem = (mem, Some StoreRejected)
    | Some V \<Rightarrow>
        if fits mem (batch_messages batch) V
        then \<exists>mem'. store_Write LiveContext batch mem = (mem', None) \<and> wf_memory mem' \<and> view mem' = cleared V
        else store_Write LiveContext batch mem = (mem, Some StoreCapacity)"
  using writeBatch_cases [OF assms, of False]
  by (auto simp: store_Write_def write_post_def Let_def split: option.splits if_splits)

theorem write_refines_application_witness:
  "\<exists>mem'. store_Write LiveContext sample_batch sample_store = (mem', None) \<and> view mem' ''c'' ''m'' \<noteq> None"
proof -
  obtain V where V: "apply_messages (view sample_store) (batch_messages sample_batch) = Some V"
    "fits sample_store (batch_messages sample_batch) V" using sample_applies by blast
  have ne: "batch_messages sample_batch \<noteq> []" by (simp add: sample_batch_def)
  obtain mem' where mem': "store_Write LiveContext sample_batch sample_store = (mem', None)" "view mem' = cleared V"
    using write_refines_application [OF sample_store_wf(1) sample_batch_wf ne] V by auto
  have "V ''c'' ''m'' \<noteq> None" using V(1) by (auto simp: sample_view sample_batch_def apply_message_def put_view_def)
  then show ?thesis using mem' by (auto simp: cleared_def)
qed

lemma event_of_message:
  "wf_view V \<Longrightarrow> event_of V m e \<Longrightarrow>
     place (live_message e) = place m \<and> wf_live e \<and> V (chat_key m) (message_key m) = Some (live_message e)"
  unfolding event_of_def wf_view_def by blast

lemma realtime_post:
  assumes "wf_memory mem" "wf_batch batch" "batch_messages batch \<noteq> []" "store_WriteRealtime LiveContext batch mem = (mem', Inr events)"
  obtains V where "apply_messages (view mem) (batch_messages batch) = Some V" "wf_view V" "wf_memory mem'" "view mem' = cleared V"
    "list_all2 (event_of V) (newly_inserted (view mem) (batch_messages batch)) events"
    "map (\<lambda>e. place (live_message e)) events = map place (newly_inserted (view mem) (batch_messages batch))"
proof -
  let ?new = "newly_inserted (view mem) (batch_messages batch)"
  have written: "store_writeBatch LiveContext batch True mem = (mem', Inr events)"
    using assms(4) by (auto simp: store_WriteRealtime_def split: if_splits)
  obtain V where V: "apply_messages (view mem) (batch_messages batch) = Some V"
    and post: "wf_memory mem'" "view mem' = cleared V" "list_all2 (event_of V) ?new events"
    using writeBatch_cases [OF assms(1-3), of True] written
    by (auto simp: write_post_def Let_def newly_inserted_def split: option.splits if_splits)
  have ms: "\<forall>m \<in> set (batch_messages batch). wf_message m" using assms(2) by (simp add: wf_batch_def)
  have V_wf: "wf_view V" using apply_messages_places [OF view_wf_view [OF assms(1)] ms V] by blast
  have "map (\<lambda>e. place (live_message e)) events = map place ?new"
    using post(3) event_of_message [OF V_wf] by (induction rule: list_all2_induct) auto
  then show thesis using that V V_wf post by blast
qed

text \<open>C2: A realtime write announces exactly what it inserted: one event per place that became occupied, in batch order,
  each carrying the message as stored after the whole batch.\<close>

theorem live_events_announce_insertions:
  assumes "wf_memory mem" "wf_batch batch" "batch_messages batch \<noteq> []" "store_WriteRealtime LiveContext batch mem = (mem', Inr events)"
  shows "distinct (map (\<lambda>e. place (live_message e)) events)
    \<and> place ` live_message ` set events = occupied (view mem') - occupied (view mem)
    \<and> map (\<lambda>e. place (live_message e)) events = map place (newly_inserted (view mem) (batch_messages batch))
    \<and> (\<forall>e \<in> set events. wf_live e
        \<and> view mem' (chat_key (live_message e)) (message_key (live_message e)) = Some (message_WithNotificationEligibility (live_message e) False))"
proof -
  let ?new = "newly_inserted (view mem) (batch_messages batch)"
  obtain V where V: "apply_messages (view mem) (batch_messages batch) = Some V" "wf_view V"
    and post: "view mem' = cleared V" "list_all2 (event_of V) ?new events"
    and same: "map (\<lambda>e. place (live_message e)) events = map place ?new"
    using realtime_post [OF assms] by blast
  have ms: "\<forall>m \<in> set (batch_messages batch). wf_message m" using assms(2) by (simp add: wf_batch_def)
  note ins = newly_inserted_places [OF view_wf_view [OF assms(1)] ms V(1)]
  have keys: "place ` live_message ` set events = place ` set ?new"
    using arg_cong [OF same, of set] by (simp add: image_image)
  have "wf_live e \<and> view mem' (chat_key (live_message e)) (message_key (live_message e))
      = Some (message_WithNotificationEligibility (live_message e) False)" if "e \<in> set events" for e
  proof -
    from that obtain m where "event_of V m e" using list_all2_ex [OF post(2)] by blast
    then show ?thesis using event_of_message [OF V(2), of m e] by (auto simp: post(1) cleared_def)
  qed
  then show ?thesis using ins same keys by (simp add: post(1))
qed

theorem live_events_announce_insertions_witness:
  "\<exists>mem' events. store_WriteRealtime LiveContext sample_batch sample_store = (mem', Inr events)
    \<and> map (\<lambda>e. place (live_message e)) events = [(''c'', ''m''), (''c'', ''n'')]"
proof -
  obtain V where V: "apply_messages (view sample_store) (batch_messages sample_batch) = Some V"
    "fits sample_store (batch_messages sample_batch) V"
    "newly_inserted (view sample_store) (batch_messages sample_batch) = batch_messages sample_batch" using sample_applies by blast
  have ne: "batch_messages sample_batch \<noteq> []" by (simp add: sample_batch_def)
  obtain mem' events where w: "store_writeBatch LiveContext sample_batch True sample_store = (mem', Inr events)"
    using writeBatch_cases [OF sample_store_wf(1) sample_batch_wf ne, of True] V by auto
  then have r: "store_WriteRealtime LiveContext sample_batch sample_store = (mem', Inr events)"
    by (simp add: store_WriteRealtime_def sample_batch_def)
  from live_events_announce_insertions [OF sample_store_wf(1) sample_batch_wf ne r] show ?thesis
    using r V(3) by (simp add: sample_batch_def)
qed

text \<open>C9: A write that fails leaves the store exactly as it was: no chat, message, counter or anchor of a refused batch stays.\<close>

theorem failed_write_changes_nothing:
  "case store_Write ctx batch mem of (mem', None) \<Rightarrow> True | (mem', Some e) \<Rightarrow> mem' = mem"
  using writeBatch_failed [of ctx batch False mem] by (auto simp: store_Write_def split: prod.splits sum.splits option.splits)

lemma read_pages_stable:
  assumes wf: "wf_memory mem" and cid: "valid_identifier (chat_id_value cid)" and limit: "0 < limit"
  shows "validateCursor cur \<Longrightarrow> older_rows mem (chat_id_value cid) cur = drop k (rows mem (chat_id_value cid)) \<Longrightarrow>
    fuel \<noteq> 0 \<Longrightarrow> length (rows mem (chat_id_value cid)) < k + fuel \<Longrightarrow>
    read_pages (fuel + extra) cid cur limit mem = read_pages fuel cid cur limit mem"
proof (induction fuel arbitrary: cur k)
  case (Suc fuel)
  let ?rs = "rows mem (chat_id_value cid)" and ?n = "page_limit limit"
  have n: "0 < ?n" using limit by (simp add: page_limit_def maxPageMessages_def)
  have page: "store_Page LiveContext cid cur limit mem = Inr (take ?n (drop k ?rs), next_cursor ?n (drop k ?rs))"
    using Page_eq [OF wf cid Suc.prems(1) limit] Suc.prems(2) by (simp add: Let_def)
  show ?case
  proof (cases "?n < length (drop k ?rs)")
    case True
    note nxt = older_rows_next [OF wf n True]
    have "read_pages (fuel + extra) cid (next_cursor ?n (drop k ?rs)) limit mem
        = read_pages fuel cid (next_cursor ?n (drop k ?rs)) limit mem"
      by (rule Suc.IH [OF nxt(2,1)]) (use Suc.prems(4) n True in auto)
    then show ?thesis using page by simp
  next
    case False
    then show ?thesis using page by (simp add: next_cursor_def)
  qed
qed simp

definition sample_chat_store :: memory where
  "sample_chat_store = sample_store\<lparr>mem_chats := AList.update ''c'' (empty_chat (placeholder_chat ''c'')) (mem_chats sample_store)\<rparr>"

lemma sample_chat_store_wf: "wf_memory sample_chat_store"
proof -
  have "valid_identifier ''c''" by (rule ascii_clean; simp add: ascii_eval)
  then have "wf_memory_chat ''c'' (empty_chat (placeholder_chat ''c''))"
    using empty_chat_wf [OF placeholder_wf, of "''c''"] by (simp add: placeholder_chat_def)
  then show ?thesis
    unfolding sample_chat_store_def
    by (rule wf_memory_put [OF sample_store_wf(1)]) (simp add: sample_store_wf(2), simp add: sample_store_def NewMemory_def)
qed

lemma sample_chat_view: "view sample_chat_store = (\<lambda>_ _. None)"
  by (simp add: view_def fun_eq_iff sample_chat_store_def sample_store_wf(2) empty_chat_def)

lemma sample_chat_at: "chat_at sample_chat_store = [''c'' \<mapsto> placeholder_chat ''c'']"
  by (simp add: chat_at_def fun_eq_iff sample_chat_store_def sample_store_wf(2) empty_chat_def)

text \<open>C8: A realtime write raises the unread counter of a chat by the number of newly inserted messages of other people and
  stops at the largest counter value instead of wrapping; a history write leaves every counter alone.\<close>

theorem unread_counts_new_messages:
  assumes "wf_memory mem" "wf_batch batch" "batch_messages batch \<noteq> []" "store_Write LiveContext batch mem = (mem', None)"
    "chat_at mem ck = Some c"
  shows "\<exists>c'. chat_at mem' ck = Some c' \<and> unat (chat_unreadCount c') =
    (if batch_origin batch = WriteRealtime
     then min (unat (chat_unreadCount c)
       + length (filter (\<lambda>m. chat_key m = ck \<and> \<not> msg_fromMe m) (newly_inserted (view mem) (batch_messages batch)))) (2 ^ 32 - 1)
     else unat (chat_unreadCount c))"
proof -
  let ?new = "newly_inserted (view mem) (batch_messages batch)" and ?b = "batch_origin batch = WriteRealtime"
  have "chat_at mem' = advanced_to mem ?b ?new"
    using writeBatch_cases [OF assms(1-3), of False] assms(4)
    by (auto simp: store_Write_def write_post_def Let_def newly_inserted_def split: option.splits if_splits)
  moreover have base: "base_chat mem [] ck = c" using assms(5) by (auto simp: base_chat_def chat_at_def)
  moreover have "length (filter (\<lambda>m. chat_key m = ck \<and> \<not> msg_fromMe m) ?new) = length (filter (\<lambda>m. \<not> msg_fromMe m) (in_chat ck ?new))"
    unfolding in_chat_def filter_filter by (rule arg_cong [where f = length], rule filter_cong) auto
  ultimately show ?thesis
    using assms(5) advance_fold_unread [of mem ?b c "in_chat ck ?new"] unat_max_word32(1) [of "chat_unreadCount c"]
    by (auto simp: advanced_to_def incoming_def)
qed

theorem unread_counts_new_messages_witness:
  "\<exists>mem c. store_Write LiveContext sample_batch sample_chat_store = (mem, None) \<and> chat_at mem ''c'' = Some c
     \<and> unat (chat_unreadCount c) = 2"
proof -
  have ne: "batch_messages sample_batch \<noteq> []" by (simp add: sample_batch_def)
  have same: "view sample_chat_store = view sample_store" by (simp add: sample_view sample_chat_view)
  obtain V where V: "apply_messages (view sample_store) (batch_messages sample_batch) = Some V"
    "fits sample_store (batch_messages sample_batch) V"
    "newly_inserted (view sample_store) (batch_messages sample_batch) = batch_messages sample_batch" using sample_applies by blast
  have "fits sample_chat_store (batch_messages sample_batch) V"
    using V(2) by (simp add: fits_def sample_chat_store_def sample_batch_def sample_store_wf)
  then obtain mem where w: "store_Write LiveContext sample_batch sample_chat_store = (mem, None)"
    using writeBatch_cases [OF sample_chat_store_wf sample_batch_wf ne, of False] V(1) by (auto simp: same store_Write_def)
  have "chat_at sample_chat_store ''c'' = Some (placeholder_chat ''c'')" by (simp add: sample_chat_at)
  from unread_counts_new_messages [OF sample_chat_store_wf sample_batch_wf ne w this] show ?thesis
    using w V(3) by (auto simp: same sample_batch_def placeholder_chat_def zero_chat_def)
qed

text \<open>C16: Marking a chat as read clears its counter when nothing newer than the given instant was stored, leaves it alone
  otherwise, and touches neither the messages nor another chat.\<close>

theorem mark_read_clears_counter:
  assumes "wf_memory mem" "valid_identifier (chat_id_value cid)" "chat_at mem (chat_id_value cid) = Some c"
  shows "\<exists>mem'. MarkChatLocallyRead LiveContext cid through mem = (mem', None) \<and> view mem' = view mem
    \<and> (\<forall>ck. chat_at mem' ck =
        (if ck = chat_id_value cid \<and> chat_lastMessageAt c \<le> through
         then Some (c\<lparr>chat_nameTruncated := False, chat_unreadCount := 0\<rparr>) else chat_at mem ck))"
  using MarkRead_ok [OF assms, of through] assms(3) by (auto simp: not_less split: if_splits)

theorem mark_read_clears_counter_witness:
  "\<exists>mem'. MarkChatLocallyRead LiveContext (ChatID ''c'') 5 sample_chat_store = (mem', None) \<and> view mem' = view sample_chat_store"
proof -
  have "valid_identifier ''c''" by (rule ascii_clean; simp add: ascii_eval)
  then show ?thesis
    using mark_read_clears_counter [OF sample_chat_store_wf, of "ChatID ''c''" "placeholder_chat ''c''" 5]
    by (auto simp: sample_chat_at)
qed

text \<open>C6: Following the cursors of \<open>Page\<close> from the start reads every stored message of the chat exactly once, newest first,
  in pages of at most the requested size and never more than a hundred; it ends by itself.\<close>

theorem pages_read_everything:
  assumes "wf_memory mem" "valid_identifier (chat_id_value cid)" "0 < limit"
  shows "\<exists>pages. (\<forall>extra. read_pages (Suc (length (rows mem (chat_id_value cid))) + extra) cid NoCursor limit mem = pages)
    \<and> concat pages = rows mem (chat_id_value cid)
    \<and> sorted_wrt (\<lambda>m n. store_newer m n) (concat pages) \<and> set (concat pages) = ran (view mem (chat_id_value cid))
    \<and> (\<forall>p \<in> set pages. int (length p) \<le> min limit 100)"
proof -
  let ?rs = "rows mem (chat_id_value cid)"
  have start: "validateCursor NoCursor" "older_rows mem (chat_id_value cid) NoCursor = drop 0 ?rs"
    by (simp_all add: validateCursor_def cursor_IsZero_iff older_rows_def)
  have stable: "read_pages (f + extra) cid cur limit mem = read_pages f cid cur limit mem"
    if "validateCursor cur" "older_rows mem (chat_id_value cid) cur = drop k ?rs" "f \<noteq> 0" "length ?rs < k + f" for f extra cur k
    by (rule read_pages_stable [OF assms that])
  have limit: "int (page_limit limit) \<le> min limit 100" using assms(3) by (auto simp: page_limit_def maxPageMessages_def)
  have all: "concat (read_pages (Suc (length ?rs)) cid NoCursor limit mem) = drop 0 ?rs
      \<and> (\<forall>p \<in> set (read_pages (Suc (length ?rs)) cid NoCursor limit mem). length p \<le> page_limit limit)"
    by (rule read_pages_from [OF assms start]) simp
  have "sorted_wrt (\<lambda>m n. store_newer m n) ?rs"
    using rows_sorted [OF assms(1)] by (simp add: newest_first_rows_def sorted_wrt_map store_newer_recency)
  moreover have "int (length p) \<le> min limit 100" if "p \<in> set (read_pages (Suc (length ?rs)) cid NoCursor limit mem)" for p
    using all that limit order_trans [of "int (length p)" "int (page_limit limit)"] by fastforce
  ultimately show ?thesis
    using all stable [OF start, of "Suc (length ?rs)"] rows_set [OF assms(1)]
    by (intro exI [of _ "read_pages (Suc (length ?rs)) cid NoCursor limit mem"]) simp
qed

theorem pages_read_everything_witness:
  "\<exists>pages. read_pages (Suc (length (rows sample_chat_store ''c''))) (ChatID ''c'') NoCursor 10 sample_chat_store = pages
    \<and> concat pages = rows sample_chat_store ''c''"
proof -
  have "valid_identifier ''c''" by (rule ascii_clean; simp add: ascii_eval)
  then show ?thesis
    using pages_read_everything [OF sample_chat_store_wf, of "ChatID ''c''" 10] by (metis add_0_right chat_id.sel zero_less_numeral)
qed

text \<open>Reads do not depend on the order the store's maps are walked in: two stores with the same messages give the same
  page for every cursor and limit.\<close>

theorem page_depends_on_messages_only:
  assumes "wf_memory mem" "wf_memory mem'" "view mem = view mem'"
  shows "store_Page ctx cid cur limit mem = store_Page ctx cid cur limit mem'"
proof -
  have rows: "rows mem ck = rows mem' ck" for ck by (rule rows_view) (simp_all add: assms)
  show ?thesis
  proof (cases "ctx = LiveContext \<and> valid_identifier (chat_id_value cid) \<and> validateCursor cur \<and> 0 < limit")
    case True
    then show ?thesis using Page_eq [OF assms(1)] Page_eq [OF assms(2)] rows by (simp add: older_rows_def)
  next
    case False
    have "\<not> valid_identifier (chat_id_value cid) \<Longrightarrow> \<exists>e. NewChatID (chat_id_value cid) = Inl e" by (rule chat_ids.make_fails)
    then show ?thesis using False by (cases ctx) (auto simp: store_Page_def checkContext_def split: sum.split)
  qed
qed

theorem page_depends_on_messages_only_witness:
  "store_Page LiveContext (ChatID ''c'') NoCursor 10 sample_chat_store = store_Page LiveContext (ChatID ''c'') NoCursor 10 sample_store"
  by (rule page_depends_on_messages_only [OF sample_chat_store_wf sample_store_wf(1)]) (simp add: sample_view sample_chat_view)

text \<open>Applying a prune plan removes exactly the listed messages of its chat and reports how many rows and bodies that
  was, moves the anchor exactly as the plan says, and leaves every other chat and all chat data alone.\<close>

theorem prune_removes_listed:
  assumes "wf_memory mem" "NewPrunePlan cid ids replacement = Inr p"
  shows "\<exists>mem' r. store_ApplyPrune LiveContext p mem = (mem', Inr r) \<and> wf_memory mem' \<and> chat_at mem' = chat_at mem
    \<and> view mem' = (view mem)(chat_id_value cid := (view mem (chat_id_value cid)) |` (- message_id_value ` set ids))
    \<and> pr_deletedRows r = int (card (dom (view mem (chat_id_value cid)) \<inter> message_id_value ` set ids))
    \<and> pr_removedBodies r = int (card {k \<in> message_id_value ` set ids. \<exists>m. view mem (chat_id_value cid) k = Some m \<and> msg_bodyRetained m})
    \<and> pr_anchorReplaced r = (stored_anchor mem' (chat_id_value cid) \<noteq> stored_anchor mem (chat_id_value cid))
    \<and> (\<forall>j. stored_anchor mem' j = (case replacement of None \<Rightarrow> stored_anchor mem j
         | Some a \<Rightarrow> if j = chat_id_value cid \<and> chat_at mem j \<noteq> None then Some a else stored_anchor mem j))"
proof -
  have p: "plan_chatID p = cid" "plan_deleteIDs p = ids" "plan_hasReplacement p = (replacement \<noteq> None)"
    "\<And>a. replacement = Some a \<Longrightarrow> plan_replacement p = a"
    using assms(2) unfolding NewPrunePlan_eq_Inr by (auto split: option.splits)
  then have l: "listed p = message_id_value ` set ids" by (simp add: listed_def)
  obtain mem' r where ap: "store_ApplyPrune LiveContext p mem = (mem', Inr r)" "prune_post mem p mem' r"
    using ApplyPrune_ok [OF assms(1) NewPrunePlan_wf [OF assms(2)]] by blast
  have post: "wf_memory mem'" "chat_at mem' = chat_at mem"
    "view mem' = (view mem)(chat_id_value cid := (view mem (chat_id_value cid)) |` (- message_id_value ` set ids))"
    "pr_deletedRows r = int (card (dom (view mem (chat_id_value cid)) \<inter> message_id_value ` set ids))"
    "pr_removedBodies r = int (card {k \<in> message_id_value ` set ids. \<exists>m. view mem (chat_id_value cid) k = Some m \<and> msg_bodyRetained m})"
    "pr_anchorReplaced r = (stored_anchor mem' (chat_id_value cid) \<noteq> stored_anchor mem (chat_id_value cid))"
    and anchors: "\<And>j. stored_anchor mem' j = (if j = chat_id_value cid \<and> replacement \<noteq> None \<and> chat_at mem (chat_id_value cid) \<noteq> None
      then Some (plan_replacement p) else stored_anchor mem j)"
    using ap(2) unfolding prune_post_def Let_def p(1,3) l by blast+
  have "stored_anchor mem' j = (case replacement of None \<Rightarrow> stored_anchor mem j
         | Some a \<Rightarrow> if j = chat_id_value cid \<and> chat_at mem j \<noteq> None then Some a else stored_anchor mem j)" for j
    using anchors [of j] p(4) by (cases "j = chat_id_value cid"; cases replacement; cases "chat_at mem j") simp_all
  then show ?thesis using ap(1) post by blast
qed

theorem prune_removes_listed_witness:
  "\<exists>p mem' r. NewPrunePlan (ChatID ''c'') [MessageID ''m''] None = Inr p \<and> store_ApplyPrune LiveContext p sample_chat_store = (mem', Inr r)
     \<and> pr_deletedRows r = 0"
proof -
  have ids: "valid_identifier ''c''" "valid_identifier ''m''" by (rule ascii_clean; simp add: ascii_eval)+
  have "\<exists>p. NewPrunePlan (ChatID ''c'') [MessageID ''m''] None = Inr p"
    by (rule exI [of _ "\<lparr>plan_chatID = ChatID ''c'', plan_deleteIDs = [MessageID ''m''], plan_replacement = zero_anchor, plan_hasReplacement = False\<rparr>"])
      (simp add: NewPrunePlan_eq_Inr ids MaxPrunePlanDeletes_def)
  then obtain p where p: "NewPrunePlan (ChatID ''c'') [MessageID ''m''] None = Inr p" by blast
  from prune_removes_listed [OF sample_chat_store_wf p] show ?thesis using p by (auto simp: sample_chat_view)
qed

text \<open>The chat list is the chats of the store, each once, by last activity and then by identifier, cut at the requested
  number and never longer than ten thousand.\<close>

theorem chat_list_sorted:
  assumes "wf_memory mem"
  shows "\<exists>cs. store_ListChats LiveContext limit mem = Inr (take (nat (boundedChatListLimit limit)) cs)
    \<and> set cs = ran (chat_at mem) \<and> sorted_wrt chat_listed_before cs \<and> length cs = card (dom (chat_at mem))
    \<and> 0 < boundedChatListLimit limit \<and> boundedChatListLimit limit \<le> 10000"
proof -
  obtain cs where cs: "set cs = ran (chat_at mem)" "sorted_wrt chat_listed_before cs" "length cs = length (mem_chats mem)"
    "store_ListChats LiveContext limit mem = Inr (take (nat (boundedChatListLimit limit)) cs)"
    by (rule ListChats_eq [OF assms])
  have "dom (chat_at mem) = dom (map_of (mem_chats mem))" by (auto simp: chat_at_def)
  moreover have "length (mem_chats mem) = card (dom (map_of (mem_chats mem)))" using assms by (intro length_dom) (simp add: wf_memory_def)
  ultimately show ?thesis using cs by (auto simp: boundedChatListLimit_def MaxChatSummaries_def)
qed

theorem chat_list_sorted_witness: "\<exists>cs. store_ListChats LiveContext 10 sample_chat_store = Inr cs \<and> length cs = 1"
proof -
  obtain cs where cs: "store_ListChats LiveContext 10 sample_chat_store = Inr (take (nat (boundedChatListLimit 10)) cs)"
    "length cs = card (dom (chat_at sample_chat_store))"
    using chat_list_sorted [OF sample_chat_store_wf, of 10] by blast
  have "length cs = 1" "boundedChatListLimit 10 = 10"
    using cs(2) by (simp_all add: sample_chat_at boundedChatListLimit_def MaxChatSummaries_def)
  then show ?thesis using cs(1) by simp
qed

end
