(* ===== verification/Reactions.thy ===== *)
theory Reactions
  imports Entities
begin

text \<open>
  Reactions, read receipts and imported conversations: \<open>internal/model/reaction.go\<close>, \<open>read_receipt.go\<close> and
  \<open>bootstrap.go\<close>. The number of grapheme clusters of a text comes from a third-party module; it is the parameter
  \<open>clusters\<close>. Fixed arrays with a count are the lists of their used parts.
\<close>

definition MaxReactionsPerMessage :: int where "MaxReactionsPerMessage = 64"
definition MaxReactionGroupsPerMessage :: int where "MaxReactionGroupsPerMessage = 16"
definition MaxReactionEmojiBytes :: int where "MaxReactionEmojiBytes = 64"

record reaction_input =
  ri_ChatID :: string
  ri_TargetMessageID :: string
  ri_ReactorID :: string
  ri_Emoji :: string
  ri_UpdatedAt :: instant

record reaction =
  react_chatID :: string
  react_targetMessageID :: string
  react_reactorID :: string
  react_emoji :: string
  react_updatedAt :: instant

text \<open>The condition the three constructors share, for an emoji that is not empty.\<close>

definition emoji_ok :: "(string \<Rightarrow> int) \<Rightarrow> string \<Rightarrow> bool" where
  "emoji_ok clusters emoji \<longleftrightarrow> \<not> (\<not> valid_utf8 emoji \<or> len emoji > MaxReactionEmojiBytes \<or> clusters emoji \<noteq> 1)"

definition NewReaction :: "(string \<Rightarrow> int) \<Rightarrow> reaction_input \<Rightarrow> model_error + reaction" where
  "NewReaction clusters i =
     on_ok (NewChatID (ri_ChatID i)) (\<lambda>_.
     on_ok (NewMessageID (ri_TargetMessageID i)) (\<lambda>_.
     on_ok (NewContactID (ri_ReactorID i)) (\<lambda>_.
     if ri_UpdatedAt i = 0 then Inl (newValidationError Required ''reaction_updated_at'' 0)
     else if ri_Emoji i \<noteq> [] \<and> \<not> emoji_ok clusters (ri_Emoji i)
     then Inl (newValidationError InvalidValue ''reaction_emoji'' MaxReactionEmojiBytes)
     else Inr \<lparr>react_chatID = ri_ChatID i, react_targetMessageID = ri_TargetMessageID i, react_reactorID = ri_ReactorID i,
       react_emoji = ri_Emoji i, react_updatedAt = ri_UpdatedAt i\<rparr>)))"

text \<open>\<open>id, _ := NewChatID(...)\<close>: the zero identifier when the constructor fails.\<close>

definition id_or_zero :: "'i \<Rightarrow> model_error + 'i \<Rightarrow> 'i" where
  "id_or_zero z r = (case r of Inr i \<Rightarrow> i | Inl _ \<Rightarrow> z)"

definition reaction_ChatID :: "reaction \<Rightarrow> chat_id" where
  "reaction_ChatID r = id_or_zero (ChatID []) (NewChatID (react_chatID r))"

definition reaction_TargetMessageID :: "reaction \<Rightarrow> message_id" where
  "reaction_TargetMessageID r = id_or_zero (MessageID []) (NewMessageID (react_targetMessageID r))"

definition reaction_ReactorID :: "reaction \<Rightarrow> contact_id" where
  "reaction_ReactorID r = id_or_zero (ContactID []) (NewContactID (react_reactorID r))"

definition reaction_Removed :: "reaction \<Rightarrow> bool" where
  "reaction_Removed r \<longleftrightarrow> react_emoji r = []"

definition reaction_WithChatID :: "(string \<Rightarrow> int) \<Rightarrow> reaction \<Rightarrow> chat_id \<Rightarrow> model_error + reaction" where
  "reaction_WithChatID clusters r i =
     NewReaction clusters \<lparr>ri_ChatID = chat_id_value i, ri_TargetMessageID = react_targetMessageID r,
       ri_ReactorID = react_reactorID r, ri_Emoji = react_emoji r, ri_UpdatedAt = react_updatedAt r\<rparr>"

definition reaction_WithReactorID :: "(string \<Rightarrow> int) \<Rightarrow> reaction \<Rightarrow> contact_id \<Rightarrow> model_error + reaction" where
  "reaction_WithReactorID clusters r i =
     NewReaction clusters \<lparr>ri_ChatID = react_chatID r, ri_TargetMessageID = react_targetMessageID r,
       ri_ReactorID = contact_id_value i, ri_Emoji = react_emoji r, ri_UpdatedAt = react_updatedAt r\<rparr>"

section \<open>Groups and summaries\<close>

record reaction_group =
  rg_emoji :: string
  rg_count :: "16 word"
  rg_own :: bool

definition NewReactionGroup :: "(string \<Rightarrow> int) \<Rightarrow> string \<Rightarrow> 16 word \<Rightarrow> bool \<Rightarrow> model_error + reaction_group" where
  "NewReactionGroup clusters emoji n own =
     (if n = 0 \<or> uint n > MaxReactionsPerMessage \<or> emoji = [] \<or> \<not> emoji_ok clusters emoji
      then Inl (PlainError ''reaction group rejected'')
      else Inr \<lparr>rg_emoji = emoji, rg_count = n, rg_own = own\<rparr>)"

record reaction_summary =
  rsum_chatID :: string
  rsum_targetMessageID :: string
  rsum_groups :: "reaction_group list"

text \<open>The loop over the groups with the emojis seen so far.\<close>

fun own_groups :: "(string \<Rightarrow> int) \<Rightarrow> string list \<Rightarrow> reaction_group list \<Rightarrow> model_error + reaction_group list" where
  "own_groups clusters seen [] = Inr []"
| "own_groups clusters seen (g # gs) =
     on_ok (NewReactionGroup clusters (rg_emoji g) (rg_count g) (rg_own g)) (\<lambda>owned.
     if rg_emoji owned \<in> set seen then Inl (PlainError ''reaction summary rejected'')
     else on_ok (own_groups clusters (rg_emoji owned # seen) gs) (\<lambda>rest. Inr (owned # rest)))"

definition NewReactionSummary :: "(string \<Rightarrow> int) \<Rightarrow> string \<Rightarrow> string \<Rightarrow> reaction_group list \<Rightarrow> model_error + reaction_summary" where
  "NewReactionSummary clusters cid mid groups =
     on_ok (NewChatID cid) (\<lambda>_.
     on_ok (NewMessageID mid) (\<lambda>_.
     if len groups > MaxReactionGroupsPerMessage then Inl (PlainError ''reaction summary rejected'')
     else on_ok (own_groups clusters [] groups) (\<lambda>owned.
       Inr \<lparr>rsum_chatID = cid, rsum_targetMessageID = mid, rsum_groups = owned\<rparr>)))"

definition zero_group :: reaction_group where
  "zero_group = \<lparr>rg_emoji = [], rg_count = 0, rg_own = False\<rparr>"

definition summary_At :: "reaction_summary \<Rightarrow> int \<Rightarrow> reaction_group \<times> bool" where
  "summary_At s index =
     (if index < 0 \<or> index \<ge> len (rsum_groups s) then (zero_group, False) else (rsum_groups s ! nat index, True))"

record send_reaction =
  sr_chatID :: string
  sr_targetMessageID :: string
  sr_targetSenderID :: string
  sr_targetFromMe :: bool
  sr_group :: bool
  sr_emoji :: string

definition NewSendReactionRequest ::
  "(string \<Rightarrow> int) \<Rightarrow> string \<Rightarrow> string \<Rightarrow> string \<Rightarrow> bool \<Rightarrow> bool \<Rightarrow> string \<Rightarrow> model_error + send_reaction" where
  "NewSendReactionRequest clusters cid mid sender fromMe isGroup emoji =
     on_ok (NewChatID cid) (\<lambda>_.
     on_ok (NewMessageID mid) (\<lambda>_.
     on_ok (if sender \<noteq> [] then NewContactID sender else Inr (ContactID [])) (\<lambda>_.
     if isGroup \<and> \<not> fromMe \<and> sender = [] then Inl (PlainError ''group reaction target rejected'')
     else if emoji \<noteq> [] \<and> \<not> emoji_ok clusters emoji then Inl (PlainError ''reaction request rejected'')
     else Inr \<lparr>sr_chatID = cid, sr_targetMessageID = mid, sr_targetSenderID = sender, sr_targetFromMe = fromMe,
       sr_group = isGroup, sr_emoji = emoji\<rparr>)))"

definition send_TargetSenderID :: "send_reaction \<Rightarrow> contact_id" where
  "send_TargetSenderID r =
     (if sr_targetSenderID r = [] then ContactID [] else id_or_zero (ContactID []) (NewContactID (sr_targetSenderID r)))"

section \<open>Read receipts\<close>

definition MaxReadReceiptMessages :: int where "MaxReadReceiptMessages = 32"

record receipt_input =
  rci_MessageID :: string
  rci_SentAt :: instant
  rci_SenderID :: string

record receipt_message =
  rcm_messageID :: message_id
  rcm_sentAt :: instant
  rcm_senderID :: contact_id

record receipt_request =
  rcr_chatID :: chat_id
  rcr_group :: bool
  rcr_messages :: "receipt_message list"

definition receipt_rejected :: model_error where
  "receipt_rejected = PlainError ''read receipt request rejected''"

text \<open>One turn of the loop; \<open>earlier\<close> are the messages already copied.\<close>

definition own_receipt :: "bool \<Rightarrow> receipt_message list \<Rightarrow> receipt_input \<Rightarrow> model_error + receipt_message" where
  "own_receipt isGroup earlier i =
     (case NewMessageID (rci_MessageID i) of
        Inl _ \<Rightarrow> Inl receipt_rejected
      | Inr messageID \<Rightarrow>
          if rci_SentAt i = 0 then Inl receipt_rejected
          else if messageID \<in> rcm_messageID ` set earlier then Inl receipt_rejected
          else
            on_ok (if rci_SenderID i \<noteq> [] then NewContactID (rci_SenderID i) else Inr (ContactID [])) (\<lambda>senderID.
            if isGroup \<and> contact_id_value senderID = [] then Inl receipt_rejected
            else Inr \<lparr>rcm_messageID = messageID, rcm_sentAt = rci_SentAt i, rcm_senderID = senderID\<rparr>))"

fun own_receipts :: "bool \<Rightarrow> receipt_message list \<Rightarrow> receipt_input list \<Rightarrow> model_error + receipt_message list" where
  "own_receipts isGroup earlier [] = Inr earlier"
| "own_receipts isGroup earlier (i # is) =
     on_ok (own_receipt isGroup earlier i) (\<lambda>m. own_receipts isGroup (earlier @ [m]) is)"

definition NewReadReceiptRequest :: "string \<Rightarrow> bool \<Rightarrow> receipt_input list \<Rightarrow> model_error + receipt_request" where
  "NewReadReceiptRequest cid isGroup inputs =
     (if inputs = [] \<or> len inputs > MaxReadReceiptMessages then Inl receipt_rejected
      else on_ok (NewChatID cid) (\<lambda>chatID.
        on_ok (own_receipts isGroup [] inputs) (\<lambda>messages.
        Inr \<lparr>rcr_chatID = chatID, rcr_group = isGroup, rcr_messages = messages\<rparr>)))"

definition NewestSentAt :: "receipt_request \<Rightarrow> instant" where
  "NewestSentAt r = foldl (\<lambda>newest m. if rcm_sentAt m > newest then rcm_sentAt m else newest) 0 (rcr_messages r)"

section \<open>Imported conversations\<close>

definition MaxBootstrapMessagesPerChat :: int where "MaxBootstrapMessagesPerChat = 50"
definition MaxBootstrapReactionsPerChat :: int where
  "MaxBootstrapReactionsPerChat = MaxBootstrapMessagesPerChat * MaxReactionsPerMessage"

definition BootstrapInitial :: "8 word" where "BootstrapInitial = 1"
definition BootstrapRecent :: "8 word" where "BootstrapRecent = 2"
definition BootstrapFull :: "8 word" where "BootstrapFull = 3"
definition BootstrapOnDemand :: "8 word" where "BootstrapOnDemand = 4"

record bootstrap =
  boot_chat :: chat
  boot_messages :: "message list"
  boot_reactions :: "reaction list"
  boot_category :: "8 word"
  boot_complete :: bool
  boot_unreadAuthoritative :: bool

definition validBootstrapCategory :: "8 word \<Rightarrow> bool" where
  "validBootstrapCategory c \<longleftrightarrow> c \<ge> BootstrapInitial \<and> c \<le> BootstrapOnDemand"

definition NewBootstrapRecord :: "8 word \<Rightarrow> chat \<Rightarrow> message list \<Rightarrow> model_error + bootstrap" where
  "NewBootstrapRecord category c messages =
     (if \<not> validBootstrapCategory category \<or> chat_id_value (chat_ID c) = [] \<or> len messages > MaxBootstrapMessagesPerChat
        \<or> (\<exists>m \<in> set messages. msg_chatID m \<noteq> chat_ID c)
      then Inl (PlainError ''bootstrap record rejected'')
      else Inr \<lparr>boot_chat = c, boot_messages = messages, boot_reactions = [], boot_category = category,
        boot_complete = False, boot_unreadAuthoritative = True\<rparr>)"

definition NewBootstrapComplete :: "8 word \<Rightarrow> model_error + bootstrap" where
  "NewBootstrapComplete category =
     (if \<not> validBootstrapCategory category then Inl (PlainError ''bootstrap record rejected'')
      else Inr \<lparr>boot_chat = zero_chat, boot_messages = [], boot_reactions = [], boot_category = category,
        boot_complete = True, boot_unreadAuthoritative = False\<rparr>)"

definition bootstrap_WithReactions :: "(string \<Rightarrow> int) \<Rightarrow> bootstrap \<Rightarrow> reaction list \<Rightarrow> model_error + bootstrap" where
  "bootstrap_WithReactions clusters b reactions =
     (if len reactions > MaxBootstrapReactionsPerChat \<or> chat_id_value (chat_ID (boot_chat b)) = []
      then Inl (PlainError ''bootstrap reactions rejected'')
      else on_ok (map_ok (\<lambda>r.
          if reaction_ChatID r \<noteq> chat_ID (boot_chat b) then Inl (PlainError ''bootstrap reactions rejected'')
          else case NewReaction clusters \<lparr>ri_ChatID = chat_id_value (reaction_ChatID r),
                 ri_TargetMessageID = message_id_value (reaction_TargetMessageID r),
                 ri_ReactorID = contact_id_value (reaction_ReactorID r), ri_Emoji = react_emoji r, ri_UpdatedAt = react_updatedAt r\<rparr> of
               Inl _ \<Rightarrow> Inl (PlainError ''bootstrap reactions rejected'')
             | Inr owned \<Rightarrow> Inr owned) reactions) (\<lambda>owned. Inr (b\<lparr>boot_reactions := owned\<rparr>)))"

section \<open>Facts\<close>

lemma id_or_zero_simps [simp]: "id_or_zero z (Inr i) = i" "id_or_zero z (Inl e) = z"
  by (simp_all add: id_or_zero_def)

definition wf_reaction :: "(string \<Rightarrow> int) \<Rightarrow> reaction \<Rightarrow> bool" where
  "wf_reaction clusters r \<longleftrightarrow> valid_identifier (react_chatID r) \<and> valid_identifier (react_targetMessageID r)
     \<and> valid_identifier (react_reactorID r) \<and> react_updatedAt r \<noteq> 0 \<and> (react_emoji r = [] \<or> emoji_ok clusters (react_emoji r))"

definition own_input :: "reaction_input \<Rightarrow> reaction" where
  "own_input i = \<lparr>react_chatID = ri_ChatID i, react_targetMessageID = ri_TargetMessageID i, react_reactorID = ri_ReactorID i,
     react_emoji = ri_Emoji i, react_updatedAt = ri_UpdatedAt i\<rparr>"

lemma NewReaction_eq_Inr: "NewReaction clusters i = Inr r \<longleftrightarrow> r = own_input i \<and> wf_reaction clusters r"
  by (auto simp: NewReaction_def own_input_def wf_reaction_def chat_ids.make_eq_Inr message_ids.make_eq_Inr contact_ids.make_eq_Inr
      intro: chat_id.exhaust_sel message_id.exhaust_sel contact_id.exhaust_sel chat_id.sel message_id.sel contact_id.sel)

lemma reaction_accessors:
  assumes "wf_reaction clusters r"
  shows "reaction_ChatID r = ChatID (react_chatID r)" "reaction_TargetMessageID r = MessageID (react_targetMessageID r)"
    "reaction_ReactorID r = ContactID (react_reactorID r)"
  using assms
  by (simp_all add: new_id_ok wf_reaction_def reaction_ChatID_def reaction_TargetMessageID_def reaction_ReactorID_def)

lemma NewReactionGroup_eq_Inr:
  "NewReactionGroup clusters e n own = Inr g \<longleftrightarrow>
     n \<noteq> 0 \<and> uint n \<le> 64 \<and> e \<noteq> [] \<and> emoji_ok clusters e \<and> g = \<lparr>rg_emoji = e, rg_count = n, rg_own = own\<rparr>"
  by (auto simp: NewReactionGroup_def MaxReactionsPerMessage_def)

definition group_ok :: "(string \<Rightarrow> int) \<Rightarrow> reaction_group \<Rightarrow> bool" where
  "group_ok clusters g \<longleftrightarrow> rg_count g \<noteq> 0 \<and> uint (rg_count g) \<le> 64 \<and> rg_emoji g \<noteq> [] \<and> emoji_ok clusters (rg_emoji g)"

lemma own_groups_eq_Inr:
  "own_groups clusters seen gs = Inr owned \<longleftrightarrow>
     owned = gs \<and> (\<forall>g \<in> set gs. group_ok clusters g) \<and> distinct (map rg_emoji gs) \<and> set seen \<inter> rg_emoji ` set gs = {}"
  by (induction gs arbitrary: seen owned) (auto simp: NewReactionGroup_eq_Inr group_ok_def)

lemma own_receipt_eq_Inr:
  "own_receipt isGroup earlier i = Inr m \<longleftrightarrow>
     valid_identifier (rci_MessageID i) \<and> rci_SentAt i \<noteq> 0 \<and> MessageID (rci_MessageID i) \<notin> rcm_messageID ` set earlier
     \<and> (rci_SenderID i \<noteq> [] \<longrightarrow> valid_identifier (rci_SenderID i)) \<and> (isGroup \<longrightarrow> rci_SenderID i \<noteq> [])
     \<and> m = \<lparr>rcm_messageID = MessageID (rci_MessageID i), rcm_sentAt = rci_SentAt i, rcm_senderID = ContactID (rci_SenderID i)\<rparr>"
proof (cases "NewMessageID (rci_MessageID i)")
  case (Inl e)
  then have "\<not> valid_identifier (rci_MessageID i)" using new_id_ok(3) by (metis Inl_Inr_False)
  then show ?thesis using Inl by (simp add: own_receipt_def)
next
  case (Inr mid)
  then have mid: "valid_identifier (rci_MessageID i)" "mid = MessageID (rci_MessageID i)"
    by (auto simp: message_ids.make_eq_Inr intro: message_id.expand)
  show ?thesis
    by (cases "NewContactID (rci_SenderID i)")
      (auto simp: own_receipt_def Inr mid contact_ids.make_eq_Inr new_id_ok contact_id.expand)
qed

definition receipt_of :: "receipt_input \<Rightarrow> receipt_message" where
  "receipt_of i = \<lparr>rcm_messageID = MessageID (rci_MessageID i), rcm_sentAt = rci_SentAt i, rcm_senderID = ContactID (rci_SenderID i)\<rparr>"

definition receipt_input_ok :: "bool \<Rightarrow> receipt_input \<Rightarrow> bool" where
  "receipt_input_ok isGroup i \<longleftrightarrow> valid_identifier (rci_MessageID i) \<and> rci_SentAt i \<noteq> 0
     \<and> (rci_SenderID i \<noteq> [] \<longrightarrow> valid_identifier (rci_SenderID i)) \<and> (isGroup \<longrightarrow> rci_SenderID i \<noteq> [])"

lemma own_receipts_eq_Inr:
  "own_receipts isGroup earlier is = Inr ms \<longleftrightarrow>
     (\<forall>i \<in> set is. receipt_input_ok isGroup i) \<and> distinct (map rci_MessageID is)
     \<and> (\<forall>i \<in> set is. MessageID (rci_MessageID i) \<notin> rcm_messageID ` set earlier) \<and> ms = earlier @ map receipt_of is"
proof (induction "is" arbitrary: earlier)
  case (Cons i "is")
  have "own_receipt isGroup earlier i = Inr m \<longleftrightarrow>
      receipt_input_ok isGroup i \<and> MessageID (rci_MessageID i) \<notin> rcm_messageID ` set earlier \<and> m = receipt_of i" for m
    unfolding own_receipt_eq_Inr receipt_input_ok_def receipt_of_def by blast
  moreover have "rcm_messageID ` set (earlier @ [receipt_of i]) = insert (MessageID (rci_MessageID i)) (rcm_messageID ` set earlier)"
    by (simp add: receipt_of_def)
  moreover have "(\<forall>j \<in> set is. MessageID (rci_MessageID j) \<notin> insert (MessageID (rci_MessageID i)) (rcm_messageID ` set earlier)) \<longleftrightarrow>
      rci_MessageID i \<notin> rci_MessageID ` set is \<and> (\<forall>j \<in> set is. MessageID (rci_MessageID j) \<notin> rcm_messageID ` set earlier)"
    by (auto simp: image_iff)
  ultimately show ?case using Cons.IH [of "earlier @ [receipt_of i]"] by auto
qed auto

lemma NewestSentAt_fold:
  "foldl (\<lambda>newest m. if rcm_sentAt m > newest then rcm_sentAt m else newest) t ms = Max (insert t (rcm_sentAt ` set ms))"
proof (induction ms arbitrary: t)
  case (Cons m ms)
  have "Max (insert t (rcm_sentAt ` set (m # ms))) = Max (insert (max t (rcm_sentAt m)) (rcm_sentAt ` set ms))"
    by (cases "set ms = {}") (auto simp: max.assoc)
  then show ?case using Cons by (simp add: max_def)
qed simp

section \<open>Properties\<close>

text \<open>A reaction is built from exactly the admissible inputs; its accessors give the inputs back, rebuilding it is the
  identity, and renaming its chat or its reactor to a valid identifier always succeeds and changes nothing else.\<close>

theorem reaction_round_trip:
  assumes "NewReaction clusters i = Inr r"
  shows "chat_id_value (reaction_ChatID r) = ri_ChatID i \<and> message_id_value (reaction_TargetMessageID r) = ri_TargetMessageID i
    \<and> contact_id_value (reaction_ReactorID r) = ri_ReactorID i \<and> reaction_Removed r = (ri_Emoji i = [])
    \<and> reaction_WithChatID clusters r (reaction_ChatID r) = Inr r
    \<and> (\<forall>c. valid_identifier (chat_id_value c) \<longrightarrow> reaction_WithChatID clusters r c = Inr (r\<lparr>react_chatID := chat_id_value c\<rparr>))
    \<and> (\<forall>c. valid_identifier (contact_id_value c) \<longrightarrow> reaction_WithReactorID clusters r c = Inr (r\<lparr>react_reactorID := contact_id_value c\<rparr>))"
proof -
  have "r = own_input i \<and> wf_reaction clusters r" using assms unfolding NewReaction_eq_Inr .
  then have wf: "wf_reaction clusters r" and r: "r = own_input i" by blast+
  have chat: "reaction_WithChatID clusters r c = Inr (r\<lparr>react_chatID := chat_id_value c\<rparr>)" if "valid_identifier (chat_id_value c)" for c
    using wf that unfolding r by (simp add: reaction_WithChatID_def NewReaction_eq_Inr own_input_def wf_reaction_def)
  moreover have "reaction_WithReactorID clusters r c = Inr (r\<lparr>react_reactorID := contact_id_value c\<rparr>)"
    if "valid_identifier (contact_id_value c)" for c
    using wf that unfolding r by (simp add: reaction_WithReactorID_def NewReaction_eq_Inr own_input_def wf_reaction_def)
  moreover have "reaction_WithChatID clusters r (reaction_ChatID r) = Inr r"
    using chat [of "reaction_ChatID r"] wf by (simp add: reaction_accessors [OF wf]) (simp add: wf_reaction_def)
  moreover have "chat_id_value (reaction_ChatID r) = ri_ChatID i" "message_id_value (reaction_TargetMessageID r) = ri_TargetMessageID i"
    "contact_id_value (reaction_ReactorID r) = ri_ReactorID i" "reaction_Removed r = (ri_Emoji i = [])"
    by (simp_all add: reaction_accessors [OF wf] reaction_Removed_def) (simp_all add: r own_input_def)
  ultimately show ?thesis by blast
qed

definition sample_reaction_input :: reaction_input where
  "sample_reaction_input = \<lparr>ri_ChatID = ''c'', ri_TargetMessageID = ''m'', ri_ReactorID = ''r'', ri_Emoji = ''+'', ri_UpdatedAt = 5\<rparr>"

lemma sample_reaction_ok: "NewReaction len sample_reaction_input = Inr (own_input sample_reaction_input)"
proof -
  have "valid_identifier ''c''" "valid_identifier ''m''" "valid_identifier ''r''" by (rule ascii_clean; simp add: ascii_eval)+
  moreover have "valid_utf8 ''+''" by (rule ascii_valid) (simp add: ascii_eval)
  ultimately show ?thesis
    by (simp add: NewReaction_eq_Inr wf_reaction_def own_input_def sample_reaction_input_def emoji_ok_def MaxReactionEmojiBytes_def)
qed

theorem reaction_round_trip_witness:
  "\<exists>r. NewReaction len sample_reaction_input = Inr r \<and> reaction_WithChatID len r (reaction_ChatID r) = Inr r"
  using reaction_round_trip [OF sample_reaction_ok] sample_reaction_ok by blast

text \<open>A read receipt is accepted exactly for one to thirty-two messages with different valid identifiers, known
  instants and, in a group, a sender each; it keeps them in order and its frontier is their latest instant.\<close>

theorem receipt_request_exact:
  "NewReadReceiptRequest cid isGroup is = Inr q \<longleftrightarrow>
     is \<noteq> [] \<and> len is \<le> 32 \<and> valid_identifier cid \<and> (\<forall>i \<in> set is. receipt_input_ok isGroup i) \<and> distinct (map rci_MessageID is)
     \<and> q = \<lparr>rcr_chatID = ChatID cid, rcr_group = isGroup, rcr_messages = map receipt_of is\<rparr>
     \<and> NewestSentAt q = Max (insert 0 (rci_SentAt ` set is))"
proof -
  have newest: "NewestSentAt \<lparr>rcr_chatID = ChatID cid, rcr_group = isGroup, rcr_messages = map receipt_of is\<rparr>
      = Max (insert 0 (rci_SentAt ` set is))"
    by (simp add: NewestSentAt_def NewestSentAt_fold image_image receipt_of_def)
  have "NewReadReceiptRequest cid isGroup is = Inr q \<longleftrightarrow>
     is \<noteq> [] \<and> len is \<le> 32 \<and> valid_identifier cid \<and> (\<forall>i \<in> set is. receipt_input_ok isGroup i) \<and> distinct (map rci_MessageID is)
     \<and> q = \<lparr>rcr_chatID = ChatID cid, rcr_group = isGroup, rcr_messages = map receipt_of is\<rparr>"
    by (auto simp: NewReadReceiptRequest_def MaxReadReceiptMessages_def own_receipts_eq_Inr chat_ids.make_eq_Inr chat_id.expand)
  then show ?thesis using newest by blast
qed

theorem receipt_request_exact_witness:
  "\<exists>q. NewReadReceiptRequest ''c'' False [\<lparr>rci_MessageID = ''m'', rci_SentAt = 5, rci_SenderID = []\<rparr>] = Inr q \<and> NewestSentAt q = 5"
proof -
  have "valid_identifier ''c''" "valid_identifier ''m''" by (rule ascii_clean; simp add: ascii_eval)+
  then show ?thesis by (simp add: receipt_request_exact receipt_input_ok_def) (auto simp: NewestSentAt_def receipt_of_def)
qed

text \<open>A summary of reactions is accepted exactly when it has at most sixteen groups with different, admissible emojis;
  reactions are attached to an imported conversation exactly when they are few enough and all of its chat, and are
  kept unchanged and in order.\<close>

theorem reactions_attached_exactly:
  assumes "\<forall>r \<in> set rs. wf_reaction clusters r"
  shows "(NewReactionSummary clusters cid mid groups = Inr s \<longleftrightarrow> valid_identifier cid \<and> valid_identifier mid \<and> len groups \<le> 16
       \<and> (\<forall>g \<in> set groups. group_ok clusters g) \<and> distinct (map rg_emoji groups)
       \<and> s = \<lparr>rsum_chatID = cid, rsum_targetMessageID = mid, rsum_groups = groups\<rparr>)
    \<and> (bootstrap_WithReactions clusters b rs = Inr b' \<longleftrightarrow> len rs \<le> 3200 \<and> chat_id_value (chat_ID (boot_chat b)) \<noteq> []
       \<and> (\<forall>r \<in> set rs. react_chatID r = chat_id_value (chat_ID (boot_chat b))) \<and> b' = b\<lparr>boot_reactions := rs\<rparr>)"
proof -
  let ?own = "\<lambda>r. if reaction_ChatID r \<noteq> chat_ID (boot_chat b) then Inl (PlainError ''bootstrap reactions rejected'')
          else case NewReaction clusters \<lparr>ri_ChatID = chat_id_value (reaction_ChatID r),
                 ri_TargetMessageID = message_id_value (reaction_TargetMessageID r),
                 ri_ReactorID = contact_id_value (reaction_ReactorID r), ri_Emoji = react_emoji r, ri_UpdatedAt = react_updatedAt r\<rparr> of
               Inl _ \<Rightarrow> Inl (PlainError ''bootstrap reactions rejected'')
             | Inr owned \<Rightarrow> Inr owned"
  have one: "?own r = (if react_chatID r = chat_id_value (chat_ID (boot_chat b)) then Inr r else Inl (PlainError ''bootstrap reactions rejected''))"
    if "r \<in> set rs" for r
  proof -
    have wf: "wf_reaction clusters r" using assms that by blast
    have "NewReaction clusters \<lparr>ri_ChatID = react_chatID r, ri_TargetMessageID = react_targetMessageID r,
        ri_ReactorID = react_reactorID r, ri_Emoji = react_emoji r, ri_UpdatedAt = react_updatedAt r\<rparr> = Inr r"
      using wf by (simp add: NewReaction_eq_Inr own_input_def)
    moreover have "ChatID v = j \<longleftrightarrow> v = chat_id_value j" for v j by (cases j) simp
    ultimately show ?thesis by (auto simp: reaction_accessors [OF wf])
  qed
  have "map_ok ?own rs = Inr owned \<longleftrightarrow> (\<forall>r \<in> set rs. react_chatID r = chat_id_value (chat_ID (boot_chat b))) \<and> owned = rs" for owned
    using one by (induction rs arbitrary: owned) (auto split: if_splits)
  then have boot: "bootstrap_WithReactions clusters b rs = Inr b' \<longleftrightarrow> len rs \<le> 3200 \<and> chat_id_value (chat_ID (boot_chat b)) \<noteq> []
       \<and> (\<forall>r \<in> set rs. react_chatID r = chat_id_value (chat_ID (boot_chat b))) \<and> b' = b\<lparr>boot_reactions := rs\<rparr>"
    by (auto simp: bootstrap_WithReactions_def MaxBootstrapReactionsPerChat_def MaxBootstrapMessagesPerChat_def MaxReactionsPerMessage_def)
  have "NewReactionSummary clusters cid mid groups = Inr s \<longleftrightarrow> valid_identifier cid \<and> valid_identifier mid \<and> len groups \<le> 16
       \<and> (\<forall>g \<in> set groups. group_ok clusters g) \<and> distinct (map rg_emoji groups)
       \<and> s = \<lparr>rsum_chatID = cid, rsum_targetMessageID = mid, rsum_groups = groups\<rparr>"
    by (auto simp: NewReactionSummary_def own_groups_eq_Inr MaxReactionGroupsPerMessage_def chat_ids.make_eq_Inr message_ids.make_eq_Inr
        intro: chat_id.sel message_id.sel)
  then show ?thesis using boot by blast
qed

definition sample_bootstrap :: bootstrap where
  "sample_bootstrap = \<lparr>boot_chat = zero_chat\<lparr>chat_ID := ChatID ''c''\<rparr>, boot_messages = [], boot_reactions = [],
     boot_category = BootstrapFull, boot_complete = False, boot_unreadAuthoritative = True\<rparr>"

theorem reactions_attached_exactly_witness:
  "\<exists>b. bootstrap_WithReactions len sample_bootstrap [own_input sample_reaction_input] = Inr b \<and> length (boot_reactions b) = 1"
proof -
  have "\<forall>r \<in> set [own_input sample_reaction_input]. wf_reaction len r" using sample_reaction_ok by (simp add: NewReaction_eq_Inr)
  from reactions_attached_exactly [OF this, of "''c''" "''m''" "[]" _ sample_bootstrap] show ?thesis
    by (auto simp: own_input_def sample_reaction_input_def sample_bootstrap_def)
qed

end
