(* ===== verification/ChatState.thy ===== *)
theory ChatState
  imports Validation
begin

text \<open>
  The working set of the user interface: \<open>internal/tui/chat_state.go\<close>. The chat array with its count is the list of its
  used part; a message buffer is the list of its used part with the length it was allocated at (\<open>None\<close> is a nil
  slice), so that what a full buffer drops is visible. A method of a nil state returns its zero results; the states
  here are never nil. \<open>allocateMessageID\<close> loops until it finds a free identifier; it is a partial function, and that it
  returns is a theorem.
\<close>

definition maxChats :: int where "maxChats = 10000"
definition maxMessages :: nat where "maxMessages = 32"
definition SelectedChatHistoryCapacity :: nat where "SelectedChatHistoryCapacity = 256"
definition maxDraftBytes :: int where "maxDraftBytes = 16 * 1024"

record reaction_view =
  rv_emoji :: string
  rv_count :: "16 word"
  rv_own :: bool

record message_view =
  mv_id :: string
  mv_sentAt :: instant
  mv_time :: string
  mv_text :: string
  mv_mediaKind :: string
  mv_mediaName :: string
  mv_mediaMIME :: string
  mv_fromMe :: bool
  mv_bodyRetained :: bool
  mv_replyToID :: string
  mv_hasReply :: bool
  mv_replyText :: string
  mv_replyFromMe :: bool
  mv_replyMediaKind :: string
  mv_replyMediaName :: string
  mv_replyMediaMIME :: string
  mv_senderID :: string
  mv_senderName :: string
  mv_senderQuality :: "8 word"
  mv_isGroup :: bool
  mv_reactions :: "reaction_view list"

definition zero_view :: message_view where
  "zero_view = \<lparr>mv_id = [], mv_sentAt = 0, mv_time = [], mv_text = [], mv_mediaKind = [], mv_mediaName = [], mv_mediaMIME = [],
     mv_fromMe = False, mv_bodyRetained = False, mv_replyToID = [], mv_hasReply = False, mv_replyText = [], mv_replyFromMe = False,
     mv_replyMediaKind = [], mv_replyMediaName = [], mv_replyMediaMIME = [], mv_senderID = [], mv_senderName = [],
     mv_senderQuality = 0, mv_isGroup = False, mv_reactions = []\<rparr>"

record chat_view =
  cv_id :: string
  cv_title :: string
  cv_titleQuality :: "8 word"
  cv_isGroup :: bool
  cv_messages :: "message_view list"
  cv_buffer :: "nat option"
  cv_unreadCount :: "32 word"
  cv_activityTime :: instant
  cv_revision :: "64 word"
  cv_readOnly :: bool

record chat_state =
  cs_chats :: "chat_view list"
  cs_selected :: int
  cs_nextLocalID :: "64 word"

section \<open>Looking up\<close>

definition chatAt :: "chat_state \<Rightarrow> int \<Rightarrow> chat_view option" where
  "chatAt st index = (if index < 0 \<or> index \<ge> len (cs_chats st) then None else Some (cs_chats st ! nat index))"

definition selectedChat :: "chat_state \<Rightarrow> chat_view option" where
  "selectedChat st = chatAt st (cs_selected st)"

fun index_of :: "('a \<Rightarrow> bool) \<Rightarrow> int \<Rightarrow> 'a list \<Rightarrow> int option" where
  "index_of P i [] = None"
| "index_of P i (x # xs) = (if P x then Some i else index_of P (i + 1) xs)"

definition chatIndexByID :: "chat_state \<Rightarrow> string \<Rightarrow> int option" where
  "chatIndexByID st cid = (if cid = [] then None else index_of (\<lambda>c. cv_id c = cid) 0 (cs_chats st))"

definition messageIndexByID :: "chat_state \<Rightarrow> int \<Rightarrow> string \<Rightarrow> int option" where
  "messageIndexByID st chatIndex mid =
     (case chatAt st chatIndex of
        None \<Rightarrow> None
      | Some c \<Rightarrow> if mid = [] \<or> cv_buffer c = None then None else index_of (\<lambda>m. mv_id m = mid) 0 (cv_messages c))"

definition findMessageByID :: "chat_state \<Rightarrow> int \<Rightarrow> string \<Rightarrow> message_view option" where
  "findMessageByID st chatIndex mid =
     (case messageIndexByID st chatIndex mid of
        None \<Rightarrow> None
      | Some index \<Rightarrow> Some (cv_messages (cs_chats st ! nat chatIndex) ! nat index))"

definition containsMessageID :: "chat_state \<Rightarrow> string \<Rightarrow> bool" where
  "containsMessageID st mid \<longleftrightarrow> (\<exists>c \<in> set (cs_chats st). cv_buffer c \<noteq> None \<and> (\<exists>m \<in> set (cv_messages c). mv_id m = mid))"

section \<open>Buffers\<close>

definition with_chat :: "(chat_view \<Rightarrow> chat_view) \<Rightarrow> int \<Rightarrow> chat_state \<Rightarrow> chat_state" where
  "with_chat f index st = st\<lparr>cs_chats := (cs_chats st)[nat index := f (cs_chats st ! nat index)]\<rparr>"

definition ensureMessages :: "chat_view \<Rightarrow> chat_view" where
  "ensureMessages c = (if cv_buffer c = None then c\<lparr>cv_buffer := Some maxMessages\<rparr> else c)"

definition expandMessageBuffer :: "chat_state \<Rightarrow> int \<Rightarrow> chat_state" where
  "expandMessageBuffer st chatIndex =
     (case chatAt st chatIndex of
        None \<Rightarrow> st
      | Some c \<Rightarrow>
          if cv_buffer c = Some SelectedChatHistoryCapacity \<or> cv_messages c = [] \<and> cv_buffer c = None then st
          else with_chat (\<lambda>c. c\<lparr>cv_buffer := Some SelectedChatHistoryCapacity\<rparr>) chatIndex st)"

definition compactMessageBuffer :: "chat_state \<Rightarrow> int \<Rightarrow> chat_state" where
  "compactMessageBuffer st chatIndex =
     (case chatAt st chatIndex of
        None \<Rightarrow> st
      | Some c \<Rightarrow>
          if (case cv_buffer c of None \<Rightarrow> True | Some n \<Rightarrow> n \<le> maxMessages) then st
          else if cv_messages c = [] then with_chat (\<lambda>c. c\<lparr>cv_buffer := None\<rparr>) chatIndex st
          else with_chat (\<lambda>c. c\<lparr>cv_messages := drop (length (cv_messages c) - maxMessages) (cv_messages c),
            cv_buffer := Some maxMessages\<rparr>) chatIndex st)"

section \<open>Identifiers of local messages\<close>

text \<open>\<open>strconv.FormatUint(n, 10)\<close>.\<close>

fun decimal :: "nat \<Rightarrow> string" where
  "decimal n = (if n < 10 then [char_of (48 + n)] else decimal (n div 10) @ [char_of (48 + n mod 10)])"

declare decimal.simps [simp del]

definition local_id :: "64 word \<Rightarrow> string" where
  "local_id n = ''local-'' @ decimal (unat n)"

partial_function (option) allocateMessageID :: "chat_state \<Rightarrow> (chat_state \<times> string) option" where
  "allocateMessageID st =
     (let st' = st\<lparr>cs_nextLocalID := cs_nextLocalID st + 1\<rparr>; mid = local_id (cs_nextLocalID st')
      in if \<not> containsMessageID st' mid then Some (st', mid) else allocateMessageID st')"

section \<open>Changing the state\<close>

definition push_message :: "message_view \<Rightarrow> chat_view \<Rightarrow> chat_view" where
  "push_message m c =
     (if length (cv_messages c) < (case cv_buffer c of None \<Rightarrow> 0 | Some n \<Rightarrow> n)
      then c\<lparr>cv_messages := cv_messages c @ [m]\<rparr>
      else c\<lparr>cv_messages := tl (cv_messages c) @ [m]\<rparr>)"

definition appendMessage :: "chat_state \<Rightarrow> int \<Rightarrow> message_view \<Rightarrow> (chat_state \<times> bool) option" where
  "appendMessage st chatIndex m =
     (case chatAt st chatIndex of
        None \<Rightarrow> Some (st, False)
      | Some c \<Rightarrow>
          (case (if mv_id m = [] then map_option (\<lambda>(st, mid). (st, m\<lparr>mv_id := mid\<rparr>)) (allocateMessageID st) else Some (st, m)) of
             None \<Rightarrow> None
           | Some (st, m) \<Rightarrow>
               Some (with_chat (\<lambda>c. push_message m
                 (if cv_buffer c = None \<and> chatIndex = cs_selected st then c\<lparr>cv_buffer := Some SelectedChatHistoryCapacity\<rparr>
                  else ensureMessages c)) chatIndex st, True)))"

definition moveSelection :: "chat_state \<Rightarrow> int \<Rightarrow> chat_state \<times> bool" where
  "moveSelection st delta =
     (let next = cs_selected st + delta in
      if next < 0 \<or> next \<ge> len (cs_chats st) then (st, False)
      else
        let st1 = compactMessageBuffer st (cs_selected st);
            st2 = expandMessageBuffer (st1\<lparr>cs_selected := next\<rparr>) next
        in (with_chat (\<lambda>c. c\<lparr>cv_revision := cv_revision c + 1, cv_unreadCount := 0\<rparr>) next st2, True))"

definition clampSelection :: "chat_state \<Rightarrow> chat_state" where
  "clampSelection st =
     (if len (cs_chats st) < 1 then st\<lparr>cs_selected := 0\<rparr>
      else
        let st = (if cs_selected st < 0 then st\<lparr>cs_selected := 0\<rparr> else st)
        in if cs_selected st \<ge> len (cs_chats st) then st\<lparr>cs_selected := len (cs_chats st) - 1\<rparr> else st)"

definition promoteChatActivity :: "chat_state \<Rightarrow> int \<Rightarrow> chat_state \<times> bool" where
  "promoteChatActivity st chatIndex =
     (if chatIndex < 0 \<or> chatIndex \<ge> len (cs_chats st) then (st, False)
      else if chatIndex = 0 then (st, True)
      else
        let i = nat chatIndex; cs = cs_chats st; selected = cs_selected st
        in (st\<lparr>cs_chats := cs ! i # take i cs @ drop (i + 1) cs,
              cs_selected := (if selected = chatIndex then 0
                else if selected \<ge> 0 \<and> selected < chatIndex then selected + 1 else selected)\<rparr>, True))"

definition recordIncomingMessage :: "chat_state \<Rightarrow> int \<Rightarrow> string \<Rightarrow> (chat_state \<times> bool) option" where
  "recordIncomingMessage st chatIndex text =
     (if text = [] \<or> len text > maxDraftBytes \<or> \<not> valid_utf8 text then Some (st, False)
      else
        case appendMessage st chatIndex (zero_view\<lparr>mv_time := ''now'', mv_text := text, mv_bodyRetained := True\<rparr>) of
          None \<Rightarrow> None
        | Some (st', False) \<Rightarrow> Some (st', False)
        | Some (st', True) \<Rightarrow>
            let st'' = (if chatIndex \<noteq> cs_selected st \<and> cv_unreadCount (cs_chats st' ! nat chatIndex) < -1
                        then with_chat (\<lambda>c. c\<lparr>cv_unreadCount := cv_unreadCount c + 1\<rparr>) chatIndex st' else st')
            in Some (promoteChatActivity st'' chatIndex))"

definition recordUnreadActivity :: "chat_state \<Rightarrow> int \<Rightarrow> 32 word \<Rightarrow> chat_state \<times> bool" where
  "recordUnreadActivity st chatIndex n =
     (case chatAt st chatIndex of
        None \<Rightarrow> (st, False)
      | Some c \<Rightarrow>
          if n = 0 then (st, False)
          else promoteChatActivity (with_chat (\<lambda>c. c\<lparr>cv_unreadCount :=
            (if n > -1 - cv_unreadCount c then -1 else cv_unreadCount c + n)\<rparr>) chatIndex st) chatIndex)"

section \<open>Local identifiers are found\<close>

definition undecimal :: "string \<Rightarrow> nat" where
  "undecimal s = foldl (\<lambda>v c. 10 * v + (of_char c - 48)) 0 s"

lemma undecimal_decimal: "undecimal (decimal n) = n"
proof (induction n rule: decimal.induct)
  case (1 n)
  have digit: "of_char (char_of (48 + d :: nat)) - 48 = d" if "d < 10" for d :: nat
    using that by simp
  show ?case
  proof (cases "n < 10")
    case True
    then show ?thesis using digit [OF True] by (simp add: decimal.simps [of n] undecimal_def)
  next
    case False
    have "undecimal (decimal n) = 10 * undecimal (decimal (n div 10)) + (of_char (char_of (48 + n mod 10 :: nat)) - 48)"
      using False by (subst decimal.simps) (simp add: undecimal_def)
    also have "\<dots> = 10 * (n div 10) + n mod 10" using 1 [OF False] digit [of "n mod 10"] by simp
    finally show ?thesis by simp
  qed
qed

lemma local_id_inject: "local_id a = local_id b \<longleftrightarrow> a = b"
  using undecimal_decimal by (auto simp: local_id_def) (metis unsigned_word_eqI)

definition used_ids :: "chat_state \<Rightarrow> string set" where
  "used_ids st = mv_id ` (\<Union>c \<in> set (cs_chats st). set (cv_messages c))"

definition message_total :: "chat_state \<Rightarrow> nat" where
  "message_total st = (\<Sum>c\<leftarrow>cs_chats st. length (cv_messages c))"

lemma contains_used: "containsMessageID st mid \<Longrightarrow> mid \<in> used_ids st"
  by (auto simp: containsMessageID_def used_ids_def)

lemma used_ids_card: "finite (used_ids st) \<and> card (used_ids st) \<le> message_total st"
proof -
  have "used_ids st = mv_id ` set (concat (map cv_messages (cs_chats st)))" by (auto simp: used_ids_def)
  moreover have "card (mv_id ` set (concat (map cv_messages (cs_chats st)))) \<le> length (concat (map cv_messages (cs_chats st)))"
    by (rule order_trans [OF card_image_le card_length]) simp
  ultimately show ?thesis by (simp add: message_total_def length_concat comp_def)
qed

text \<open>The loop stops at the first candidate that is free.\<close>

lemma allocate_least:
  "\<not> containsMessageID st (local_id (cs_nextLocalID st + of_nat (Suc j))) \<Longrightarrow>
    \<forall>i < j. containsMessageID st (local_id (cs_nextLocalID st + of_nat (Suc i))) \<Longrightarrow>
    allocateMessageID st = Some (st\<lparr>cs_nextLocalID := cs_nextLocalID st + of_nat (Suc j)\<rparr>, local_id (cs_nextLocalID st + of_nat (Suc j)))"
proof (induction j arbitrary: st)
  case 0
  then show ?case by (subst allocateMessageID.simps) (simp add: Let_def containsMessageID_def)
next
  case (Suc j)
  let ?st = "st\<lparr>cs_nextLocalID := cs_nextLocalID st + 1\<rparr>"
  have shift: "cs_nextLocalID ?st + of_nat (Suc i) = cs_nextLocalID st + of_nat (Suc (Suc i))" for i by (simp add: add.assoc)
  have same: "containsMessageID ?st = containsMessageID st" by (simp add: containsMessageID_def fun_eq_iff)
  have "containsMessageID st (local_id (cs_nextLocalID st + of_nat (Suc 0)))" using Suc.prems(2) by blast
  then have "allocateMessageID st = allocateMessageID ?st"
    by (subst allocateMessageID.simps) (simp add: Let_def same)
  also have "\<dots> = Some (?st\<lparr>cs_nextLocalID := cs_nextLocalID st + of_nat (Suc (Suc j))\<rparr>, local_id (cs_nextLocalID st + of_nat (Suc (Suc j))))"
    using Suc.IH [of ?st] Suc.prems unfolding shift same by (metis Suc_less_eq)
  finally show ?case by simp
qed

lemma allocate_returns:
  assumes "message_total st < 2 ^ 64 - 1"
  shows "\<exists>n. allocateMessageID st = Some (st\<lparr>cs_nextLocalID := n\<rparr>, local_id n) \<and> \<not> containsMessageID st (local_id n)"
proof -
  let ?cand = "\<lambda>i. local_id (cs_nextLocalID st + of_nat (Suc i))" and ?N = "Suc (card (used_ids st))"
  have small: "?N < 2 ^ 64" using assms used_ids_card [of st] by linarith
  have "inj_on ?cand {..<?N}"
  proof (rule inj_onI)
    fix i j
    assume i: "i \<in> {..<?N}" and j: "j \<in> {..<?N}" and "?cand i = ?cand j"
    then have "(of_nat (Suc i) :: 64 word) = of_nat (Suc j)" by (simp add: local_id_inject)
    then have "unat (of_nat (Suc i) :: 64 word) = unat (of_nat (Suc j) :: 64 word)" by (rule arg_cong)
    moreover have "unat (of_nat (Suc k) :: 64 word) = Suc k" if "k \<in> {..<?N}" for k
      using that small by (subst unat_of_nat) simp
    ultimately show "i = j" using i j by simp
  qed
  then have "card (?cand ` {..<?N}) = ?N" by (simp add: card_image)
  then have "\<not> ?cand ` {..<?N} \<subseteq> used_ids st" using used_ids_card [of st] by (metis card_mono lessI not_less)
  then obtain i where "?cand i \<notin> used_ids st" by blast
  then have ex: "\<not> containsMessageID st (?cand i)" using contains_used by blast
  define j where "j = (LEAST i. \<not> containsMessageID st (?cand i))"
  have "\<not> containsMessageID st (?cand j)" unfolding j_def by (rule LeastI [of "\<lambda>i. \<not> containsMessageID st (?cand i)", OF ex])
  moreover have "\<forall>i < j. containsMessageID st (?cand i)" unfolding j_def using not_less_Least by blast
  ultimately show ?thesis using allocate_least by blast
qed

section \<open>The working set stays bounded\<close>

definition wf_buffer :: "chat_view \<Rightarrow> bool" where
  "wf_buffer c \<longleftrightarrow> (case cv_buffer c of
     None \<Rightarrow> cv_messages c = []
   | Some n \<Rightarrow> (n = maxMessages \<or> n = SelectedChatHistoryCapacity) \<and> length (cv_messages c) \<le> n)"

text \<open>Only the selected chat has a large buffer.\<close>

definition wf_chat_state :: "chat_state \<Rightarrow> bool" where
  "wf_chat_state st \<longleftrightarrow> len (cs_chats st) \<le> maxChats
     \<and> (if cs_chats st = [] then cs_selected st = 0 else 0 \<le> cs_selected st \<and> cs_selected st < len (cs_chats st))
     \<and> (\<forall>i < length (cs_chats st). wf_buffer (cs_chats st ! i)
         \<and> (int i \<noteq> cs_selected st \<longrightarrow> cv_buffer (cs_chats st ! i) \<noteq> Some SelectedChatHistoryCapacity))"

lemmas buffer_sizes = maxMessages_def SelectedChatHistoryCapacity_def

lemma chatAt_Some: "chatAt st i = Some c \<longleftrightarrow> 0 \<le> i \<and> i < len (cs_chats st) \<and> c = cs_chats st ! nat i"
  by (auto simp: chatAt_def)

lemma with_chat_simps [simp]:
  "cs_selected (with_chat f i st) = cs_selected st" "cs_nextLocalID (with_chat f i st) = cs_nextLocalID st"
  "length (cs_chats (with_chat f i st)) = length (cs_chats st)" "cs_chats (with_chat f i st) = [] \<longleftrightarrow> cs_chats st = []"
  by (simp_all add: with_chat_def)

lemma with_chat_nth:
  "j < length (cs_chats st) \<Longrightarrow> cs_chats (with_chat f i st) ! j = (if j = nat i then f (cs_chats st ! j) else cs_chats st ! j)"
  by (auto simp: with_chat_def)

lemma with_chat_cong: "f (cs_chats st ! nat i) = g (cs_chats st ! nat i) \<Longrightarrow> with_chat f i st = with_chat g i st"
  by (simp add: with_chat_def)

lemma with_chat_next_id: "with_chat f i (st\<lparr>cs_nextLocalID := n\<rparr>) = (with_chat f i st)\<lparr>cs_nextLocalID := n\<rparr>"
  by (simp add: with_chat_def)

lemma with_chat_wf:
  assumes "wf_chat_state st" "0 \<le> i" "i < len (cs_chats st)"
    and "wf_buffer (f (cs_chats st ! nat i))" "i \<noteq> cs_selected st \<Longrightarrow> cv_buffer (f (cs_chats st ! nat i)) \<noteq> Some SelectedChatHistoryCapacity"
  shows "wf_chat_state (with_chat f i st)"
  using assms by (auto simp: wf_chat_state_def with_chat_nth)

lemma wf_chat_of: "wf_chat_state st \<Longrightarrow> chatAt st i = Some c \<Longrightarrow>
    wf_buffer c \<and> (i \<noteq> cs_selected st \<longrightarrow> cv_buffer c \<noteq> Some SelectedChatHistoryCapacity)"
  unfolding wf_chat_state_def chatAt_Some by (metis int_nat_eq nat_less_iff)

lemma push_message_wf: "wf_buffer c \<Longrightarrow> cv_buffer c \<noteq> None \<Longrightarrow> wf_buffer (push_message m c) \<and> cv_buffer (push_message m c) = cv_buffer c"
  by (auto simp: push_message_def wf_buffer_def buffer_sizes)

lemma wf_buffer_cong [simp]:
  "wf_buffer (c\<lparr>cv_unreadCount := u\<rparr>) = wf_buffer c" "wf_buffer (c\<lparr>cv_revision := r\<rparr>) = wf_buffer c"
  "wf_buffer (c\<lparr>cv_revision := r, cv_unreadCount := u\<rparr>) = wf_buffer c"
  by (cases "cv_buffer c", simp_all add: wf_buffer_def)+

lemma ensureMessages_wf:
  "wf_buffer c \<Longrightarrow> wf_buffer (ensureMessages c) \<and> cv_buffer (ensureMessages c) \<noteq> None
    \<and> (cv_buffer c \<noteq> Some SelectedChatHistoryCapacity \<longrightarrow> cv_buffer (ensureMessages c) \<noteq> Some SelectedChatHistoryCapacity)"
  by (auto simp: ensureMessages_def wf_buffer_def buffer_sizes)

lemma wf_next_id [simp]: "wf_chat_state (st\<lparr>cs_nextLocalID := n\<rparr>) = wf_chat_state st"
  by (simp add: wf_chat_state_def)

lemma chatAt_next_id [simp]: "chatAt (st\<lparr>cs_nextLocalID := n\<rparr>) i = chatAt st i"
  by (simp add: chatAt_def)

lemma message_total_small:
  assumes "wf_chat_state st"
  shows "message_total st \<le> 2560000"
proof -
  have "length (cv_messages c) \<le> 256" if "c \<in> set (cs_chats st)" for c
    using assms that by (auto simp: wf_chat_state_def wf_buffer_def in_set_conv_nth buffer_sizes split: option.splits) fastforce+
  then have "message_total st \<le> (\<Sum>c\<leftarrow>cs_chats st. 256)"
    unfolding message_total_def by (rule sum_list_mono)
  also have "\<dots> \<le> 10000 * 256" using assms by (simp add: sum_list_triv wf_chat_state_def maxChats_def)
  finally show ?thesis by simp
qed

lemma allocate_wf:
  assumes "wf_chat_state st"
  shows "\<exists>n. allocateMessageID st = Some (st\<lparr>cs_nextLocalID := n\<rparr>, local_id n) \<and> \<not> containsMessageID st (local_id n)"
  by (rule allocate_returns) (use message_total_small [OF assms] in simp)

text \<open>What appending does to the chat: the newest messages that fit, the new one last.\<close>

definition keep_last :: "nat \<Rightarrow> 'a list \<Rightarrow> 'a list" where
  "keep_last n xs = drop (length xs - n) xs"

lemma length_keep_last [simp]: "length (keep_last n xs) = min n (length xs)"
  by (simp add: keep_last_def)

lemma push_keeps_last:
  "cv_buffer c = Some n \<Longrightarrow> wf_buffer c \<Longrightarrow> push_message m c = c\<lparr>cv_messages := keep_last n (cv_messages c @ [m])\<rparr>"
  by (auto simp: push_message_def keep_last_def wf_buffer_def buffer_sizes not_less drop_Suc le_antisym Suc_diff_le)

definition append_buffer :: "bool \<Rightarrow> chat_view \<Rightarrow> nat" where
  "append_buffer selected c = (case cv_buffer c of Some n \<Rightarrow> n | None \<Rightarrow> if selected then SelectedChatHistoryCapacity else maxMessages)"

lemma append_ok:
  assumes wf: "wf_chat_state st" and c: "chatAt st i = Some c"
  shows "\<exists>st' n mid. appendMessage st i m = Some (st', True) \<and> wf_chat_state st'
    \<and> (mid = mv_id m \<and> mv_id m \<noteq> [] \<or> mv_id m = [] \<and> \<not> containsMessageID st mid \<and> mid \<noteq> [])
    \<and> st' = (with_chat (\<lambda>c. c\<lparr>cv_buffer := Some (append_buffer (i = cs_selected st) c),
         cv_messages := keep_last (append_buffer (i = cs_selected st) c) (cv_messages c @ [m\<lparr>mv_id := mid\<rparr>])\<rparr>) i st)\<lparr>cs_nextLocalID := n\<rparr>"
proof -
  obtain st0 n mid where alloc: "(if mv_id m = [] then map_option (\<lambda>(st, mid). (st, m\<lparr>mv_id := mid\<rparr>)) (allocateMessageID st) else Some (st, m))
      = Some (st0, m\<lparr>mv_id := mid\<rparr>)" and st0: "st0 = st\<lparr>cs_nextLocalID := n\<rparr>"
    and mid: "mid = mv_id m \<and> mv_id m \<noteq> [] \<or> mv_id m = [] \<and> \<not> containsMessageID st mid \<and> mid \<noteq> []"
  proof (cases "mv_id m = []")
    case True
    then show ?thesis using allocate_wf [OF wf] that by (fastforce simp: local_id_def)
  next
    case False
    then show ?thesis using that [of st "mv_id m" "cs_nextLocalID st"] by simp
  qed
  have wf_c: "wf_buffer c" "i \<noteq> cs_selected st \<Longrightarrow> cv_buffer c \<noteq> Some SelectedChatHistoryCapacity"
    using wf_chat_of [OF wf c] by blast+
  let ?m = "m\<lparr>mv_id := mid\<rparr>"
  let ?f = "\<lambda>c. push_message ?m (if cv_buffer c = None \<and> i = cs_selected st then c\<lparr>cv_buffer := Some SelectedChatHistoryCapacity\<rparr>
              else ensureMessages c)"
  let ?g = "\<lambda>c. c\<lparr>cv_buffer := Some (append_buffer (i = cs_selected st) c),
         cv_messages := keep_last (append_buffer (i = cs_selected st) c) (cv_messages c @ [?m])\<rparr>"
  have fg: "?f c = ?g c"
    using wf_c by (cases "cv_buffer c")
      (auto simp: push_keeps_last append_buffer_def ensureMessages_def wf_buffer_def buffer_sizes keep_last_def)
  have pos: "0 \<le> i" "i < len (cs_chats st)" "c = cs_chats st ! nat i" using c by (simp_all add: chatAt_Some)
  have st': "with_chat ?f i st0 = (with_chat ?g i st)\<lparr>cs_nextLocalID := n\<rparr>"
    unfolding st0 with_chat_next_id by (rule arg_cong [OF with_chat_cong]) (use fg pos(3) in blast)
  have ap: "appendMessage st i m = Some (with_chat ?f i st0, True)"
    by (simp add: appendMessage_def c alloc) (simp add: st0)
  have same: "cs_chats st0 = cs_chats st" "cs_selected st0 = cs_selected st" by (simp_all add: st0)
  have wf': "wf_chat_state (with_chat ?f i st0)"
  proof (rule with_chat_wf)
    show "wf_chat_state st0" "0 \<le> i" "i < len (cs_chats st0)" using wf pos by (simp_all add: st0)
    have "wf_buffer (?f c) \<and> (i \<noteq> cs_selected st \<longrightarrow> cv_buffer (?f c) \<noteq> Some SelectedChatHistoryCapacity)"
      using wf_c unfolding fg
      by (cases "cv_buffer c") (auto simp: wf_buffer_def append_buffer_def buffer_sizes)
    then show "wf_buffer (?f (cs_chats st0 ! nat i))" "i \<noteq> cs_selected st0 \<Longrightarrow> cv_buffer (?f (cs_chats st0 ! nat i)) \<noteq> Some SelectedChatHistoryCapacity"
      unfolding same pos(3) [symmetric] by blast+
  qed
  show ?thesis using ap wf' mid unfolding st' by blast
qed

section \<open>Selection and order\<close>

lemma expand_ok:
  assumes wf: "wf_chat_state st"
  shows "wf_chat_state (expandMessageBuffer st (cs_selected st))" "cs_selected (expandMessageBuffer st i) = cs_selected st"
    "map cv_id (cs_chats (expandMessageBuffer st i)) = map cv_id (cs_chats st)"
    "map cv_messages (cs_chats (expandMessageBuffer st i)) = map cv_messages (cs_chats st)"
proof -
  show "wf_chat_state (expandMessageBuffer st (cs_selected st))"
  proof (cases "chatAt st (cs_selected st)")
    case (Some c)
    have "wf_buffer c" using wf_chat_of [OF wf Some] by blast
    then have "wf_buffer (c\<lparr>cv_buffer := Some SelectedChatHistoryCapacity\<rparr>)"
      by (auto simp: wf_buffer_def buffer_sizes split: option.splits)
    moreover have "0 \<le> cs_selected st" "cs_selected st < len (cs_chats st)" "c = cs_chats st ! nat (cs_selected st)"
      using Some by (simp_all add: chatAt_Some)
    ultimately have "wf_chat_state (with_chat (\<lambda>c. c\<lparr>cv_buffer := Some SelectedChatHistoryCapacity\<rparr>) (cs_selected st) st)"
      using wf by (intro with_chat_wf) simp_all
    then show ?thesis using wf Some by (simp add: expandMessageBuffer_def)
  qed (simp add: wf expandMessageBuffer_def)
  show "cs_selected (expandMessageBuffer st i) = cs_selected st"
    by (auto simp: expandMessageBuffer_def split: option.split)
  have upd: "map g (xs[n := f (xs ! n)]) = map g xs" if "g (f (xs ! n)) = g (xs ! n)" for g :: "chat_view \<Rightarrow> 'b" and f xs n
    using that by (simp add: map_update) (metis list_update_id list_update_beyond map_update nth_map not_less length_map)
  show "map cv_id (cs_chats (expandMessageBuffer st i)) = map cv_id (cs_chats st)"
    by (auto simp: expandMessageBuffer_def with_chat_def intro!: upd split: option.split)
  show "map cv_messages (cs_chats (expandMessageBuffer st i)) = map cv_messages (cs_chats st)"
    by (auto simp: expandMessageBuffer_def with_chat_def intro!: upd split: option.split)
qed

text \<open>After compacting the selected chat no chat has a large buffer.\<close>

definition all_small :: "chat_state \<Rightarrow> bool" where
  "all_small st \<longleftrightarrow> (\<forall>c \<in> set (cs_chats st). wf_buffer c \<and> cv_buffer c \<noteq> Some SelectedChatHistoryCapacity)"

lemma compact_small:
  assumes wf: "wf_chat_state st"
  shows "all_small (compactMessageBuffer st (cs_selected st))
    \<and> length (cs_chats (compactMessageBuffer st (cs_selected st))) = length (cs_chats st)"
proof (cases "cs_chats st = []")
  case True
  then have "chatAt st (cs_selected st) = None" by (cases "cs_selected st < 0") (simp_all add: chatAt_def)
  then show ?thesis using True by (simp add: all_small_def compactMessageBuffer_def)
next
  case False
  then have sel: "0 \<le> cs_selected st" "cs_selected st < len (cs_chats st)" using wf by (auto simp: wf_chat_state_def)
  let ?c = "cs_chats st ! nat (cs_selected st)" and ?st = "compactMessageBuffer st (cs_selected st)"
  have c: "chatAt st (cs_selected st) = Some ?c" using sel by (simp add: chatAt_Some)
  note wf_c = wf_chat_of [OF wf c]
  have "wf_buffer (cs_chats ?st ! j) \<and> cv_buffer (cs_chats ?st ! j) \<noteq> Some SelectedChatHistoryCapacity" if j: "j < length (cs_chats st)" for j
  proof (cases "j = nat (cs_selected st)")
    case True
    then show ?thesis
      using wf_c j c by (auto simp: compactMessageBuffer_def with_chat_nth wf_buffer_def buffer_sizes split: option.splits if_splits)
  next
    case False
    then have "int j \<noteq> cs_selected st" by auto
    then have "wf_buffer (cs_chats st ! j) \<and> cv_buffer (cs_chats st ! j) \<noteq> Some SelectedChatHistoryCapacity"
      using wf j by (simp add: wf_chat_state_def)
    then show ?thesis using False j c by (simp add: compactMessageBuffer_def with_chat_nth split: option.split)
  qed
  moreover have "length (cs_chats ?st) = length (cs_chats st)" using c by (simp add: compactMessageBuffer_def split: option.split)
  ultimately show ?thesis unfolding all_small_def by (metis in_set_conv_nth)
qed

lemma small_selected:
  "all_small st \<Longrightarrow> len (cs_chats st) \<le> maxChats \<Longrightarrow> 0 \<le> i \<Longrightarrow> i < len (cs_chats st) \<Longrightarrow> wf_chat_state (st\<lparr>cs_selected := i\<rparr>)"
  by (auto simp: wf_chat_state_def all_small_def)

lemma moveSelection_wf:
  assumes wf: "wf_chat_state st"
  shows "wf_chat_state (fst (moveSelection st delta))"
proof (cases "cs_selected st + delta < 0 \<or> cs_selected st + delta \<ge> len (cs_chats st)")
  case True
  then show ?thesis using wf by (auto simp: moveSelection_def)
next
  case False
  let ?next = "cs_selected st + delta"
  let ?st1 = "(compactMessageBuffer st (cs_selected st))\<lparr>cs_selected := ?next\<rparr>"
  have nxt: "0 \<le> ?next" "?next < len (cs_chats st)" using False by auto
  have len: "length (cs_chats ?st1) = length (cs_chats st)" using compact_small [OF wf] by simp
  have wf1: "wf_chat_state ?st1"
    using compact_small [OF wf] wf nxt by (intro small_selected) (auto simp: wf_chat_state_def)
  have wf2: "wf_chat_state (expandMessageBuffer ?st1 ?next)" using expand_ok(1) [OF wf1] by simp
  have "length (cs_chats (expandMessageBuffer ?st1 ?next)) = length (cs_chats st)"
    using arg_cong [OF expand_ok(3) [OF wf1, of ?next], of length] len by simp
  then have "wf_chat_state (with_chat (\<lambda>c. c\<lparr>cv_revision := cv_revision c + 1, cv_unreadCount := 0\<rparr>) ?next (expandMessageBuffer ?st1 ?next))"
    using wf2 nxt wf_chat_of [OF wf2, of ?next] by (intro with_chat_wf) (simp_all add: chatAt_Some)
  then show ?thesis using False by (simp add: moveSelection_def Let_def)
qed

lemma clampSelection_id: "wf_chat_state st \<Longrightarrow> clampSelection st = st"
  by (auto simp: clampSelection_def wf_chat_state_def Let_def)

text \<open>Moving a chat to the front.\<close>

lemma promote_nth:
  assumes "i < length xs" "j < length xs"
  shows "(xs ! i # take i xs @ drop (i + 1) xs) ! j = (if j = 0 then xs ! i else if j \<le> i then xs ! (j - 1) else xs ! j)"
  using assms by (auto simp: nth_Cons nth_append min_def split: nat.split)

lemma promote_length: "i < length xs \<Longrightarrow> length (xs ! i # take i xs @ drop (i + 1) xs) = length xs"
  by simp

lemma promote_mset: "i < length xs \<Longrightarrow> mset (xs ! i # take i xs @ drop (i + 1) xs) = mset xs"
  by (metis Suc_eq_plus1 append_Cons append_take_drop_id Cons_nth_drop_Suc mset.simps(2) mset_append union_mset_add_mset_right)

lemma promote_ok:
  assumes wf: "wf_chat_state st" and i: "0 \<le> i" "i < len (cs_chats st)"
  shows "\<exists>st'. promoteChatActivity st i = (st', True) \<and> wf_chat_state st' \<and> cs_chats st' ! 0 = cs_chats st ! nat i
    \<and> mset (cs_chats st') = mset (cs_chats st) \<and> selectedChat st' = selectedChat st \<and> cs_nextLocalID st' = cs_nextLocalID st
    \<and> cs_chats st' = cs_chats st ! nat i # take (nat i) (cs_chats st) @ drop (nat i + 1) (cs_chats st)"
proof (cases "i = 0")
  case True
  then show ?thesis using wf i by (simp add: promoteChatActivity_def Cons_nth_drop_Suc)
next
  case False
  let ?xs = "cs_chats st" and ?k = "nat i" and ?s = "cs_selected st"
  let ?ys = "?xs ! ?k # take ?k ?xs @ drop (?k + 1) ?xs"
  let ?s' = "if ?s = i then 0 else if ?s \<ge> 0 \<and> ?s < i then ?s + 1 else ?s"
  let ?st = "st\<lparr>cs_chats := ?ys, cs_selected := ?s'\<rparr>"
  have k: "?k < length ?xs" "int ?k = i" using i by auto
  have s: "0 \<le> ?s" "?s < len ?xs" using wf i unfolding wf_chat_state_def by (cases "?xs = []", simp_all)+
  have len: "length ?ys = length ?xs" using promote_length [OF k(1)] .
  have s': "0 \<le> ?s'" "?s' < len ?ys" using s i False unfolding len by auto
  have "selectedChat ?st = Some (?ys ! nat ?s')" using s' by (simp add: selectedChat_def chatAt_Some)
  also have "?ys ! nat ?s' = ?xs ! nat ?s"
  proof -
    have "nat (?s + 1) - Suc 0 = nat ?s" using s by simp
    then show ?thesis
      using promote_nth [OF k(1), of "nat ?s'"] s' s k len by (auto simp: nat_le_iff nat_diff_distrib split: if_splits)
  qed
  also have "Some (?xs ! nat ?s) = selectedChat st" using s by (simp add: selectedChat_def chatAt_def)
  finally have sel: "selectedChat ?st = selectedChat st" .
  have "wf_buffer (?ys ! j) \<and> (int j \<noteq> ?s' \<longrightarrow> cv_buffer (?ys ! j) \<noteq> Some SelectedChatHistoryCapacity)" if j: "j < length ?xs" for j
  proof -
    define p where "p = (if j = 0 then ?k else if j \<le> ?k then j - 1 else j)"
    have "?ys ! j = ?xs ! p" "p < length ?xs" using promote_nth [OF k(1) j] k j by (auto simp: p_def)
    moreover have "int p = ?s \<Longrightarrow> int j = ?s'" using k s by (auto simp: p_def split: if_splits)
    ultimately show ?thesis using wf by (auto simp: wf_chat_state_def)
  qed
  then have "wf_chat_state ?st" using s' wf len unfolding wf_chat_state_def by simp
  then show ?thesis using sel False i promote_mset [OF k(1)] by (simp add: promoteChatActivity_def Let_def)
qed

lemma recordUnread_wf: "wf_chat_state st \<Longrightarrow> wf_chat_state (fst (recordUnreadActivity st i n))"
proof (cases "chatAt st i")
  case (Some c)
  assume wf: "wf_chat_state st"
  let ?st = "with_chat (\<lambda>c. c\<lparr>cv_unreadCount := if n > -1 - cv_unreadCount c then -1 else cv_unreadCount c + n\<rparr>) i st"
  have i: "0 \<le> i" "i < len (cs_chats st)" using Some by (simp_all add: chatAt_Some)
  have "wf_chat_state ?st"
    by (rule with_chat_wf [OF wf i]) (use wf_chat_of [OF wf Some] Some in \<open>simp_all add: chatAt_Some\<close>)
  from promote_ok [OF this i(1)] show ?thesis using Some wf i by (auto simp: recordUnreadActivity_def)
qed (simp add: recordUnreadActivity_def)

lemma recordIncoming_ok:
  assumes wf: "wf_chat_state st"
  shows "\<exists>st' done. recordIncomingMessage st i text = Some (st', done) \<and> wf_chat_state st'"
proof (cases "text = [] \<or> len text > maxDraftBytes \<or> \<not> valid_utf8 text")
  case False
  let ?m = "zero_view\<lparr>mv_time := ''now'', mv_text := text, mv_bodyRetained := True\<rparr>"
  show ?thesis
  proof (cases "chatAt st i")
    case None
    then have "appendMessage st i m = Some (st, False)" for m by (simp add: appendMessage_def)
    then show ?thesis using wf False by (auto simp: recordIncomingMessage_def)
  next
    case (Some c)
    obtain st' where st': "appendMessage st i ?m = Some (st', True)" "wf_chat_state st'" "length (cs_chats st') = length (cs_chats st)"
      using append_ok [OF wf Some, of ?m] by auto
    have i: "0 \<le> i" "i < len (cs_chats st')" using Some st'(3) by (simp_all add: chatAt_Some)
    let ?st = "if i \<noteq> cs_selected st \<and> cv_unreadCount (cs_chats st' ! nat i) < -1
                        then with_chat (\<lambda>c. c\<lparr>cv_unreadCount := cv_unreadCount c + 1\<rparr>) i st' else st'"
    have "chatAt st' i = Some (cs_chats st' ! nat i)" using i by (simp add: chatAt_Some)
    note wf_c = wf_chat_of [OF st'(2) this]
    have "wf_chat_state (with_chat (\<lambda>c. c\<lparr>cv_unreadCount := cv_unreadCount c + 1\<rparr>) i st')"
      using st'(2) i wf_c by (intro with_chat_wf) simp_all
    then have "wf_chat_state ?st" using st'(2) by simp
    moreover have "length (cs_chats ?st) = length (cs_chats st')" by simp
    ultimately obtain st'' where "promoteChatActivity ?st i = (st'', True)" "wf_chat_state st''"
      using promote_ok [of ?st i] i by auto
    then show ?thesis using False st'(1) by (auto simp: recordIncomingMessage_def Let_def split: if_splits)
  qed
qed (use wf in \<open>auto simp: recordIncomingMessage_def\<close>)

end
