(* ===== verification/ChatLive.thy ===== *)
theory ChatLive
  imports ChatState
begin

text \<open>
  What reaches the working set of the user interface from outside: the startup snapshot
  (\<open>internal/tui/initial_state.go\<close>), committed live messages (\<open>live.go\<close>), display names (\<open>display.go\<close>) and the checks of
  \<open>media.go\<close> and \<open>chat_state.go\<close> they share. Counting grapheme clusters is a third-party function, the parameter
  \<open>clusters\<close>; the local time zone is the parameter \<open>clock\<close>, the text of a non-zero instant in it.
\<close>

section \<open>Checks of presentation values\<close>

definition maxMediaNameBytes :: int where "maxMediaNameBytes = 512"
definition maxMediaMIMEBytes :: int where "maxMediaMIMEBytes = 256"
definition maxReplyIDBytes :: int where "maxReplyIDBytes = 512"
definition maxReplyTextBytes :: int where "maxReplyTextBytes = 1024"
definition maxReactionGroups :: int where "maxReactionGroups = 16"
definition maxReactionEmojiBytes :: int where "maxReactionEmojiBytes = 64"

definition validMediaMIME :: "string \<Rightarrow> bool" where
  "validMediaMIME v \<longleftrightarrow> len v \<le> maxMediaMIMEBytes \<and> valid_utf8 v"

definition validMediaPresentation :: "string \<Rightarrow> string \<Rightarrow> bool" where
  "validMediaPresentation kind name =
     (if kind = [] then name = []
      else if len name > maxMediaNameBytes then False
      else kind = ''image'' \<or> kind = ''video'' \<or> kind = ''document'' \<or> kind = ''audio'' \<or> kind = ''sticker'')"

definition validReplyMetadata :: "string \<Rightarrow> string \<Rightarrow> bool \<Rightarrow> string \<Rightarrow> string \<Rightarrow> string \<Rightarrow> bool" where
  "validReplyMetadata rid text fromMe mediaKind mediaName mediaMIME =
     (if rid = [] then text = [] \<and> \<not> fromMe \<and> mediaKind = [] \<and> mediaName = [] \<and> mediaMIME = []
      else len rid \<le> maxReplyIDBytes \<and> valid_utf8 rid \<and> len text \<le> maxReplyTextBytes \<and> valid_utf8 text
        \<and> validMediaPresentation mediaKind mediaName \<and> validMediaMIME mediaMIME
        \<and> (mediaKind \<noteq> [] \<or> mediaName = [] \<and> mediaMIME = []) \<and> (text \<noteq> [] \<or> mediaKind \<noteq> []))"

definition validEmojiPreference :: "(string \<Rightarrow> int) \<Rightarrow> string \<Rightarrow> bool" where
  "validEmojiPreference clusters v \<longleftrightarrow> v \<noteq> [] \<and> valid_utf8 v \<and> clusters v = 1"

record reaction_group_view =
  rgv_Emoji :: string
  rgv_Count :: "16 word"
  rgv_Own :: bool

fun distinct_emoji :: "(string \<Rightarrow> int) \<Rightarrow> string list \<Rightarrow> reaction_group_view list \<Rightarrow> bool" where
  "distinct_emoji clusters seen [] = True"
| "distinct_emoji clusters seen (g # gs) =
     (if len (rgv_Emoji g) > maxReactionEmojiBytes \<or> \<not> validEmojiPreference clusters (rgv_Emoji g) \<or> rgv_Count g = 0 \<or> rgv_Count g > 64
      then False
      else if rgv_Emoji g \<in> set seen then False
      else distinct_emoji clusters (rgv_Emoji g # seen) gs)"

definition validReactionGroups :: "(string \<Rightarrow> int) \<Rightarrow> reaction_group_view list \<Rightarrow> bool" where
  "validReactionGroups clusters groups = (if len groups > maxReactionGroups then False else distinct_emoji clusters [] groups)"

definition reaction_view_of :: "reaction_group_view \<Rightarrow> reaction_view" where
  "reaction_view_of g = \<lparr>rv_emoji = rgv_Emoji g, rv_count = rgv_Count g, rv_own = rgv_Own g\<rparr>"

definition localMessageTime :: "(instant \<Rightarrow> string) \<Rightarrow> instant \<Rightarrow> string" where
  "localMessageTime clock at = (if at = 0 then [] else clock at)"

section \<open>The startup snapshot\<close>

record initial_message =
  im_ID :: string
  im_SentAt :: instant
  im_FromMe :: bool
  im_Text :: string
  im_BodyRetained :: bool
  im_MediaKind :: string
  im_MediaName :: string
  im_MediaMIME :: string
  im_ReplyToID :: string
  im_ReplyToText :: string
  im_ReplyToFromMe :: bool
  im_ReplyMediaKind :: string
  im_ReplyMediaName :: string
  im_ReplyMediaMIME :: string
  im_SenderID :: string
  im_IsGroup :: bool
  im_Reactions :: "reaction_group_view list"

record initial_chat =
  ic_ID :: string
  ic_Title :: string
  ic_IsGroup :: bool
  ic_UnreadCount :: "32 word"
  ic_ActivityTime :: instant
  ic_Messages :: "initial_message list"
  ic_ReadOnly :: bool

definition messageViewFromInitial :: "(string \<Rightarrow> int) \<Rightarrow> (instant \<Rightarrow> string) \<Rightarrow> initial_message \<Rightarrow> string + message_view" where
  "messageViewFromInitial clusters clock s =
     (if len (im_SenderID s) > 512 \<or> \<not> valid_utf8 (im_SenderID s)
        \<or> \<not> valid_utf8 (im_MediaKind s) \<or> \<not> valid_utf8 (im_MediaName s) \<or> \<not> validMediaMIME (im_MediaMIME s)
        \<or> \<not> validMediaPresentation (im_MediaKind s) (im_MediaName s)
        \<or> \<not> validReplyMetadata (im_ReplyToID s) (im_ReplyToText s) (im_ReplyToFromMe s) (im_ReplyMediaKind s) (im_ReplyMediaName s) (im_ReplyMediaMIME s)
        \<or> im_ID s = [] \<or> \<not> valid_utf8 (im_ID s) \<or> \<not> valid_utf8 (im_Text s) \<or> \<not> validReactionGroups clusters (im_Reactions s)
      then Inl ''tui initial message rejected''
      else Inr \<lparr>mv_id = im_ID s, mv_sentAt = im_SentAt s, mv_time = localMessageTime clock (im_SentAt s),
        mv_text = (if \<not> im_BodyRetained s then [] else im_Text s),
        mv_mediaKind = im_MediaKind s, mv_mediaName = im_MediaName s, mv_mediaMIME = im_MediaMIME s,
        mv_fromMe = im_FromMe s, mv_bodyRetained = im_BodyRetained s,
        mv_replyToID = im_ReplyToID s, mv_hasReply = (im_ReplyToID s \<noteq> []), mv_replyText = im_ReplyToText s,
        mv_replyFromMe = im_ReplyToFromMe s, mv_replyMediaKind = im_ReplyMediaKind s, mv_replyMediaName = im_ReplyMediaName s,
        mv_replyMediaMIME = im_ReplyMediaMIME s, mv_senderID = im_SenderID s, mv_senderName = [], mv_senderQuality = 0,
        mv_isGroup = im_IsGroup s, mv_reactions = map reaction_view_of (im_Reactions s)\<rparr>)"

fun initial_messages :: "(string \<Rightarrow> int) \<Rightarrow> (instant \<Rightarrow> string) \<Rightarrow> string list \<Rightarrow> initial_message list \<Rightarrow> string + message_view list" where
  "initial_messages clusters clock seen [] = Inr []"
| "initial_messages clusters clock seen (s # ss) =
     (case messageViewFromInitial clusters clock s of
        Inl e \<Rightarrow> Inl ''tui initial state rejected''
      | Inr m \<Rightarrow>
          if im_ID s \<in> set seen then Inl ''tui initial state rejected''
          else on_ok (initial_messages clusters clock (im_ID s # seen) ss) (\<lambda>ms. Inr (m # ms)))"

fun initial_chats :: "(string \<Rightarrow> int) \<Rightarrow> (instant \<Rightarrow> string) \<Rightarrow> string list \<Rightarrow> initial_chat list \<Rightarrow> string + chat_view list" where
  "initial_chats clusters clock seen [] = Inr []"
| "initial_chats clusters clock seen (s # ss) =
     (if ic_ID s = [] \<or> \<not> valid_utf8 (ic_ID s) \<or> \<not> valid_utf8 (ic_Title s) \<or> length (ic_Messages s) > maxMessages
      then Inl ''tui initial state rejected''
      else if ic_ID s \<in> set seen then Inl ''tui initial state rejected''
      else on_ok (initial_messages clusters clock [] (ic_Messages s)) (\<lambda>ms.
        on_ok (initial_chats clusters clock (ic_ID s # seen) ss) (\<lambda>cs.
        Inr (\<lparr>cv_id = ic_ID s, cv_title = ic_Title s, cv_titleQuality = 0, cv_isGroup = ic_IsGroup s, cv_messages = ms,
          cv_buffer = (if ic_Messages s = [] then None else Some maxMessages), cv_unreadCount = ic_UnreadCount s,
          cv_activityTime = ic_ActivityTime s, cv_revision = 0, cv_readOnly = ic_ReadOnly s\<rparr> # cs))))"

definition chatStateFromInitial :: "(string \<Rightarrow> int) \<Rightarrow> (instant \<Rightarrow> string) \<Rightarrow> initial_chat list \<Rightarrow> string + chat_state" where
  "chatStateFromInitial clusters clock initial =
     (if len initial > maxChats then Inl ''tui initial state rejected''
      else on_ok (initial_chats clusters clock [] initial) (\<lambda>cs.
        let st = \<lparr>cs_chats = cs, cs_selected = 0, cs_nextLocalID = 0\<rparr>
        in Inr (if cs \<noteq> [] then expandMessageBuffer st (cs_selected st) else st)))"

section \<open>Live messages\<close>

record live_message =
  lm_ChatID :: string
  lm_MessageID :: string
  lm_SentAt :: instant
  lm_FromMe :: bool
  lm_Text :: string
  lm_BodyRetained :: bool
  lm_MediaKind :: string
  lm_MediaName :: string
  lm_MediaMIME :: string
  lm_ReplyToID :: string
  lm_ReplyToText :: string
  lm_ReplyToFromMe :: bool
  lm_ReplyMediaKind :: string
  lm_ReplyMediaName :: string
  lm_ReplyMediaMIME :: string
  lm_UnreadCount :: "32 word"
  lm_ActivityTime :: instant
  lm_SenderID :: string
  lm_IsGroup :: bool
  lm_ReadOnly :: bool
  lm_NotificationEligible :: bool

record live_mutation =
  mut_changed :: bool
  mut_inserted :: bool
  mut_insertionIndex :: int

definition no_mutation :: live_mutation where
  "no_mutation = \<lparr>mut_changed = False, mut_inserted = False, mut_insertionIndex = 0\<rparr>"

definition validLiveMessage :: "live_message \<Rightarrow> bool" where
  "validLiveMessage e \<longleftrightarrow> lm_ChatID e \<noteq> [] \<and> lm_MessageID e \<noteq> []
     \<and> valid_utf8 (lm_ChatID e) \<and> valid_utf8 (lm_MessageID e) \<and> valid_utf8 (lm_Text e)
     \<and> valid_utf8 (lm_MediaKind e) \<and> valid_utf8 (lm_MediaName e) \<and> validMediaPresentation (lm_MediaKind e) (lm_MediaName e)
     \<and> validMediaMIME (lm_MediaMIME e)
     \<and> validReplyMetadata (lm_ReplyToID e) (lm_ReplyToText e) (lm_ReplyToFromMe e) (lm_ReplyMediaKind e) (lm_ReplyMediaName e) (lm_ReplyMediaMIME e)
     \<and> len (lm_SenderID e) \<le> 512 \<and> valid_utf8 (lm_SenderID e)
     \<and> lm_SentAt e \<noteq> 0 \<and> lm_ActivityTime e \<noteq> 0 \<and> \<not> lm_ActivityTime e < lm_SentAt e"

text \<open>The returned index is the position of the new chat.\<close>

definition admitLiveChat :: "live_message \<Rightarrow> chat_state \<Rightarrow> chat_state \<times> int option" where
  "admitLiveChat e st =
     (if len (cs_chats st) > maxChats then (st, None)
      else if len (cs_chats st) < maxChats
      then (st\<lparr>cs_chats := cs_chats st @ [\<lparr>cv_id = lm_ChatID e, cv_title = lm_ChatID e, cv_titleQuality = 0, cv_isGroup = False,
              cv_messages = [], cv_buffer = None, cv_unreadCount = 0, cv_activityTime = lm_ActivityTime e, cv_revision = 0,
              cv_readOnly = lm_ReadOnly e\<rparr>]\<rparr>, Some (len (cs_chats st)))
      else (st, None))"

definition messageBefore :: "message_view \<Rightarrow> message_view \<Rightarrow> bool" where
  "messageBefore l r =
     (if mv_sentAt l = 0 \<or> mv_sentAt r = 0 then (if (mv_sentAt l = 0) = (mv_sentAt r = 0) then False else mv_sentAt l \<noteq> 0)
      else if mv_sentAt l = mv_sentAt r then mv_id l < mv_id r
      else mv_sentAt l < mv_sentAt r)"

definition insertBoundedMessage :: "message_view \<Rightarrow> chat_view \<Rightarrow> chat_view \<times> bool \<times> int" where
  "insertBoundedMessage m c =
     (let c = ensureMessages c; ms = cv_messages c;
          insertion = (case index_of (\<lambda>x. messageBefore m x) 0 ms of None \<Rightarrow> len ms | Some i \<Rightarrow> i)
      in if length ms < the (cv_buffer c)
         then (c\<lparr>cv_messages := take (nat insertion) ms @ m # drop (nat insertion) ms\<rparr>, True, insertion)
         else if insertion = 0 then (c, False, -1)
         else
           let insertion = insertion - 1; i = nat insertion
           in (c\<lparr>cv_messages := (take i (tl ms) @ drop i ms)[i := m]\<rparr>, True, insertion))"

definition live_view :: "(instant \<Rightarrow> string) \<Rightarrow> live_message \<Rightarrow> message_view" where
  "live_view clock e =
     \<lparr>mv_id = lm_MessageID e, mv_sentAt = lm_SentAt e, mv_time = localMessageTime clock (lm_SentAt e),
      mv_text = (if \<not> lm_BodyRetained e then [] else lm_Text e),
      mv_mediaKind = lm_MediaKind e, mv_mediaName = lm_MediaName e, mv_mediaMIME = lm_MediaMIME e,
      mv_fromMe = lm_FromMe e, mv_bodyRetained = lm_BodyRetained e,
      mv_replyToID = lm_ReplyToID e, mv_hasReply = (lm_ReplyToID e \<noteq> []), mv_replyText = lm_ReplyToText e,
      mv_replyFromMe = lm_ReplyToFromMe e, mv_replyMediaKind = lm_ReplyMediaKind e, mv_replyMediaName = lm_ReplyMediaName e,
      mv_replyMediaMIME = lm_ReplyMediaMIME e, mv_senderID = lm_SenderID e, mv_senderName = [], mv_senderQuality = 0,
      mv_isGroup = lm_IsGroup e, mv_reactions = []\<rparr>"

definition applyLiveMessage :: "(instant \<Rightarrow> string) \<Rightarrow> int \<Rightarrow> live_message \<Rightarrow> chat_state \<Rightarrow> chat_state \<times> live_mutation" where
  "applyLiveMessage clock chatIndex e st =
     (case chatAt st chatIndex of
        None \<Rightarrow> (st, no_mutation)
      | Some c \<Rightarrow>
          let changed = (cv_unreadCount c \<noteq> lm_UnreadCount e);
              c1 = (if changed then c\<lparr>cv_unreadCount := lm_UnreadCount e\<rparr> else c);
              later = (lm_ActivityTime e > cv_activityTime c1);
              c2 = (if later then c1\<lparr>cv_activityTime := lm_ActivityTime e\<rparr> else c1);
              st = with_chat (\<lambda>_. c2) chatIndex st
          in (case messageIndexByID st chatIndex (lm_MessageID e) of
                Some _ \<Rightarrow> (st, no_mutation\<lparr>mut_changed := changed \<or> later\<rparr>)
              | None \<Rightarrow>
                  let (c3, inserted, index) = insertBoundedMessage (live_view clock e) c2
                  in (with_chat (\<lambda>_. c3) chatIndex st,
                    \<lparr>mut_changed = (changed \<or> later) \<or> inserted, mut_inserted = inserted, mut_insertionIndex = index\<rparr>)))"

section \<open>The order of the chats\<close>

definition chatBefore :: "chat_view \<Rightarrow> chat_view \<Rightarrow> bool" where
  "chatBefore l r = (if cv_activityTime l = cv_activityTime r then cv_id l < cv_id r else cv_activityTime l > cv_activityTime r)"

text \<open>One round of the insertion sort: the chat moves left past the sorted part, which is held in reverse.\<close>

fun move_left :: "chat_view \<Rightarrow> chat_view list \<Rightarrow> chat_view list" where
  "move_left c [] = [c]"
| "move_left c (p # ps) = (if chatBefore c p then p # move_left c ps else c # p # ps)"

definition insertion_sorted :: "chat_view list \<Rightarrow> chat_view list" where
  "insertion_sorted cs = rev (foldl (\<lambda>acc c. move_left c acc) [] cs)"

fun reselect :: "string \<Rightarrow> int \<Rightarrow> int \<Rightarrow> chat_view list \<Rightarrow> int" where
  "reselect cid index selected [] = selected"
| "reselect cid index selected (c # cs) = reselect cid (index + 1) (if cv_id c = cid then index else selected) cs"

definition sortByActivity :: "chat_state \<Rightarrow> chat_state \<times> bool" where
  "sortByActivity st =
     (if len (cs_chats st) < 2 then (st, False)
      else
        let selectedID = (case selectedChat st of Some c \<Rightarrow> cv_id c | None \<Rightarrow> []);
            cs = insertion_sorted (cs_chats st)
        in (st\<lparr>cs_chats := cs, cs_selected := reselect selectedID 0 (cs_selected st) cs\<rparr>,
            map cv_id (cs_chats st) \<noteq> map cv_id cs))"

section \<open>Display names\<close>

definition displayMetadataCapacity :: nat where "displayMetadataCapacity = 128"

record display_value =
  dv_ID :: string
  dv_Name :: string
  dv_Quality :: "8 word"
  dv_IsGroup :: bool

record display_state =
  ds_entries :: "display_value list"
  ds_next :: nat

definition no_display_value :: display_value where
  "no_display_value = \<lparr>dv_ID = [], dv_Name = [], dv_Quality = 0, dv_IsGroup = False\<rparr>"

definition no_display :: display_state where
  "no_display = \<lparr>ds_entries = replicate displayMetadataCapacity no_display_value, ds_next = 0\<rparr>"

definition display_lookup :: "string \<Rightarrow> display_state \<Rightarrow> display_value" where
  "display_lookup i ds =
     (if i \<noteq> [] then (case find (\<lambda>v. dv_ID v = i) (ds_entries ds) of Some v \<Rightarrow> v | None \<Rightarrow> no_display_value) else no_display_value)"

text \<open>A message with its new sender name, and whether what is shown of it changed.\<close>

definition enrich_message :: "display_state \<Rightarrow> message_view \<Rightarrow> message_view \<times> bool" where
  "enrich_message ds m =
     (let v = display_lookup (mv_senderID m) ds
      in if dv_Name v \<noteq> [] \<and> dv_Quality v \<ge> mv_senderQuality m
         then (m\<lparr>mv_senderName := dv_Name v, mv_senderQuality := dv_Quality v\<rparr>,
               mv_senderName m \<noteq> dv_Name v \<and> mv_isGroup m \<and> \<not> mv_fromMe m)
         else (m, False))"

definition enrichChatDisplay :: "display_state \<Rightarrow> chat_view \<Rightarrow> chat_view \<times> bool" where
  "enrichChatDisplay ds c =
     (let v = display_lookup (cv_id c) ds;
          named = (dv_Name v \<noteq> [] \<and> dv_Quality v \<ge> cv_titleQuality c);
          c1 = (if named then c\<lparr>cv_title := dv_Name v, cv_titleQuality := dv_Quality v\<rparr> else c);
          ms = map (enrich_message ds) (cv_messages c)
      in (c1\<lparr>cv_isGroup := cv_isGroup c \<or> dv_IsGroup v, cv_messages := map fst ms\<rparr>,
          named \<and> cv_title c \<noteq> dv_Name v \<or> list_ex snd ms))"

definition applyDisplayMetadata :: "display_value \<Rightarrow> display_state \<Rightarrow> chat_state \<Rightarrow> display_state \<times> chat_state \<times> bool" where
  "applyDisplayMetadata v ds st =
     (if dv_ID v = [] \<or> len (dv_ID v) > 512 \<or> len (dv_Name v) > 1024 \<or> dv_Quality v > 5 \<or> \<not> valid_utf8 (dv_ID v) \<or> \<not> valid_utf8 (dv_Name v)
      then (ds, st, False)
      else
        let (i, ds1) = (case index_of (\<lambda>old. dv_ID old = dv_ID v) 0 (ds_entries ds) of
               Some i \<Rightarrow> (nat i, ds)
             | None \<Rightarrow> (ds_next ds, ds\<lparr>ds_next := (ds_next ds + 1) mod length (ds_entries ds),
                 ds_entries := (ds_entries ds)[ds_next ds := no_display_value]\<rparr>));
            old = ds_entries ds1 ! i;
            v1 = v\<lparr>dv_IsGroup := dv_IsGroup v \<or> dv_IsGroup old\<rparr>;
            v2 = (if dv_ID old \<noteq> [] \<and> (dv_Name v1 = [] \<or> dv_Quality v1 < dv_Quality old)
                  then v1\<lparr>dv_Name := dv_Name old, dv_Quality := dv_Quality old\<rparr> else v1);
            ds2 = ds1\<lparr>ds_entries := (ds_entries ds1)[i := v2]\<rparr>;
            cs = map (enrichChatDisplay ds2) (cs_chats st)
        in (ds2, st\<lparr>cs_chats := map fst cs\<rparr>, list_ex snd cs))"

section \<open>Messages in order\<close>

text \<open>A dated message comes before an undated one; equal instants are ordered by identifier.\<close>

datatype position = Dated (position_time: instant) (position_name: string) | Undated

instantiation position :: linorder
begin

fun less_eq_position :: "position \<Rightarrow> position \<Rightarrow> bool" where
  "less_eq_position p Undated = True"
| "less_eq_position Undated (Dated t i) = False"
| "less_eq_position (Dated t i) (Dated u j) = (t < u \<or> t = u \<and> i \<le> j)"

fun less_position :: "position \<Rightarrow> position \<Rightarrow> bool" where
  "less_position Undated q = False"
| "less_position (Dated t i) Undated = True"
| "less_position (Dated t i) (Dated u j) = (t < u \<or> t = u \<and> i < j)"

instance
proof
  fix p q r :: position
  show "p < q \<longleftrightarrow> p \<le> q \<and> \<not> q \<le> p" by (cases p; cases q) auto
  show "p \<le> p" by (cases p) auto
  show "p \<le> q \<Longrightarrow> q \<le> r \<Longrightarrow> p \<le> r" by (cases p; cases q; cases r) auto
  show "p \<le> q \<Longrightarrow> q \<le> p \<Longrightarrow> p = q" by (cases p; cases q) auto
  show "p \<le> q \<or> q \<le> p" by (cases p; cases q) auto
qed

end

definition message_position :: "message_view \<Rightarrow> position" where
  "message_position m = (if mv_sentAt m = 0 then Undated else Dated (mv_sentAt m) (mv_id m))"

interpretation message_order: key_order messageBefore message_position
  by unfold_locales (auto simp: messageBefore_def message_position_def)

lemma index_of_takeWhile:
  "index_of P k xs = (if \<exists>x \<in> set xs. P x then Some (k + len (takeWhile (\<lambda>x. \<not> P x) xs)) else None)"
  by (induction xs arbitrary: k) auto

lemma index_of_Some:
  "index_of P k xs = Some i \<Longrightarrow> k \<le> i \<and> i < k + len xs \<and> P (xs ! nat (i - k)) \<and> (\<forall>j < nat (i - k). \<not> P (xs ! j))"
proof (induction xs arbitrary: k)
  case (Cons x xs)
  show ?case
  proof (cases "P x")
    case False
    then have i: "k + 1 \<le> i \<and> i < k + 1 + len xs \<and> P (xs ! nat (i - (k + 1))) \<and> (\<forall>j < nat (i - (k + 1)). \<not> P (xs ! j))"
      using Cons by simp
    then have "k + 1 \<le> i" by blast
    then have "nat (i - k) = Suc (nat (i - (k + 1)))" by linarith
    then show ?thesis using i False by (auto simp: nth_Cons less_Suc_eq_0_disj split: nat.split)
  qed (use Cons.prems in auto)
qed simp

lemma index_of_None: "index_of P k xs = None \<longleftrightarrow> (\<forall>x \<in> set xs. \<not> P x)"
  by (simp add: index_of_takeWhile)

lemma insertion_index:
  "(case index_of (\<lambda>x. messageBefore m x) 0 ms of None \<Rightarrow> len ms | Some i \<Rightarrow> i) = len (takeWhile (\<lambda>x. \<not> messageBefore m x) ms)"
proof (cases "\<exists>x \<in> set ms. messageBefore m x")
  case False
  then have "takeWhile (\<lambda>x. \<not> messageBefore m x) ms = ms" by (subst takeWhile_eq_all_conv) blast
  then have "len (takeWhile (\<lambda>x. \<not> messageBefore m x) ms) = len ms" by (rule arg_cong)
  moreover have "index_of (\<lambda>x. messageBefore m x) 0 ms = None" using False by (simp add: index_of_None)
  ultimately show ?thesis by (simp only: option.case)
qed (auto simp: index_of_takeWhile)

text \<open>In an ordered list the new message goes after everything that is not later.\<close>

definition insert_ordered :: "message_view \<Rightarrow> message_view list \<Rightarrow> message_view list" where
  "insert_ordered m ms = takeWhile (\<lambda>x. \<not> messageBefore m x) ms @ m # dropWhile (\<lambda>x. \<not> messageBefore m x) ms"

lemma mset_insert_ordered [simp]: "mset (insert_ordered m ms) = add_mset m (mset ms)"
proof -
  have "mset ms = mset (takeWhile (\<lambda>x. \<not> messageBefore m x) ms) + mset (dropWhile (\<lambda>x. \<not> messageBefore m x) ms)"
    by (metis mset_append takeWhile_dropWhile_id)
  then show ?thesis by (simp add: insert_ordered_def)
qed

lemma length_insert_ordered [simp]: "length (insert_ordered m ms) = Suc (length ms)"
  using mset_insert_ordered [of m ms] by (metis size_add_mset size_mset)

lemma sort_snoc:
  assumes "sorted (map message_position ms)"
  shows "sort_key message_position (ms @ [m]) = insert_ordered m ms"
    (is "_ = ?ys")
proof -
  let ?l = "takeWhile (\<lambda>x. \<not> messageBefore m x) ms" and ?r = "dropWhile (\<lambda>x. \<not> messageBefore m x) ms"
  have "sort_key message_position (ms @ [m]) = ?l @ m # ?r"
  proof (rule properties_for_sort_key)
    let ?f = message_position
    have split: "ms = ?l @ ?r" by simp
    have l: "?f x \<le> ?f m" if "x \<in> set ?l" for x
      using that set_takeWhileD by (fastforce simp: message_order.lt_key not_less)
    have sorted_r: "sorted (map ?f ?r)" using assms by (simp add: sorted_wrt_dropWhile sorted_wrt_map sorted_map)
    have r: "?f m < ?f x" if x: "x \<in> set ?r" for x
    proof (cases ?r)
      case (Cons y ys)
      then have "messageBefore m y" by (metis dropWhile_eq_Cons_conv)
      moreover have "?f y \<le> ?f x" using x sorted_r unfolding Cons by auto
      ultimately show ?thesis by (simp add: message_order.lt_key)
    next
      case Nil
      then show ?thesis using x by (simp only: list.set empty_iff)
    qed
    have sorted_l: "sorted (map ?f ?l)" using assms by (metis sorted_map sorted_wrt_append split)
    show "mset (?l @ m # ?r) = mset (ms @ [m])"
      by (subst (3) split) (simp del: takeWhile_dropWhile_id)
    have "?f x \<le> ?f y" if "x \<in> set ?l" "y \<in> set ?r" for x y
      using l [OF that(1)] r [OF that(2)] by simp
    then show "sorted (map ?f (?l @ m # ?r))"
      using sorted_l sorted_r l r by (auto simp: sorted_append order_trans less_imp_le)
    show "filter (\<lambda>x. ?f k = ?f x) (?l @ m # ?r) = filter (\<lambda>x. ?f k = ?f x) (ms @ [m])" for k
    proof (cases "?f k = ?f m")
      case True
      then have "filter (\<lambda>x. ?f k = ?f x) ?r = []" using r by (fastforce simp: filter_empty_conv)
      moreover have "filter (\<lambda>x. ?f k = ?f x) ms = filter (\<lambda>x. ?f k = ?f x) ?l @ filter (\<lambda>x. ?f k = ?f x) ?r"
        by (metis filter_append split)
      ultimately show ?thesis using True by simp
    next
      case False
      have "filter (\<lambda>x. ?f k = ?f x) ms = filter (\<lambda>x. ?f k = ?f x) ?l @ filter (\<lambda>x. ?f k = ?f x) ?r"
        by (metis filter_append split)
      then show ?thesis using False by simp
    qed
  qed
  then show ?thesis by (simp add: insert_ordered_def)
qed

text \<open>Inserting into a buffer keeps the newest messages that fit.\<close>

lemma keep_last_all: "length xs \<le> n \<Longrightarrow> keep_last n xs = xs"
  by (simp add: keep_last_def)

lemma ensured_buffer: "cv_buffer (ensureMessages c) = Some (case cv_buffer c of Some n \<Rightarrow> n | None \<Rightarrow> maxMessages)"
  by (simp add: ensureMessages_def split: option.split)

lemma ensured_same [simp]: "cv_messages (ensureMessages c) = cv_messages c" "cv_id (ensureMessages c) = cv_id c"
  by (simp_all add: ensureMessages_def)

lemma insert_bounded_eq:
  fixes m :: message_view
  assumes wf: "wf_buffer c"
  defines "n \<equiv> (case cv_buffer c of Some n \<Rightarrow> n | None \<Rightarrow> maxMessages)"
    and "ys \<equiv> insert_ordered m (cv_messages c)"
  shows "fst (insertBoundedMessage m c) = (ensureMessages c)\<lparr>cv_messages := keep_last n ys\<rparr>"
    and "fst (snd (insertBoundedMessage m c)) \<longleftrightarrow> length (cv_messages c) < n \<or> takeWhile (\<lambda>x. \<not> messageBefore m x) (cv_messages c) \<noteq> []"
    and "fst (snd (insertBoundedMessage m c)) \<Longrightarrow> snd (snd (insertBoundedMessage m c)) = len (takeWhile (\<lambda>x. \<not> messageBefore m x) (cv_messages c)) - (if length (cv_messages c) < n then 0 else 1)"
proof -
  let ?ms = "cv_messages c" and ?c = "ensureMessages c"
  let ?l = "takeWhile (\<lambda>x. \<not> messageBefore m x) ?ms" and ?r = "dropWhile (\<lambda>x. \<not> messageBefore m x) ?ms"
  have ys: "ys = ?l @ m # ?r" by (simp add: ys_def insert_ordered_def)
  have n: "cv_buffer ?c = Some n" unfolding n_def by (rule ensured_buffer)
  have le: "length ?ms \<le> n" "0 < n" using wf by (auto simp: wf_buffer_def n_def buffer_sizes split: option.splits)
  have split: "?ms = ?l @ ?r" by simp
  have take: "take (length ?l) ?ms = ?l" "drop (length ?l) ?ms = ?r" by (metis append_eq_conv_conj split)+
  have all: "insertBoundedMessage m c =
    (if length ?ms < n then (?c\<lparr>cv_messages := keep_last n ys\<rparr>, True, len ?l)
     else if ?l = [] then (?c\<lparr>cv_messages := keep_last n ys\<rparr>, False, -1)
     else (?c\<lparr>cv_messages := keep_last n ys\<rparr>, True, len ?l - 1))"
  proof (cases "length ?ms < n")
    case True
    then have "length ys \<le> n" unfolding ys_def by simp
    then have "keep_last n ys = ?l @ m # ?r" using ys by (simp add: keep_last_all)
    then show ?thesis using True by (simp add: insertBoundedMessage_def Let_def insertion_index n take)
  next
    case False
    then have len: "length ?ms = n" "length ys = Suc n" using le unfolding ys_def by simp_all
    then have kl: "keep_last n ys = tl ys" by (simp add: keep_last_def drop_Suc)
    show ?thesis
    proof (cases "?l = []")
      case True
      then have "?r = ?ms" by (metis split append_Nil)
      then have "ys = m # ?ms" using True unfolding ys by simp
      then have "keep_last n ys = ?ms" using kl by simp
      then show ?thesis using True False by (simp add: insertBoundedMessage_def Let_def insertion_index n)
    next
      case nonempty: False
      then obtain x xs where l: "?l = x # xs" by (cases ?l) auto
      have "?ms = x # xs @ ?r" using split l by simp
      then have "take (length xs) (tl ?ms) @ drop (length xs) ?ms = xs @ (x # xs @ ?r) ! length xs # ?r"
        by (metis (no_types, lifting) Cons_nth_drop_Suc append_Cons append_eq_conv_conj drop_append drop_Suc_Cons length_append length_Cons less_add_Suc1 list.sel(3) plus_1_eq_Suc add.commute)
      then have "(take (length xs) (tl ?ms) @ drop (length xs) ?ms)[length xs := m] = xs @ m # ?r" by simp
      moreover have "keep_last n ys = xs @ m # ?r" using kl by (simp add: ys l)
      ultimately show ?thesis using nonempty False l by (simp add: insertBoundedMessage_def Let_def insertion_index n)
    qed
  qed
  show "fst (insertBoundedMessage m c) = (ensureMessages c)\<lparr>cv_messages := keep_last n ys\<rparr>" using all by simp
  show "fst (snd (insertBoundedMessage m c)) \<longleftrightarrow> length ?ms < n \<or> ?l \<noteq> []"
    using all ys by auto
  show "snd (snd (insertBoundedMessage m c)) = len ?l - (if length ?ms < n then 0 else 1)" if "fst (snd (insertBoundedMessage m c))"
    using that unfolding all by (auto split: if_splits)
qed

section \<open>What every change keeps\<close>

text \<open>Chats and the messages of a chat have different, non-empty identifiers.\<close>

definition chat_ids_ok :: "chat_view \<Rightarrow> bool" where
  "chat_ids_ok c \<longleftrightarrow> distinct (map mv_id (cv_messages c)) \<and> [] \<notin> mv_id ` set (cv_messages c)"

definition wf_working_set :: "chat_state \<Rightarrow> bool" where
  "wf_working_set st \<longleftrightarrow> wf_chat_state st \<and> distinct (map cv_id (cs_chats st)) \<and> (\<forall>c \<in> set (cs_chats st). chat_ids_ok c)"

definition in_order :: "chat_state \<Rightarrow> bool" where
  "in_order st \<longleftrightarrow> (\<forall>c \<in> set (cs_chats st). sorted (map message_position (cv_messages c)))"

lemma wf_working_set_state [dest]: "wf_working_set st \<Longrightarrow> wf_chat_state st"
  by (simp add: wf_working_set_def)

lemma with_chat_live:
  assumes "wf_working_set st" "0 \<le> i" "i < len (cs_chats st)"
    and "wf_buffer (f (cs_chats st ! nat i))" "i \<noteq> cs_selected st \<Longrightarrow> cv_buffer (f (cs_chats st ! nat i)) \<noteq> Some SelectedChatHistoryCapacity"
    and "cv_id (f (cs_chats st ! nat i)) = cv_id (cs_chats st ! nat i)" "chat_ids_ok (f (cs_chats st ! nat i))"
  shows "wf_working_set (with_chat f i st)"
proof -
  have "wf_chat_state (with_chat f i st)" using assms by (intro with_chat_wf) auto
  moreover have "map cv_id (cs_chats (with_chat f i st)) = map cv_id (cs_chats st)"
    using assms(2,3,6) by (intro nth_equalityI) (auto simp: with_chat_nth)
  moreover have "chat_ids_ok c" if "c \<in> set (cs_chats (with_chat f i st))" for c
    using that assms(1,7) set_update_subset_insert by (fastforce simp: with_chat_def wf_working_set_def)
  ultimately show ?thesis using assms(1) by (simp add: wf_working_set_def)
qed

lemma chat_of_live:
  assumes "wf_working_set st" "chatAt st i = Some c"
  shows "chat_ids_ok c" "wf_buffer c" "i \<noteq> cs_selected st \<Longrightarrow> cv_buffer c \<noteq> Some SelectedChatHistoryCapacity"
    "0 \<le> i" "i < len (cs_chats st)" "cs_chats st ! nat i = c"
proof -
  show i: "0 \<le> i" "i < len (cs_chats st)" "cs_chats st ! nat i = c" using assms(2) by (simp_all add: chatAt_Some)
  then have "c \<in> set (cs_chats st)" by auto
  then show "chat_ids_ok c" using assms(1) by (simp add: wf_working_set_def)
  show "wf_buffer c" "i \<noteq> cs_selected st \<Longrightarrow> cv_buffer c \<noteq> Some SelectedChatHistoryCapacity"
    using wf_chat_of [OF _ assms(2)] assms(1) by blast+
qed

text \<open>An insertion into a bounded buffer adds at most the new message.\<close>

lemma insert_bounded_messages:
  assumes "wf_buffer c"
  shows "cv_messages (fst (insertBoundedMessage m c)) = keep_last (case cv_buffer c of Some n \<Rightarrow> n | None \<Rightarrow> maxMessages) (insert_ordered m (cv_messages c))"
    and "cv_buffer (fst (insertBoundedMessage m c)) = Some (case cv_buffer c of Some n \<Rightarrow> n | None \<Rightarrow> maxMessages)"
    and "cv_id (fst (insertBoundedMessage m c)) = cv_id c"
  using insert_bounded_eq(1) [OF assms, of m] by (simp_all add: ensured_buffer)

lemma set_keep_last: "set (keep_last n xs) \<subseteq> set xs"
  by (simp add: keep_last_def set_drop_subset)

lemma distinct_keep_last: "distinct (map f xs) \<Longrightarrow> distinct (map f (keep_last n xs))"
  by (simp add: keep_last_def drop_map [symmetric])

lemma distinct_mset: "mset xs = mset ys \<Longrightarrow> distinct (map f xs) = distinct (map f ys)"
  by (metis distinct_count_atmost_1 mset_map set_map set_mset_mset)

lemma insert_bounded_ok:
  assumes "wf_buffer c" "chat_ids_ok c" "mv_id m \<noteq> []" "mv_id m \<notin> mv_id ` set (cv_messages c)"
  shows "wf_buffer (fst (insertBoundedMessage m c))" "chat_ids_ok (fst (insertBoundedMessage m c))"
    "cv_buffer c \<noteq> Some SelectedChatHistoryCapacity \<Longrightarrow> cv_buffer (fst (insertBoundedMessage m c)) \<noteq> Some SelectedChatHistoryCapacity"
proof -
  let ?n = "case cv_buffer c of Some n \<Rightarrow> n | None \<Rightarrow> maxMessages" and ?ys = "insert_ordered m (cv_messages c)"
  note new = insert_bounded_messages [OF assms(1), of m]
  show "wf_buffer (fst (insertBoundedMessage m c))"
    using assms(1) unfolding wf_buffer_def new by (auto split: option.splits)
  show "cv_buffer c \<noteq> Some SelectedChatHistoryCapacity \<Longrightarrow> cv_buffer (fst (insertBoundedMessage m c)) \<noteq> Some SelectedChatHistoryCapacity"
    unfolding new by (auto simp: buffer_sizes split: option.splits)
  have "distinct (map mv_id ?ys) = distinct (map mv_id (m # cv_messages c))" by (rule distinct_mset) simp
  moreover have "set ?ys = insert m (set (cv_messages c))" using mset_insert_ordered [of m "cv_messages c"] by (metis set_mset_add_mset_insert set_mset_mset)
  ultimately show "chat_ids_ok (fst (insertBoundedMessage m c))"
    using assms(2-4) set_keep_last [of ?n ?ys] unfolding chat_ids_ok_def new by (auto intro: distinct_keep_last)
qed

section \<open>Sorting by activity\<close>

definition chat_rank :: "chat_view \<Rightarrow> listing" where
  "chat_rank c = Listing (cv_activityTime c) (cv_id c)"

interpretation active_chats: key_order chatBefore chat_rank
  by unfold_locales (auto simp: chatBefore_def chat_rank_def less_listing_def)

lemma mset_move_left [simp]: "mset (move_left c ps) = add_mset c (mset ps)"
  by (induction ps) auto

lemma set_move_left [simp]: "set (move_left c ps) = insert c (set ps)"
  using mset_move_left [of c ps] by (metis set_mset_add_mset_insert set_mset_mset)

lemma move_left_sorted: "sorted_wrt (\<lambda>x y. chat_rank y \<le> chat_rank x) ps \<Longrightarrow> sorted_wrt (\<lambda>x y. chat_rank y \<le> chat_rank x) (move_left c ps)"
  by (induction ps) (auto simp: active_chats.lt_key not_less intro: order_trans less_imp_le)

lemma insertion_sorted_mset: "mset (insertion_sorted cs) = mset cs"
proof -
  have "mset (foldl (\<lambda>acc c. move_left c acc) acc cs) = mset acc + mset cs" for acc
    by (induction cs arbitrary: acc) auto
  then show ?thesis by (simp add: insertion_sorted_def)
qed

lemma insertion_sorted_sorted: "sorted (map chat_rank (insertion_sorted cs))"
proof -
  have "sorted_wrt (\<lambda>x y. chat_rank y \<le> chat_rank x) (foldl (\<lambda>acc c. move_left c acc) acc cs)"
    if "sorted_wrt (\<lambda>x y. chat_rank y \<le> chat_rank x) acc" for acc
    using that by (induction cs arbitrary: acc) (simp_all add: move_left_sorted)
  from this [of "[]"] show ?thesis by (simp add: insertion_sorted_def sorted_map sorted_wrt_rev)
qed

lemma insertion_sorted_simps [simp]:
  "set (insertion_sorted cs) = set cs" "length (insertion_sorted cs) = length cs"
  "distinct (map f (insertion_sorted cs)) = distinct (map f cs)"
  using insertion_sorted_mset [of cs] distinct_mset by (metis set_mset_mset, metis size_mset, metis)

lemma reselect_absent: "cid \<notin> cv_id ` set cs \<Longrightarrow> reselect cid k s cs = s"
  by (induction cs arbitrary: k s) auto

lemma reselect_found: "distinct (map cv_id cs) \<Longrightarrow> j < length cs \<Longrightarrow> reselect (cv_id (cs ! j)) k s cs = k + int j"
proof (induction cs arbitrary: j k s)
  case (Cons c cs)
  show ?case
  proof (cases j)
    case 0
    then show ?thesis using Cons.prems by (auto simp: reselect_absent)
  next
    case (Suc i)
    then have "cv_id c \<noteq> cv_id (cs ! i)" using Cons.prems by (metis distinct.simps(2) list.simps(9) nth_mem in_set_conv_nth imageI list.set_map length_Cons Suc_less_eq)
    then show ?thesis using Suc Cons by simp
  qed
qed simp

text \<open>Rearranging the chats around the selected one keeps the working set well-formed.\<close>

lemma permuted_wf:
  assumes wf: "wf_chat_state st" and dist: "distinct (map cv_id (cs_chats st))" and ms: "mset cs = mset (cs_chats st)"
    and sel: "chatAt (st\<lparr>cs_chats := cs, cs_selected := s\<rparr>) s = selectedChat st"
  shows "wf_chat_state (st\<lparr>cs_chats := cs, cs_selected := (if cs = [] then 0 else s)\<rparr>)"
proof (cases "cs = []")
  case True
  then show ?thesis using wf by (simp add: wf_chat_state_def maxChats_def)
next
  case False
  let ?xs = "cs_chats st" and ?i = "cs_selected st"
  have len: "length cs = length ?xs" and set: "set cs = set ?xs" using ms by (metis size_mset, metis set_mset_mset)
  have dist': "distinct (map cv_id cs)" using dist distinct_mset [OF ms] by metis
  have "?xs \<noteq> []" using False len by auto
  then have i: "0 \<le> ?i" "?i < len ?xs" using wf by (auto simp: wf_chat_state_def)
  then have "selectedChat st = Some (?xs ! nat ?i)" by (simp add: selectedChat_def chatAt_Some)
  then have s: "0 \<le> s" "s < len cs" "cs ! nat s = ?xs ! nat ?i" using sel by (simp_all add: chatAt_Some)
  have "wf_buffer (cs ! j) \<and> (int j \<noteq> s \<longrightarrow> cv_buffer (cs ! j) \<noteq> Some SelectedChatHistoryCapacity)" if j: "j < length cs" for j
  proof -
    have "cs ! j \<in> set ?xs" using j set nth_mem by blast
    then obtain k where k: "k < length ?xs" "?xs ! k = cs ! j" by (auto simp: in_set_conv_nth)
    have "int k \<noteq> ?i" if "int j \<noteq> s"
    proof
      assume "int k = ?i"
      then have "nat ?i = k" by simp
      then have "cs ! j = cs ! nat s" using s(3) k(2) by simp
      then have "map cv_id cs ! j = map cv_id cs ! nat s" using j s by simp
      moreover have "nat s < length (map cv_id cs)" using s(1,2) by simp
      ultimately have "j = nat s" using nth_eq_iff_index_eq [OF dist', of j "nat s"] j by simp
      then show False using that s by simp
    qed
    then show ?thesis using wf k by (auto simp: wf_chat_state_def)
  qed
  then show ?thesis using False s len wf by (simp add: wf_chat_state_def)
qed

lemma sortByActivity_ok:
  assumes wf: "wf_working_set st"
  shows "wf_working_set (fst (sortByActivity st))" "selectedChat (fst (sortByActivity st)) = selectedChat st"
    "mset (cs_chats (fst (sortByActivity st))) = mset (cs_chats st)"
    "sorted (map chat_rank (cs_chats (fst (sortByActivity st))))"
    "cs_nextLocalID (fst (sortByActivity st)) = cs_nextLocalID st"
    "snd (sortByActivity st) \<longleftrightarrow> map cv_id (cs_chats (fst (sortByActivity st))) \<noteq> map cv_id (cs_chats st)"
proof -
  let ?xs = "cs_chats st" and ?cs = "insertion_sorted (cs_chats st)" and ?st = "fst (sortByActivity st)"
  have dist: "distinct (map cv_id ?xs)" and wfs: "wf_chat_state st" using wf by (simp_all add: wf_working_set_def)
  have all: "wf_working_set ?st \<and> selectedChat ?st = selectedChat st \<and> mset (cs_chats ?st) = mset ?xs \<and> sorted (map chat_rank (cs_chats ?st))
    \<and> cs_nextLocalID ?st = cs_nextLocalID st"
  proof (cases "len ?xs < 2")
    case True
    then have "?st = st" by (simp add: sortByActivity_def)
    moreover have "sorted (map chat_rank ?xs)" using True by (cases ?xs; cases "tl ?xs") auto
    ultimately show ?thesis using wf by simp
  next
    case False
    have i: "0 \<le> cs_selected st" "cs_selected st < len ?xs" using wfs False unfolding wf_chat_state_def by (cases "?xs = []", simp_all)+
    define c where "c = ?xs ! nat (cs_selected st)"
    have c: "selectedChat st = Some c" using i by (simp add: selectedChat_def chatAt_Some c_def)
    have "c \<in> set ?cs" using i by (auto simp: c_def)
    then obtain j where j: "j < length ?cs" "?cs ! j = c" by (metis in_set_conv_nth)
    have "reselect (cv_id c) 0 (cs_selected st) ?cs = int j" using reselect_found [of ?cs j 0] j dist by simp
    then have st: "?st = st\<lparr>cs_chats := ?cs, cs_selected := int j\<rparr>" using False c by (simp add: sortByActivity_def Let_def)
    have sel: "chatAt (st\<lparr>cs_chats := ?cs, cs_selected := int j\<rparr>) (int j) = selectedChat st" using j c by (simp add: chatAt_Some)
    have "?cs \<noteq> []" using j(1) by force
    then have "wf_chat_state ?st" using permuted_wf [OF wfs dist insertion_sorted_mset sel] unfolding st by simp
    then have "wf_working_set ?st" using wf unfolding st by (simp add: wf_working_set_def)
    moreover have "selectedChat ?st = selectedChat st" using sel unfolding st by (simp add: selectedChat_def)
    ultimately show ?thesis unfolding st by (simp add: insertion_sorted_mset insertion_sorted_sorted)
  qed
  then show "wf_working_set ?st" "selectedChat ?st = selectedChat st" "mset (cs_chats ?st) = mset ?xs" "sorted (map chat_rank (cs_chats ?st))"
    "cs_nextLocalID ?st = cs_nextLocalID st" by blast+
  show "snd (sortByActivity st) \<longleftrightarrow> map cv_id (cs_chats ?st) \<noteq> map cv_id ?xs"
    by (auto simp: sortByActivity_def Let_def)
qed

section \<open>Admission, live messages and names\<close>

lemma admit_ok:
  assumes wf: "wf_working_set st" and new: "lm_ChatID e \<notin> cv_id ` set (cs_chats st)"
  shows "wf_working_set (fst (admitLiveChat e st))"
proof (cases "len (cs_chats st) < maxChats")
  case True
  let ?st = "fst (admitLiveChat e st)"
  obtain c where c: "cs_chats ?st = cs_chats st @ [c]" "cs_selected ?st = cs_selected st" "cv_id c = lm_ChatID e" "cv_messages c = []" "cv_buffer c = None"
    using True by (simp add: admitLiveChat_def)
  have chats: "len (cs_chats st) \<le> maxChats" "if cs_chats st = [] then cs_selected st = 0 else 0 \<le> cs_selected st \<and> cs_selected st < len (cs_chats st)"
    "\<forall>i < length (cs_chats st). wf_buffer (cs_chats st ! i) \<and> (int i \<noteq> cs_selected st \<longrightarrow> cv_buffer (cs_chats st ! i) \<noteq> Some SelectedChatHistoryCapacity)"
    using wf by (simp_all add: wf_working_set_def wf_chat_state_def)
  have "wf_buffer (cs_chats ?st ! i) \<and> (int i \<noteq> cs_selected st \<longrightarrow> cv_buffer (cs_chats ?st ! i) \<noteq> Some SelectedChatHistoryCapacity)"
    if "i < length (cs_chats ?st)" for i
    using that chats(3) c by (cases "i < length (cs_chats st)") (auto simp: nth_append wf_buffer_def less_Suc_eq)
  moreover have "0 \<le> cs_selected st" "cs_selected st < len (cs_chats ?st)" using chats(2) c(1) by (auto split: if_splits)
  ultimately have "wf_chat_state ?st" using True c by (simp add: wf_chat_state_def)
  moreover have "chat_ids_ok c" using c by (simp add: chat_ids_ok_def)
  ultimately show ?thesis using wf new c by (auto simp: wf_working_set_def)
qed (use wf in \<open>simp add: admitLiveChat_def\<close>)

lemma admit_chatAt:
  assumes "len (cs_chats st) < maxChats"
  shows "snd (admitLiveChat e st) = Some (len (cs_chats st))"
    "\<exists>c. chatAt (fst (admitLiveChat e st)) (len (cs_chats st)) = Some c \<and> cv_id c = lm_ChatID e \<and> cv_messages c = []"
  using assms by (simp_all add: admitLiveChat_def chatAt_def)

lemma chat_ids_cong [simp]:
  "chat_ids_ok (c\<lparr>cv_unreadCount := u\<rparr>) = chat_ids_ok c" "chat_ids_ok (c\<lparr>cv_activityTime := t\<rparr>) = chat_ids_ok c"
  "chat_ids_ok (c\<lparr>cv_revision := r\<rparr>) = chat_ids_ok c" "chat_ids_ok (c\<lparr>cv_buffer := b\<rparr>) = chat_ids_ok c"
  "wf_buffer (c\<lparr>cv_activityTime := t\<rparr>) = wf_buffer c"
  by (simp_all add: chat_ids_ok_def) (cases "cv_buffer c", simp_all add: wf_buffer_def)

lemma message_index_absent:
  assumes "wf_working_set st" "chatAt st i = Some c" "mid \<noteq> []"
  shows "messageIndexByID st i mid = None \<longleftrightarrow> mid \<notin> mv_id ` set (cv_messages c)"
  using assms(3) chat_of_live(2) [OF assms(1,2)] by (auto simp: messageIndexByID_def assms(2) index_of_None wf_buffer_def)

lemma chatAt_with_chat: "chatAt st i = Some c \<Longrightarrow> chatAt (with_chat f i st) i = Some (f c)"
  by (auto simp: chatAt_Some with_chat_nth)

lemma with_chat_twice: "with_chat f i (with_chat g i st) = with_chat (\<lambda>c. f (g c)) i st"
proof (cases "nat i < length (cs_chats st)")
  case False
  then have "xs[nat i := x] = xs" if "length xs = length (cs_chats st)" for xs :: "chat_view list" and x
    using that by (simp add: list_update_beyond)
  then show ?thesis by (simp add: with_chat_def)
qed (simp add: with_chat_def)

text \<open>What a live message does to its chat.\<close>

definition touched :: "live_message \<Rightarrow> chat_view \<Rightarrow> chat_view" where
  "touched e c = c\<lparr>cv_unreadCount := lm_UnreadCount e, cv_activityTime := max (lm_ActivityTime e) (cv_activityTime c)\<rparr>"

lemma touched_simps [simp]:
  "cv_messages (touched e c) = cv_messages c" "cv_buffer (touched e c) = cv_buffer c" "cv_id (touched e c) = cv_id c"
  "wf_buffer (touched e c) = wf_buffer c" "chat_ids_ok (touched e c) = chat_ids_ok c"
  by (simp_all add: touched_def chat_ids_ok_def)

lemma applyLiveMessage_eq:
  assumes wf: "wf_working_set st" and c: "chatAt st i = Some c" and mid: "lm_MessageID e \<noteq> []"
  defines "t \<equiv> touched e c" and "changed \<equiv> cv_unreadCount c \<noteq> lm_UnreadCount e \<or> cv_activityTime c < lm_ActivityTime e"
  shows "applyLiveMessage clock i e st =
    (if lm_MessageID e \<in> mv_id ` set (cv_messages c)
     then (with_chat (\<lambda>_. t) i st, no_mutation\<lparr>mut_changed := changed\<rparr>)
     else (with_chat (\<lambda>_. fst (insertBoundedMessage (live_view clock e) t)) i st,
       \<lparr>mut_changed = changed \<or> fst (snd (insertBoundedMessage (live_view clock e) t)),
        mut_inserted = fst (snd (insertBoundedMessage (live_view clock e) t)),
        mut_insertionIndex = snd (snd (insertBoundedMessage (live_view clock e) t))\<rparr>))"
proof -
  let ?c1 = "if cv_unreadCount c \<noteq> lm_UnreadCount e then c\<lparr>cv_unreadCount := lm_UnreadCount e\<rparr> else c"
  have t: "(if lm_ActivityTime e > cv_activityTime ?c1 then ?c1\<lparr>cv_activityTime := lm_ActivityTime e\<rparr> else ?c1) = t"
    by (auto simp: t_def touched_def max_def)
  have act: "cv_activityTime (if b then c\<lparr>cv_unreadCount := u\<rparr> else c) = cv_activityTime c" for b u by simp
  let ?st = "with_chat (\<lambda>_. t) i st"
  have "wf_working_set ?st"
    using chat_of_live [OF wf c] wf by (intro with_chat_live) (auto simp: t_def)
  then have idx: "messageIndexByID ?st i (lm_MessageID e) = None \<longleftrightarrow> lm_MessageID e \<notin> mv_id ` set (cv_messages t)"
    by (rule message_index_absent) (use chatAt_with_chat [OF c] mid in auto)
  show ?thesis
  proof (cases "messageIndexByID ?st i (lm_MessageID e)")
    case None
    then show ?thesis using idx unfolding applyLiveMessage_def c option.case Let_def unfolding t unfolding act
      by (simp add: with_chat_twice changed_def t_def split_beta)
  next
    case (Some j)
    then have "lm_MessageID e \<in> mv_id ` set (cv_messages t)" using idx by simp
    then show ?thesis using Some unfolding applyLiveMessage_def c option.case Let_def unfolding t unfolding act
      by (simp add: changed_def t_def)
  qed
qed

lemma applyLiveMessage_wf:
  assumes wf: "wf_working_set st" and mid: "lm_MessageID e \<noteq> []"
  shows "wf_working_set (fst (applyLiveMessage clock i e st))"
proof (cases "chatAt st i")
  case (Some c)
  note c = chat_of_live [OF wf Some]
  have id: "mv_id (live_view clock e) = lm_MessageID e" by (simp add: live_view_def)
  show ?thesis
  proof (cases "lm_MessageID e \<in> mv_id ` set (cv_messages c)")
    case True
    have "wf_working_set (with_chat (\<lambda>_. touched e c) i st)"
      using c wf by (intro with_chat_live) auto
    then show ?thesis using True by (simp add: applyLiveMessage_eq [OF wf Some mid])
  next
    case False
    note ins = insert_bounded_ok [of "touched e c" "live_view clock e"] insert_bounded_messages(3) [of "touched e c" "live_view clock e"]
    have "wf_working_set (with_chat (\<lambda>_. fst (insertBoundedMessage (live_view clock e) (touched e c))) i st)"
      using c wf ins mid False unfolding id by (intro with_chat_live) simp_all
    then show ?thesis using False by (simp add: applyLiveMessage_eq [OF wf Some mid])
  qed
qed (use wf in \<open>simp add: applyLiveMessage_def\<close>)

lemma enrich_ok:
  "map mv_id (cv_messages (fst (enrichChatDisplay ds c))) = map mv_id (cv_messages c)" "cv_id (fst (enrichChatDisplay ds c)) = cv_id c"
  "cv_buffer (fst (enrichChatDisplay ds c)) = cv_buffer c"
  "map message_position (cv_messages (fst (enrichChatDisplay ds c))) = map message_position (cv_messages c)"
  by (auto simp: enrichChatDisplay_def Let_def enrich_message_def message_position_def)

lemma enrich_wf [simp]: "wf_buffer (fst (enrichChatDisplay ds c)) = wf_buffer c" "chat_ids_ok (fst (enrichChatDisplay ds c)) = chat_ids_ok c"
proof -
  have "length (cv_messages (fst (enrichChatDisplay ds c))) = length (cv_messages c)" using arg_cong [OF enrich_ok(1), of length] by simp
  then show "wf_buffer (fst (enrichChatDisplay ds c)) = wf_buffer c"
    using enrich_ok(3) [of ds c] by (cases "cv_buffer c") (auto simp: wf_buffer_def)
  show "chat_ids_ok (fst (enrichChatDisplay ds c)) = chat_ids_ok c"
    using enrich_ok(1) [of ds c] unfolding chat_ids_ok_def by (metis list.set_map)
qed

section \<open>The startup snapshot is checked\<close>

lemma messageViewFromInitial_id:
  "messageViewFromInitial clusters clock s = Inr m \<Longrightarrow> mv_id m = im_ID s \<and> im_ID s \<noteq> []"
  by (auto simp: messageViewFromInitial_def split: if_splits)

lemma initial_messages_ok:
  "initial_messages clusters clock seen ss = Inr ms \<Longrightarrow>
    list_all2 (\<lambda>s m. messageViewFromInitial clusters clock s = Inr m) ss ms \<and> distinct (map im_ID ss) \<and> set (map im_ID ss) \<inter> set seen = {}"
proof (induction ss arbitrary: seen ms)
  case (Cons s ss)
  then obtain m ms' where m: "messageViewFromInitial clusters clock s = Inr m" "im_ID s \<notin> set seen"
    "initial_messages clusters clock (im_ID s # seen) ss = Inr ms'" "ms = m # ms'"
    by (auto split: sum.splits if_splits)
  from Cons.IH [OF m(3)] show ?case using m by auto
qed simp

lemma initial_messages_ids:
  assumes "initial_messages clusters clock [] ss = Inr ms"
  shows "map mv_id ms = map im_ID ss" "distinct (map mv_id ms)" "[] \<notin> mv_id ` set ms" "length ms = length ss"
proof -
  note ok = initial_messages_ok [OF assms]
  then have pairs: "list_all2 (\<lambda>s m. messageViewFromInitial clusters clock s = Inr m) ss ms" by blast
  then show len: "length ms = length ss" by (simp add: list_all2_lengthD)
  have each: "mv_id (ms ! i) = im_ID (ss ! i) \<and> im_ID (ss ! i) \<noteq> []" if "i < length ss" for i
    using messageViewFromInitial_id list_all2_nthD [OF pairs that] by blast
  show ids: "map mv_id ms = map im_ID ss" by (rule nth_equalityI) (use each len in auto)
  then show "distinct (map mv_id ms)" using ok by simp
  show "[] \<notin> mv_id ` set ms" using each len by (metis in_set_conv_nth imageE)
qed

text \<open>One chat of the snapshot and the chat made from it.\<close>

definition made_from :: "(string \<Rightarrow> int) \<Rightarrow> (instant \<Rightarrow> string) \<Rightarrow> initial_chat \<Rightarrow> chat_view \<Rightarrow> bool" where
  "made_from clusters clock s c \<longleftrightarrow> cv_id c = ic_ID s \<and> cv_title c = ic_Title s \<and> cv_unreadCount c = ic_UnreadCount s
     \<and> cv_activityTime c = ic_ActivityTime s \<and> cv_readOnly c = ic_ReadOnly s \<and> cv_isGroup c = ic_IsGroup s
     \<and> list_all2 (\<lambda>s m. messageViewFromInitial clusters clock s = Inr m) (ic_Messages s) (cv_messages c)"

lemma initial_chats_ok:
  "initial_chats clusters clock seen ss = Inr cs \<Longrightarrow>
    list_all2 (made_from clusters clock) ss cs \<and> distinct (map ic_ID ss) \<and> set (map ic_ID ss) \<inter> set seen = {}
    \<and> (\<forall>c \<in> set cs. chat_ids_ok c \<and> wf_buffer c \<and> cv_buffer c \<noteq> Some SelectedChatHistoryCapacity)"
proof (induction ss arbitrary: seen cs)
  case (Cons s ss)
  obtain ms cs' where new: "ic_ID s \<notin> set seen" "length (ic_Messages s) \<le> maxMessages"
    "initial_messages clusters clock [] (ic_Messages s) = Inr ms" "initial_chats clusters clock (ic_ID s # seen) ss = Inr cs'"
    and cs: "cs = \<lparr>cv_id = ic_ID s, cv_title = ic_Title s, cv_titleQuality = 0, cv_isGroup = ic_IsGroup s, cv_messages = ms,
          cv_buffer = (if ic_Messages s = [] then None else Some maxMessages), cv_unreadCount = ic_UnreadCount s,
          cv_activityTime = ic_ActivityTime s, cv_revision = 0, cv_readOnly = ic_ReadOnly s\<rparr> # cs'"
    using Cons.prems by (auto split: if_splits)
  note ids = initial_messages_ids [OF new(3)] and ok = initial_messages_ok [OF new(3)]
  from Cons.IH [OF new(4)] show ?case using new(1,2) ids ok
    by (auto simp: cs made_from_def chat_ids_ok_def wf_buffer_def buffer_sizes)
qed simp

lemma expand_live:
  assumes "wf_working_set st"
  shows "wf_working_set (expandMessageBuffer st (cs_selected st))"
proof -
  let ?st = "expandMessageBuffer st (cs_selected st)"
  note ok = expand_ok [OF wf_working_set_state [OF assms]]
  have "chat_ids_ok (cs_chats ?st ! i)" if "i < length (cs_chats ?st)" for i
  proof -
    have len: "length (cs_chats ?st) = length (cs_chats st)" using arg_cong [OF ok(3) [of "cs_selected st"], of length] by simp
    then have "cv_messages (cs_chats ?st ! i) = cv_messages (cs_chats st ! i)"
      using arg_cong [OF ok(4) [of "cs_selected st"], of "\<lambda>xs. xs ! i"] that by simp
    moreover have "chat_ids_ok (cs_chats st ! i)" using assms that len by (simp add: wf_working_set_def)
    ultimately show ?thesis by (simp add: chat_ids_ok_def)
  qed
  then show ?thesis using assms ok by (auto simp: wf_working_set_def in_set_conv_nth)
qed

lemma initial_state_live:
  assumes "chatStateFromInitial clusters clock initial = Inr st"
  shows "wf_working_set st" "cs_selected st = 0" "list_all2 (made_from clusters clock) initial (cs_chats st)" "distinct (map ic_ID initial)"
proof -
  obtain cs where cs: "len initial \<le> maxChats" "initial_chats clusters clock [] initial = Inr cs"
    and st: "st = (if cs \<noteq> [] then expandMessageBuffer \<lparr>cs_chats = cs, cs_selected = 0, cs_nextLocalID = 0\<rparr> 0
      else \<lparr>cs_chats = cs, cs_selected = 0, cs_nextLocalID = 0\<rparr>)"
  proof (cases "len initial > maxChats")
    case False
    with assms obtain cs where cs: "initial_chats clusters clock [] initial = Inr cs" by (auto simp: chatStateFromInitial_def)
    show ?thesis by (rule that [of cs]) (use assms False cs in \<open>auto simp: chatStateFromInitial_def Let_def\<close>)
  qed (use assms in \<open>simp add: chatStateFromInitial_def\<close>)
  note ok = initial_chats_ok [OF cs(2)]
  let ?st = "\<lparr>cs_chats = cs, cs_selected = 0, cs_nextLocalID = 0\<rparr> :: chat_state"
  have pairs: "list_all2 (made_from clusters clock) initial cs" and dist: "distinct (map ic_ID initial)" using ok by blast+
  have len: "length cs = length initial" using list_all2_lengthD [OF pairs] by simp
  have "map cv_id cs = map ic_ID initial"
    by (rule nth_equalityI) (use list_all2_nthD [OF pairs] len in \<open>auto simp: made_from_def\<close>)
  then have wf: "wf_working_set ?st" using ok cs(1) dist len by (auto simp: wf_working_set_def wf_chat_state_def)
  show "distinct (map ic_ID initial)" by (rule dist)
  note expand = expand_live [OF wf]
  show "wf_working_set st" using wf expand unfolding st by (cases "cs = []") simp_all
  show "cs_selected st = 0" using expand_ok(2) [OF wf_working_set_state [OF wf], of 0] unfolding st by simp
  have "made_from clusters clock s c \<Longrightarrow> made_from clusters clock s (c\<lparr>cv_buffer := b\<rparr>)" for s c b by (simp add: made_from_def)
  then have "list_all2 (made_from clusters clock) initial (cs_chats (expandMessageBuffer ?st 0))"
    using pairs by (auto simp: expandMessageBuffer_def with_chat_def chatAt_def list_all2_conv_all_nth nth_list_update split: option.split)
  then show "list_all2 (made_from clusters clock) initial (cs_chats st)" using pairs unfolding st by (cases "cs = []") auto
qed


definition sample_initial_message :: initial_message where
  "sample_initial_message = \<lparr>im_ID = ''m'', im_SentAt = 5, im_FromMe = False, im_Text = ''hi'', im_BodyRetained = True, im_MediaKind = [],
     im_MediaName = [], im_MediaMIME = [], im_ReplyToID = [], im_ReplyToText = [], im_ReplyToFromMe = False, im_ReplyMediaKind = [],
     im_ReplyMediaName = [], im_ReplyMediaMIME = [], im_SenderID = ''s'', im_IsGroup = False, im_Reactions = []\<rparr>"

definition sample_initial_chat :: initial_chat where
  "sample_initial_chat = \<lparr>ic_ID = ''c'', ic_Title = ''T'', ic_IsGroup = False, ic_UnreadCount = 1, ic_ActivityTime = 5,
     ic_Messages = [sample_initial_message], ic_ReadOnly = False\<rparr>"

definition sample_working_set :: chat_state where
  "sample_working_set = \<lparr>cs_chats = [\<lparr>cv_id = ''c'', cv_title = ''T'', cv_titleQuality = 0, cv_isGroup = False,
     cv_messages = [zero_view\<lparr>mv_id := ''m'', mv_sentAt := 5, mv_time := ''12:00'', mv_text := ''hi'', mv_bodyRetained := True, mv_senderID := ''s''\<rparr>],
     cv_buffer = Some SelectedChatHistoryCapacity, cv_unreadCount = 1, cv_activityTime = 5, cv_revision = 0, cv_readOnly = False\<rparr>],
     cs_selected = 0, cs_nextLocalID = 0\<rparr>"

lemma sample_initial: "chatStateFromInitial (\<lambda>_. 1) (\<lambda>_. ''12:00'') [sample_initial_chat] = Inr sample_working_set"
proof -
  have "valid_utf8 ''m''" "valid_utf8 ''s''" "valid_utf8 ''hi''" "valid_utf8 ''c''" "valid_utf8 ''T''"
    by (rule ascii_valid; simp add: ascii_eval)+
  then show ?thesis
  by (simp add: chatStateFromInitial_def sample_initial_chat_def sample_initial_message_def sample_working_set_def zero_view_def maxChats_def
      messageViewFromInitial_def ascii_eval validMediaMIME_def maxMediaMIMEBytes_def validMediaPresentation_def
      validReplyMetadata_def validReactionGroups_def maxReactionGroups_def localMessageTime_def buffer_sizes expandMessageBuffer_def
      chatAt_def with_chat_def reaction_view_of_def)
qed


section \<open>Live messages and sorting\<close>

text \<open>C21: Applying a live message to a chat of a well-formed working set whose messages are in order sets the counter of
  unread messages, never moves the activity time back, and leaves the newest messages that fit the buffer, in order, where
  the old messages and the new one compete; a message already shown changes nothing of the messages.\<close>

theorem live_insert_keeps_newest:
  assumes "wf_working_set st" "chatAt st i = Some c" "lm_MessageID e \<noteq> []" "sorted (map message_position (cv_messages c))"
  shows "\<exists>c'. chatAt (fst (applyLiveMessage clock i e st)) i = Some c'
    \<and> cv_unreadCount c' = lm_UnreadCount e \<and> cv_activityTime c' = max (lm_ActivityTime e) (cv_activityTime c)
    \<and> cv_messages c' = (if lm_MessageID e \<in> mv_id ` set (cv_messages c) then cv_messages c
        else keep_last (case cv_buffer c of Some n \<Rightarrow> n | None \<Rightarrow> maxMessages)
          (sort_key message_position (cv_messages c @ [live_view clock e])))
    \<and> sorted (map message_position (cv_messages c')) \<and> wf_working_set (fst (applyLiveMessage clock i e st))"
proof -
  let ?new = "fst (insertBoundedMessage (live_view clock e) (touched e c))"
  note c = chat_of_live [OF assms(1,2)]
  have new: "cv_messages ?new = keep_last (case cv_buffer c of Some n \<Rightarrow> n | None \<Rightarrow> maxMessages)
      (sort_key message_position (cv_messages c @ [live_view clock e]))"
    using insert_bounded_messages(1) [of "touched e c" "live_view clock e"] c(2) sort_snoc [OF assms(4), of "live_view clock e"] by simp
  have same: "cv_unreadCount ?new = cv_unreadCount (touched e c)" "cv_activityTime ?new = cv_activityTime (touched e c)"
    using insert_bounded_eq(1) [of "touched e c" "live_view clock e"] c(2) by (simp_all add: ensureMessages_def)
  have kept: "sorted (map message_position (keep_last n (sort_key message_position xs)))" for n xs
    by (simp add: keep_last_def sorted_wrt_drop flip: drop_map)
  have wf: "wf_working_set (fst (applyLiveMessage clock i e st))" by (rule applyLiveMessage_wf [OF assms(1,3)])
  show ?thesis
  proof (cases "lm_MessageID e \<in> mv_id ` set (cv_messages c)")
    case True
    then show ?thesis using wf chatAt_with_chat [OF assms(2), of "\<lambda>_. touched e c"] assms(4)
      by (simp add: applyLiveMessage_eq [OF assms(1-3)] touched_def)
  next
    case False
    then show ?thesis using wf chatAt_with_chat [OF assms(2), of "\<lambda>_. ?new"] new same kept
      by (simp add: applyLiveMessage_eq [OF assms(1-3)] touched_def)
  qed
qed

definition sample_live :: live_message where
  "sample_live = \<lparr>lm_ChatID = ''c'', lm_MessageID = ''n'', lm_SentAt = 3, lm_FromMe = False, lm_Text = ''yo'', lm_BodyRetained = True,
     lm_MediaKind = [], lm_MediaName = [], lm_MediaMIME = [], lm_ReplyToID = [], lm_ReplyToText = [], lm_ReplyToFromMe = False,
     lm_ReplyMediaKind = [], lm_ReplyMediaName = [], lm_ReplyMediaMIME = [], lm_UnreadCount = 2, lm_ActivityTime = 4, lm_SenderID = ''s'',
     lm_IsGroup = False, lm_ReadOnly = False, lm_NotificationEligible = True\<rparr>"

lemma sample_working_set_live: "wf_working_set sample_working_set"
  using initial_state_live(1) [OF sample_initial] .

text \<open>An older message that arrives late goes before the newer one, and the activity time stays.\<close>

theorem live_insert_keeps_newest_witness:
  "\<exists>c'. chatAt (fst (applyLiveMessage (\<lambda>_. ''11:59'') 0 sample_live sample_working_set)) 0 = Some c'
    \<and> map mv_id (cv_messages c') = [''n'', ''m''] \<and> cv_activityTime c' = 5 \<and> cv_unreadCount c' = 2"
proof -
  obtain c where c: "chatAt sample_working_set 0 = Some c" "map mv_id (cv_messages c) = [''m'']" "sorted (map message_position (cv_messages c))"
    "cv_messages c = [hd (cv_messages c)]" "mv_sentAt (hd (cv_messages c)) = 5" "cv_buffer c = Some 256" "cv_activityTime c = 5"
    by (simp add: chatAt_def sample_working_set_def buffer_sizes zero_view_def)
  obtain m where m: "cv_messages c = [m]" "mv_sentAt m = 5" "mv_id m = ''m''" using c by (cases "cv_messages c") auto
  have "message_position (live_view (\<lambda>_. ''11:59'') sample_live) < message_position m"
    using m by (simp add: message_position_def live_view_def sample_live_def)
  then show ?thesis
    using live_insert_keeps_newest [OF sample_working_set_live c(1) _ c(3), of sample_live "\<lambda>_. ''11:59''"] c(6,7) m
    by (auto simp: sample_live_def keep_last_def live_view_def)
qed

text \<open>C22: Sorting by activity rearranges the chats of a well-formed working set so that they stand newest activity first,
  equal times by identifier, keeps the same chat selected, and reports whether the order changed.\<close>

theorem sort_by_activity_exact:
  assumes "wf_working_set st"
  shows "mset (cs_chats (fst (sortByActivity st))) = mset (cs_chats st)
    \<and> sorted_wrt chatBefore (cs_chats (fst (sortByActivity st)))
    \<and> selectedChat (fst (sortByActivity st)) = selectedChat st
    \<and> wf_working_set (fst (sortByActivity st))
    \<and> (snd (sortByActivity st) \<longleftrightarrow> map cv_id (cs_chats (fst (sortByActivity st))) \<noteq> map cv_id (cs_chats st))"
proof -
  let ?cs = "cs_chats (fst (sortByActivity st))"
  have "wf_working_set (fst (sortByActivity st))" by (rule sortByActivity_ok(1) [OF assms])
  then have "distinct (map cv_id ?cs)" by (simp add: wf_working_set_def)
  then have "distinct (map chat_rank ?cs)" by (auto simp: distinct_map chat_rank_def inj_on_def)
  then have "sorted_wrt (<) (map chat_rank ?cs)" using sortByActivity_ok(4) [OF assms] by (simp add: strict_sorted_iff)
  moreover have "chatBefore = (\<lambda>x y. chat_rank x < chat_rank y)" by (simp add: fun_eq_iff active_chats.lt_key)
  ultimately have "sorted_wrt chatBefore ?cs" by (simp add: sorted_wrt_map)
  then show ?thesis using sortByActivity_ok [OF assms] by blast
qed

theorem sort_by_activity_exact_witness:
  "selectedChat (fst (sortByActivity (fst (admitLiveChat (sample_live\<lparr>lm_ChatID := ''d'', lm_ActivityTime := 9\<rparr>) sample_working_set)))) = selectedChat sample_working_set
   \<and> map cv_id (cs_chats (fst (sortByActivity (fst (admitLiveChat (sample_live\<lparr>lm_ChatID := ''d'', lm_ActivityTime := 9\<rparr>) sample_working_set))))) = [''d'', ''c'']"
proof -
  let ?e = "sample_live\<lparr>lm_ChatID := ''d'', lm_ActivityTime := 9\<rparr>"
  let ?st = "fst (admitLiveChat ?e sample_working_set)"
  have "wf_working_set ?st" by (rule admit_ok [OF sample_working_set_live]) (simp add: sample_working_set_def)
  note sorted = sort_by_activity_exact [OF this]
  have "selectedChat ?st = selectedChat sample_working_set"
    by (simp add: admitLiveChat_def sample_working_set_def maxChats_def selectedChat_def chatAt_def)
  moreover have "map cv_id (cs_chats (fst (sortByActivity ?st))) = [''d'', ''c'']"
    by (simp add: admitLiveChat_def sample_working_set_def maxChats_def sortByActivity_def Let_def insertion_sorted_def chatBefore_def)
  ultimately show ?thesis using sorted by simp
qed

end
