(* ===== verification/Budget.thy ===== *)
theory Budget
  imports Prelude
begin

text \<open>
  The byte budget of \<open>internal/service/budget.go\<close>. Permits are heap objects that several holders may point
  to and that are released once, so the budget carries the heap of the permits it issued: a
  \<open>*permit\<close> is a reference made of the identity of its budget and an index, and the cell holds the weight and
  the \<open>released\<close> flag. A wake channel of capacity one is the flag that says whether a signal is
  pending; \<open>signal\<close> sets it. Every operation runs under the budget's mutex, so it is one step. The blocking
  \<open>acquire\<close>, which repeats \<open>tryAcquire\<close>, is in theory \<open>Waiting\<close>.
\<close>

datatype service_error =
    InvalidWeight | QueueFull | QueueStopped | UnknownMailboxKey | PermitReleased | QueueInvariant

datatype permit_ref = PermitRef (ref_budget: nat) (ref_index: nat)

record permit =
  permit_weight :: int
  permit_released :: bool

record budget =
  bud_id :: nat
  bud_capacity :: int
  bud_used :: int
  bud_permits :: "permit list"
  bud_wake :: bool
  bud_stateWake :: bool
  bud_waiter :: bool

definition newByteBudget :: "nat \<Rightarrow> int \<Rightarrow> service_error + budget" where
  "newByteBudget bid capacity =
     (if capacity \<le> 0 then Inl InvalidWeight
      else Inr \<lparr>bud_id = bid, bud_capacity = capacity, bud_used = 0, bud_permits = [], bud_wake = False,
        bud_stateWake = False, bud_waiter = False\<rparr>)"

definition issue :: "int \<Rightarrow> budget \<Rightarrow> budget \<times> (service_error + permit_ref)" where
  "issue w b = (b\<lparr>bud_permits := bud_permits b @ [\<lparr>permit_weight = w, permit_released = False\<rparr>]\<rparr>,
     Inr (PermitRef (bud_id b) (length (bud_permits b))))"

definition tryAcquire :: "budget \<Rightarrow> int \<Rightarrow> budget \<times> (service_error + permit_ref)" where
  "tryAcquire b w =
     (if w \<le> 0 then (b, Inl InvalidWeight)
      else if w > bud_capacity b then (b, Inl InvalidWeight)
      else if bud_used b > bud_capacity b - w then (b, Inl QueueFull)
      else issue w (b\<lparr>bud_used := bud_used b + w\<rparr>))"

text \<open>Reading and marking a permit through its reference.\<close>

definition owns_ref :: "budget \<Rightarrow> permit_ref \<Rightarrow> bool" where
  "owns_ref b r \<longleftrightarrow> ref_budget r = bud_id b \<and> ref_index r < length (bud_permits b)"

definition permit_at :: "budget \<Rightarrow> permit_ref \<Rightarrow> permit" where
  "permit_at b r = bud_permits b ! ref_index r"

definition mark_released :: "permit_ref \<Rightarrow> budget \<Rightarrow> budget" where
  "mark_released r b =
     b\<lparr>bud_permits := (bud_permits b)[ref_index r := (permit_at b r)\<lparr>permit_released := True\<rparr>]\<rparr>"

definition budget_replace :: "budget \<Rightarrow> permit_ref option \<Rightarrow> int \<Rightarrow> budget \<times> (service_error + permit_ref)" where
  "budget_replace b existing newWeight =
     (case existing of
        None \<Rightarrow> (b, Inl InvalidWeight)
      | Some r \<Rightarrow>
          if \<not> owns_ref b r \<or> newWeight \<le> 0 then (b, Inl InvalidWeight)
          else if newWeight > bud_capacity b then (b, Inl InvalidWeight)
          else if permit_released (permit_at b r) then (b, Inl PermitReleased)
          else
            let extra = newWeight - permit_weight (permit_at b r) in
            if extra > 0 \<and> bud_used b > bud_capacity b - extra then (b, Inl QueueFull)
            else
              let (b', r') = issue newWeight ((mark_released r b)\<lparr>bud_used := bud_used b + extra\<rparr>)
              in (b'\<lparr>bud_wake := bud_wake b' \<or> extra < 0\<rparr>, r'))"

definition permit_Release :: "budget \<Rightarrow> permit_ref option \<Rightarrow> budget \<times> service_error option" where
  "permit_Release b owned =
     (case owned of
        None \<Rightarrow> (b, Some PermitReleased)
      | Some r \<Rightarrow>
          if \<not> owns_ref b r then (b, Some PermitReleased)
          else if permit_released (permit_at b r) then (b, Some PermitReleased)
          else
            let b1 = mark_released r b; w = permit_weight (permit_at b r) in
            if w \<le> 0 \<or> bud_used b1 < w then (b1, Some PermitReleased)
            else (b1\<lparr>bud_used := bud_used b1 - w, bud_wake := True\<rparr>, None))"

section \<open>What a budget promises\<close>

text \<open>
  \<open>live b\<close> maps the permits not yet released to their weights. A budget is consistent when the bytes it counts
  as used are exactly those of its live permits.
\<close>

definition live :: "budget \<Rightarrow> permit_ref \<Rightarrow> int option" where
  "live b r = (if owns_ref b r \<and> \<not> permit_released (permit_at b r) then Some (permit_weight (permit_at b r)) else None)"

definition live_weight :: "permit \<Rightarrow> int" where
  "live_weight p = (if permit_released p then 0 else permit_weight p)"

definition wf_budget :: "budget \<Rightarrow> bool" where
  "wf_budget b \<longleftrightarrow> 0 < bud_capacity b \<and> bud_used b \<le> bud_capacity b
     \<and> bud_used b = sum_list (map live_weight (bud_permits b))
     \<and> (\<forall>p \<in> set (bud_permits b). 0 < permit_weight p \<and> permit_weight p \<le> bud_capacity b)"

text \<open>The contract a client of any budget relies on.\<close>

locale permit_budget =
  fixes weight :: "'b \<Rightarrow> 'r \<Rightarrow> int option"
    and capacity :: "'b \<Rightarrow> int" and used :: "'b \<Rightarrow> int" and ok :: "'b \<Rightarrow> bool"
    and acquire :: "'b \<Rightarrow> int \<Rightarrow> 'b \<times> ('e + 'r)"
    and exchange :: "'b \<Rightarrow> 'r option \<Rightarrow> int \<Rightarrow> 'b \<times> ('e + 'r)"
    and release :: "'b \<Rightarrow> 'r option \<Rightarrow> 'b \<times> 'e option"
  assumes used_sum: "ok b \<Longrightarrow> finite (dom (weight b)) \<and> used b = (\<Sum>r \<in> dom (weight b). the (weight b r))"
    and bounds: "ok b \<Longrightarrow> used b \<le> capacity b" "ok b \<Longrightarrow> weight b r = Some w \<Longrightarrow> 0 < w"
    and acquire_ok: "ok b \<Longrightarrow> acquire b w = (b', Inr r) \<Longrightarrow>
      ok b' \<and> weight b r = None \<and> weight b' = (weight b)(r \<mapsto> w) \<and> capacity b' = capacity b"
    and acquire_fails: "acquire b w = (b', Inl e) \<Longrightarrow> b' = b"
    and exchange_ok: "ok b \<Longrightarrow> exchange b old w = (b', Inr r) \<Longrightarrow>
      ok b' \<and> old \<noteq> None \<and> weight b (the old) \<noteq> None \<and> weight b r = None \<and> r \<noteq> the old
      \<and> weight b' = (weight b)(the old := None, r \<mapsto> w) \<and> capacity b' = capacity b"
    and exchange_fails: "exchange b old w = (b', Inl e) \<Longrightarrow> b' = b"
    and release_ok: "ok b \<Longrightarrow> release b old = (b', None) \<Longrightarrow>
      ok b' \<and> old \<noteq> None \<and> weight b (the old) \<noteq> None \<and> weight b' = (weight b)(the old := None) \<and> capacity b' = capacity b"
    and release_live: "ok b \<Longrightarrow> weight b r \<noteq> None \<Longrightarrow> snd (release b (Some r)) = None"
    and release_dead: "ok b \<Longrightarrow> weight b r = None \<Longrightarrow> fst (release b (Some r)) = b \<and> snd (release b (Some r)) \<noteq> None"
begin

text \<open>Whoever holds permits, together they never exceed the capacity.\<close>

lemma holders_fit:
  assumes "ok b" "finite H" "H \<subseteq> dom (weight b)"
  shows "(\<Sum>r \<in> H. the (weight b r)) \<le> capacity b"
proof -
  have "(\<Sum>r \<in> H. the (weight b r)) \<le> (\<Sum>r \<in> dom (weight b). the (weight b r))"
    by (rule sum_mono2) (use assms used_sum bounds(2) in \<open>fastforce simp: less_imp_le\<close>)+
  then show ?thesis using used_sum bounds(1) assms(1) by fastforce
qed

lemma idle_is_empty: "ok b \<Longrightarrow> dom (weight b) = {} \<Longrightarrow> used b = 0"
  by (simp add: used_sum)

lemma release_once:
  assumes "ok b" "release b (Some r) = (b', None)"
  shows "snd (release b' (Some r)) \<noteq> None" "fst (release b' (Some r)) = b'" "used b' = used b - the (weight b r)"
proof -
  have r: "ok b'" "weight b' = (weight b)(r := None)" "weight b r \<noteq> None" using release_ok [OF assms] by auto
  then show "snd (release b' (Some r)) \<noteq> None" "fst (release b' (Some r)) = b'"
    using release_dead [of b' r] by simp_all
  have "dom (weight b) = insert r (dom (weight b'))" "r \<notin> dom (weight b')" using r by auto
  then have "used b = the (weight b r) + (\<Sum>s \<in> dom (weight b'). the (weight b s))"
    using used_sum [OF assms(1)] used_sum [OF r(1)] by simp
  also have "(\<Sum>s \<in> dom (weight b'). the (weight b s)) = (\<Sum>s \<in> dom (weight b'). the (weight b' s))"
    by (rule sum.cong) (auto simp: r(2) split: if_splits)
  finally show "used b' = used b - the (weight b r)" using used_sum [OF r(1)] by simp
qed

lemma round_trip:
  assumes "ok b" "acquire b w = (b', Inr r)"
  shows "release b' (Some r) = (b'', err) \<Longrightarrow> err = None \<and> weight b'' = weight b"
proof -
  assume rel: "release b' (Some r) = (b'', err)"
  have a: "ok b'" "weight b r = None" "weight b' = (weight b)(r \<mapsto> w)" using acquire_ok [OF assms] by auto
  then have "err = None" using release_live [of b' r] rel by auto
  then show ?thesis using release_ok [of b' "Some r" b''] rel a by auto
qed

end

section \<open>The model fulfils the contract\<close>

lemma live_dom: "dom (live b) = (\<lambda>i. PermitRef (bud_id b) i) ` {i. i < length (bud_permits b) \<and> \<not> permit_released (bud_permits b ! i)}"
proof (rule set_eqI)
  fix r
  show "r \<in> dom (live b) \<longleftrightarrow> r \<in> (\<lambda>i. PermitRef (bud_id b) i) ` {i. i < length (bud_permits b) \<and> \<not> permit_released (bud_permits b ! i)}"
    by (cases r) (auto simp: live_def owns_ref_def permit_at_def split: if_splits)
qed

lemma live_sum: "(\<Sum>r \<in> dom (live b). the (live b r)) = sum_list (map live_weight (bud_permits b))"
proof -
  let ?I = "{i. i < length (bud_permits b) \<and> \<not> permit_released (bud_permits b ! i)}"
  have "(\<Sum>r \<in> dom (live b). the (live b r)) = (\<Sum>i \<in> ?I. permit_weight (bud_permits b ! i))"
    unfolding live_dom by (subst sum.reindex) (auto simp: inj_on_def live_def owns_ref_def permit_at_def)
  also have "\<dots> = (\<Sum>i \<in> {..<length (bud_permits b)}. live_weight (bud_permits b ! i))"
    by (rule sum.mono_neutral_cong_left) (auto simp: live_weight_def)
  also have "\<dots> = sum_list (map live_weight (bud_permits b))"
    by (simp add: sum_list_sum_nth atLeast0LessThan)
  finally show ?thesis .
qed

lemma live_weights_nonneg: "wf_budget b \<Longrightarrow> p \<in> set (bud_permits b) \<Longrightarrow> 0 \<le> live_weight p"
  by (auto simp: wf_budget_def live_weight_def)

lemma used_nonneg: "wf_budget b \<Longrightarrow> 0 \<le> bud_used b"
proof -
  assume b: "wf_budget b"
  have "0 \<le> sum_list (map live_weight (bud_permits b))"
    by (rule sum_list_nonneg) (use live_weights_nonneg [OF b] in auto)
  then show ?thesis using b by (simp add: wf_budget_def)
qed

lemma newByteBudget_wf: "newByteBudget i c = Inr b \<Longrightarrow> wf_budget b \<and> dom (live b) = {} \<and> bud_capacity b = c"
  by (auto simp: newByteBudget_def wf_budget_def live_def owns_ref_def split: if_splits)

lemma live_issue:
  "live (fst (issue w b)) = (live b)(PermitRef (bud_id b) (length (bud_permits b)) \<mapsto> w)"
  by (rule ext) (auto simp: live_def issue_def owns_ref_def permit_at_def nth_append permit_ref.expand split: if_splits)

lemma live_used [simp]: "live (b\<lparr>bud_used := n\<rparr>) = live b" "live (b\<lparr>bud_wake := v\<rparr>) = live b"
  by (simp_all add: live_def owns_ref_def permit_at_def fun_eq_iff)

lemma live_fresh: "live b (PermitRef (bud_id b) (length (bud_permits b))) = None"
  by (simp add: live_def owns_ref_def)

lemma tryAcquire_eq_Inr:
  "tryAcquire b w = (b', Inr r) \<longleftrightarrow> 0 < w \<and> w \<le> bud_capacity b \<and> bud_used b + w \<le> bud_capacity b
     \<and> r = PermitRef (bud_id b) (length (bud_permits b))
     \<and> b' = b\<lparr>bud_used := bud_used b + w, bud_permits := bud_permits b @ [\<lparr>permit_weight = w, permit_released = False\<rparr>]\<rparr>"
  by (auto simp: tryAcquire_def issue_def not_le not_less)

lemma tryAcquire_succeeds:
  "wf_budget b \<Longrightarrow> (\<exists>b' r. tryAcquire b w = (b', Inr r)) \<longleftrightarrow> 0 < w \<and> bud_used b + w \<le> bud_capacity b"
  using used_nonneg [of b] by (auto simp: tryAcquire_eq_Inr)

lemma tryAcquire_fails: "tryAcquire b w = (b', Inl e) \<Longrightarrow> b' = b"
  by (auto simp: tryAcquire_def issue_def split: if_splits)

lemma tryAcquire_ok:
  assumes "wf_budget b" "tryAcquire b w = (b', Inr r)"
  shows "wf_budget b'" "live b r = None" "live b' = (live b)(r \<mapsto> w)" "bud_capacity b' = bud_capacity b"
proof -
  have b': "b' = fst (issue w (b\<lparr>bud_used := bud_used b + w\<rparr>))" "r = PermitRef (bud_id b) (length (bud_permits b))"
    using assms(2) by (simp_all add: tryAcquire_eq_Inr issue_def)
  show "live b' = (live b)(r \<mapsto> w)" unfolding b' live_issue by simp
  show "live b r = None" unfolding b' by (rule live_fresh)
  show "wf_budget b'" "bud_capacity b' = bud_capacity b"
    using assms by (auto simp: tryAcquire_eq_Inr wf_budget_def live_weight_def)
qed

lemma live_mark_released: "owns_ref b r \<Longrightarrow> live (mark_released r b) = (live b)(r := None)"
  by (rule ext) (auto simp: live_def mark_released_def owns_ref_def permit_at_def nth_list_update permit_ref.expand)

lemma sum_list_update_int: "i < length xs \<Longrightarrow> sum_list (xs[i := x]) = sum_list xs - xs ! i + (x :: int)"
  by (induction xs arbitrary: i) (auto simp: nth_Cons split: nat.split)

lemma used_mark_released:
  assumes "owns_ref b r" "\<not> permit_released (permit_at b r)"
  shows "sum_list (map live_weight (bud_permits (mark_released r b))) =
    sum_list (map live_weight (bud_permits b)) - permit_weight (permit_at b r)"
  using assms
  by (simp add: mark_released_def owns_ref_def permit_at_def map_update sum_list_update_int live_weight_def)

lemma live_iff: "live b r = Some w \<longleftrightarrow> owns_ref b r \<and> \<not> permit_released (permit_at b r) \<and> w = permit_weight (permit_at b r)"
  by (auto simp: live_def)

lemma permits_mark_released:
  assumes "wf_budget b" "owns_ref b r" "p \<in> set (bud_permits (mark_released r b))"
  shows "0 < permit_weight p \<and> permit_weight p \<le> bud_capacity b"
proof -
  have "permit_at b r \<in> set (bud_permits b)" using assms(2) by (simp add: owns_ref_def permit_at_def)
  moreover have "p = (permit_at b r)\<lparr>permit_released := True\<rparr> \<or> p \<in> set (bud_permits b)"
    using assms(3) set_update_subset_insert by (fastforce simp: mark_released_def)
  ultimately show ?thesis using assms(1) by (auto simp: wf_budget_def)
qed

lemma mark_released_simps [simp]:
  "bud_capacity (mark_released r b) = bud_capacity b" "bud_used (mark_released r b) = bud_used b"
  "bud_id (mark_released r b) = bud_id b" "length (bud_permits (mark_released r b)) = length (bud_permits b)"
  by (simp_all add: mark_released_def)

lemma live_le_used: "wf_budget b \<Longrightarrow> live b r = Some w \<Longrightarrow> 0 < w \<and> w \<le> bud_used b"
proof -
  assume b: "wf_budget b" and l: "live b r = Some w"
  then have "permit_at b r \<in> set (bud_permits b)" "live_weight (permit_at b r) = w" "permit_weight (permit_at b r) = w"
    by (auto simp: live_iff owns_ref_def permit_at_def live_weight_def)
  moreover from this have "live_weight (permit_at b r) \<le> sum_list (map live_weight (bud_permits b))"
    by (intro member_le_sum_list) (use live_weights_nonneg [OF b] in auto)
  ultimately show ?thesis using b by (auto simp: wf_budget_def)
qed

lemma replace_eq_Inr:
  "budget_replace b old w = (b', Inr r') \<longleftrightarrow>
     (\<exists>r v. old = Some r \<and> live b r = Some v \<and> 0 < w \<and> w \<le> bud_capacity b
       \<and> (v < w \<longrightarrow> bud_used b + (w - v) \<le> bud_capacity b)
       \<and> r' = PermitRef (bud_id b) (length (bud_permits b))
       \<and> b' = (fst (issue w ((mark_released r b)\<lparr>bud_used := bud_used b + (w - v)\<rparr>)))\<lparr>bud_wake := bud_wake b \<or> w < v\<rparr>)"
  by (cases old) (auto simp: budget_replace_def Let_def issue_def live_iff mark_released_def not_le not_less)

lemma replace_fails: "budget_replace b old w = (b', Inl e) \<Longrightarrow> b' = b"
  by (auto simp: budget_replace_def issue_def Let_def split: option.splits if_splits)

lemma replace_ok:
  assumes "wf_budget b" "budget_replace b old w = (b', Inr r')"
  shows "wf_budget b' \<and> old \<noteq> None \<and> live b (the old) \<noteq> None \<and> live b r' = None \<and> r' \<noteq> the old
    \<and> live b' = (live b)(the old := None, r' \<mapsto> w) \<and> bud_capacity b' = bud_capacity b"
proof -
  obtain r v where r: "old = Some r" "live b r = Some v" "0 < w" "w \<le> bud_capacity b"
    "v < w \<longrightarrow> bud_used b + (w - v) \<le> bud_capacity b" "r' = PermitRef (bud_id b) (length (bud_permits b))"
    "b' = (fst (issue w ((mark_released r b)\<lparr>bud_used := bud_used b + (w - v)\<rparr>)))\<lparr>bud_wake := bud_wake b \<or> w < v\<rparr>"
    using assms(2) by (auto simp: replace_eq_Inr)
  have own: "owns_ref b r" "\<not> permit_released (permit_at b r)" "v = permit_weight (permit_at b r)"
    using r(2) by (simp_all add: live_iff)
  have "r \<noteq> r'" using own(1) r(6) by (auto simp: owns_ref_def)
  moreover have "live b' = (live b)(r := None, r' \<mapsto> w)"
    unfolding r(7) live_used live_issue using own(1) r(6) by (simp add: live_mark_released)
  moreover have "wf_budget b'"
    using assms(1) r(3,4,5) live_le_used [OF assms(1) r(2)] used_mark_released [OF own(1,2)] own(3)
      permits_mark_released [OF assms(1) own(1)] not_le [of w v]
    unfolding r(7) by (auto simp: wf_budget_def issue_def live_weight_def)
  ultimately show ?thesis using r(1,2,6,7) by (simp add: live_fresh issue_def)
qed

lemma Release_eq:
  assumes "wf_budget b"
  shows "permit_Release b old =
    (case Option.bind old (live b) of
       None \<Rightarrow> (b, Some PermitReleased)
     | Some w \<Rightarrow> ((mark_released (the old) b)\<lparr>bud_used := bud_used b - w, bud_wake := True\<rparr>, None))"
proof (cases "Option.bind old (live b)")
  case None
  then show ?thesis by (auto simp: permit_Release_def live_def split: option.splits if_splits)
next
  case (Some w)
  then obtain r where r: "old = Some r" "live b r = Some w" by (cases old) auto
  have "0 < w" "w \<le> bud_used b" using live_le_used [OF assms r(2)] by auto
  moreover have "owns_ref b r" "\<not> permit_released (permit_at b r)" "permit_weight (permit_at b r) = w"
    using r(2) by (simp_all add: live_iff)
  ultimately show ?thesis using r by (simp add: permit_Release_def Let_def)
qed

lemma Release_ok:
  assumes "wf_budget b" "permit_Release b old = (b', None)"
  shows "wf_budget b' \<and> old \<noteq> None \<and> live b (the old) \<noteq> None \<and> live b' = (live b)(the old := None)
    \<and> bud_capacity b' = bud_capacity b"
proof -
  obtain r w where r: "old = Some r" "live b r = Some w"
    "b' = (mark_released r b)\<lparr>bud_used := bud_used b - w, bud_wake := True\<rparr>"
    using assms by (auto simp: Release_eq split: option.splits bind_splits)
  have own: "owns_ref b r" "\<not> permit_released (permit_at b r)" "w = permit_weight (permit_at b r)"
    using r(2) by (simp_all add: live_iff)
  have "wf_budget b'"
    using assms(1) live_le_used [OF assms(1) r(2)] used_mark_released [OF own(1,2)] own(3) permits_mark_released [OF assms(1) own(1)]
    unfolding r(3) by (fastforce simp: wf_budget_def)
  then show ?thesis using r own(1) by (simp add: live_mark_released)
qed

lemma Release_live: "wf_budget b \<Longrightarrow> live b r = Some w \<Longrightarrow> snd (permit_Release b (Some r)) = None"
  by (simp add: Release_eq)

lemma Release_dead:
  "wf_budget b \<Longrightarrow> live b r = None \<Longrightarrow> permit_Release b (Some r) = (b, Some PermitReleased)"
  by (simp add: Release_eq)

interpretation byte_budget: permit_budget live bud_capacity bud_used wf_budget tryAcquire budget_replace permit_Release
proof (unfold_locales, goal_cases)
  case (1 b)
  then have "bud_used b = (\<Sum>r \<in> dom (live b). the (live b r))" by (simp add: live_sum wf_budget_def)
  then show ?case by (simp add: live_dom)
next
  case (2 b)
  then show ?case by (simp add: wf_budget_def)
next
  case (3 b r w)
  then show ?case using live_le_used by blast
next
  case (4 b w b' r)
  then show ?case using tryAcquire_ok by blast
next
  case (5 b w b' e)
  then show ?case by (rule tryAcquire_fails)
next
  case (6 b old w b' r)
  then show ?case by (rule replace_ok)
next
  case (7 b old w b' e)
  then show ?case by (rule replace_fails)
next
  case (8 b old b')
  then show ?case by (rule Release_ok)
next
  case (9 b r)
  then show ?case using Release_live by fastforce
next
  case (10 b r)
  then show ?case by (simp add: Release_dead)
qed

section \<open>Properties\<close>

text \<open>C10: The bytes in use are always the sum of the live permits and within the capacity; acquiring adds one fresh
  permit, exchanging swaps one permit for another in one step, releasing removes one, and a failure changes nothing.\<close>

theorem budget_conservation:
  assumes "wf_budget b"
  shows "bud_used b = (\<Sum>r \<in> dom (live b). the (live b r)) \<and> bud_used b \<le> bud_capacity b
    \<and> (case tryAcquire b w of
         (b', Inl e) \<Rightarrow> b' = b
       | (b', Inr r) \<Rightarrow> wf_budget b' \<and> live b r = None \<and> live b' = (live b)(r \<mapsto> w))
    \<and> (case budget_replace b old w of
         (b', Inl e) \<Rightarrow> b' = b
       | (b', Inr r) \<Rightarrow> wf_budget b' \<and> live b (the old) \<noteq> None \<and> live b r = None \<and> live b' = (live b)(the old := None, r \<mapsto> w))
    \<and> (case permit_Release b old of
         (b', Some e) \<Rightarrow> b' = b
       | (b', None) \<Rightarrow> wf_budget b' \<and> live b (the old) \<noteq> None \<and> live b' = (live b)(the old := None))"
proof -
  have "permit_Release b old = (b', Some e) \<Longrightarrow> b' = b" for b' e
    using Release_eq [OF assms, of old] by (auto split: option.splits)
  then show ?thesis
    using byte_budget.used_sum [OF assms] byte_budget.bounds(1) [OF assms] tryAcquire_ok [OF assms] tryAcquire_fails
      replace_ok [OF assms] replace_fails Release_ok [OF assms]
    by (auto split: prod.split sum.split option.split)
qed

theorem budget_conservation_witness:
  "\<exists>b. newByteBudget 0 100 = Inr b \<and> bud_used b = 0 \<and> (\<exists>b' r. tryAcquire b 40 = (b', Inr r) \<and> bud_used b' = 40)"
proof -
  obtain b where b: "newByteBudget 0 100 = Inr b" by (simp add: newByteBudget_def)
  then have wf: "wf_budget b" "dom (live b) = {}" "bud_capacity b = 100" using newByteBudget_wf by auto
  then have "bud_used b = 0" using budget_conservation [OF wf(1)] by simp
  moreover from this obtain b' r where "tryAcquire b 40 = (b', Inr r)" using tryAcquire_succeeds [OF wf(1), of 40] wf(3) by auto
  moreover from this have "bud_used b' = bud_used b + 40" by (simp add: tryAcquire_eq_Inr)
  ultimately show ?thesis using b by auto
qed

text \<open>A permit gives its bytes back exactly once: the first release frees them, every later one is refused and
  changes nothing.\<close>

theorem permit_released_once:
  assumes "wf_budget b" "permit_Release b (Some r) = (b', None)"
  shows "bud_used b' = bud_used b - the (live b r) \<and> permit_Release b' (Some r) = (b', Some PermitReleased)"
proof -
  have "live b' r = None" "wf_budget b'" using Release_ok [OF assms] by auto
  then show ?thesis using byte_budget.release_once(3) [OF assms] Release_dead by simp
qed

theorem permit_released_once_witness:
  "\<exists>b b1 r b2. newByteBudget 0 100 = Inr b \<and> tryAcquire b 40 = (b1, Inr r) \<and> permit_Release b1 (Some r) = (b2, None)
     \<and> bud_used b2 = bud_used b1 - 40 \<and> permit_Release b2 (Some r) = (b2, Some PermitReleased)"
proof -
  obtain b where b: "newByteBudget 0 100 = Inr b" by (simp add: newByteBudget_def)
  then have wf: "wf_budget b" "dom (live b) = {}" "bud_capacity b = 100" using newByteBudget_wf by auto
  then have "bud_used b = 0" using byte_budget.idle_is_empty by blast
  then obtain b1 r where t: "tryAcquire b 40 = (b1, Inr r)" using tryAcquire_succeeds [OF wf(1), of 40] wf(3) by auto
  note ok = tryAcquire_ok [OF wf(1) t]
  then obtain b2 where r: "permit_Release b1 (Some r) = (b2, None)" using Release_live [OF ok(1), of r 40] by (metis fun_upd_same prod.collapse)
  from permit_released_once [OF ok(1) r] show ?thesis using b t r ok(3) by auto
qed

end
