(* ===== verification/Queue.thy ===== *)
theory Queue
  imports Budget
begin

text \<open>
  The bounded queue of \<open>internal/service/queue.go\<close>: a ring buffer of envelopes with a byte budget, entry
  reservations and a stopped flag. The budget belongs to the queue (the core builds one per queue), so it is a
  component of the state; a \<open>*queueReservation\<close> is an index into the reservations the queue handed out, so that
  a second use of the same pointer is visible. \<open>weigh\<close> is a parameter, \<open>None\<close> when it returns an
  error. Methods run under the queue's mutex and are one step each; \<open>TryPut\<close>, which takes it twice, is their
  composition. The blocking \<open>Put\<close> and \<open>Take\<close> repeat these steps and wait in between; they are in theory
  \<open>Waiting\<close>, as is the registration of the one producer that may wait.
\<close>

datatype 'a cell = ZeroCell | Cell 'a permit_ref

record reservation =
  res_permit :: "permit_ref option"
  res_active :: bool

record 'a bqueue =
  q_storage :: "'a cell list"
  q_head :: nat
  q_tail :: nat
  q_count :: nat
  q_reservations :: nat
  q_stopped :: bool
  q_budget :: budget
  q_handles :: "reservation list"
  q_spaceWake :: bool
  q_notEmptyWake :: bool
  q_stateWake :: bool
  q_entryWaiters :: nat
  q_byteWaiters :: nat
  q_putWaiter :: bool

definition newBoundedQueue :: "int \<Rightarrow> budget \<Rightarrow> service_error + 'a bqueue" where
  "newBoundedQueue entries b =
     (if entries \<le> 0 then Inl InvalidWeight
      else Inr \<lparr>q_storage = replicate (nat entries) ZeroCell, q_head = 0, q_tail = 0, q_count = 0, q_reservations = 0,
        q_stopped = False, q_budget = b, q_handles = [], q_spaceWake = False, q_notEmptyWake = False,
        q_stateWake = False, q_entryWaiters = 0, q_byteWaiters = 0, q_putWaiter = False\<rparr>)"

definition tryReserve :: "('a \<Rightarrow> int option) \<Rightarrow> 'a bqueue \<Rightarrow> 'a \<Rightarrow> 'a bqueue \<times> (service_error + permit_ref)" where
  "tryReserve weigh q v =
     (case weigh v of
        None \<Rightarrow> (q, Inl InvalidWeight)
      | Some w \<Rightarrow>
          if w \<le> 0 then (q, Inl InvalidWeight)
          else let (b, r) = tryAcquire (q_budget q) w in (q\<lparr>q_budget := b\<rparr>, r))"

text \<open>The lines that append an envelope, shared by \<open>putReserved\<close> and \<open>commit\<close>.\<close>

definition enqueue :: "'a \<Rightarrow> permit_ref \<Rightarrow> 'a bqueue \<Rightarrow> 'a bqueue" where
  "enqueue v r q =
     q\<lparr>q_storage := (q_storage q)[q_tail q := Cell v r], q_tail := (q_tail q + 1) mod length (q_storage q),
       q_count := q_count q + 1, q_notEmptyWake := (q_count q = 0 \<or> q_notEmptyWake q), q_stateWake := True\<rparr>"

definition putReserved :: "('a \<Rightarrow> int option) \<Rightarrow> 'a bqueue \<Rightarrow> 'a \<Rightarrow> permit_ref option \<Rightarrow> 'a bqueue \<times> service_error option" where
  "putReserved weigh q v owned =
     (case owned of
        None \<Rightarrow> (q, Some InvalidWeight)
      | Some r \<Rightarrow>
          if \<not> owns_ref (q_budget q) r \<or> permit_released (permit_at (q_budget q) r) then (q, Some InvalidWeight)
          else case weigh v of
            None \<Rightarrow> (q, Some InvalidWeight)
          | Some w \<Rightarrow>
              if w \<le> 0 \<or> w \<noteq> permit_weight (permit_at (q_budget q) r) then (q, Some InvalidWeight)
              else if q_stopped q then (q, Some QueueStopped)
              else if q_count q + q_reservations q = length (q_storage q) then (q, Some QueueFull)
              else (enqueue v r q, None))"

definition TryPut :: "('a \<Rightarrow> int option) \<Rightarrow> 'a bqueue \<Rightarrow> 'a \<Rightarrow> 'a bqueue \<times> service_error option" where
  "TryPut weigh q v =
     (if q_stopped q then (q, Some QueueStopped)
      else
        let (q1, owned) = tryReserve weigh q v in
        case owned of
          Inl e \<Rightarrow> (q1, Some e)
        | Inr r \<Rightarrow>
            (case putReserved weigh q1 v (Some r) of
               (q2, None) \<Rightarrow> (q2, None)
             | (q2, Some e) \<Rightarrow> (q2\<lparr>q_budget := fst (permit_Release (q_budget q2) (Some r))\<rparr>, Some e)))"

definition TryTake :: "'a bqueue \<Rightarrow> 'a bqueue \<times> 'a cell option" where
  "TryTake q =
     (if q_count q = 0 then (q, None)
      else
        (q\<lparr>q_storage := (q_storage q)[q_head q := ZeroCell], q_head := (q_head q + 1) mod length (q_storage q),
           q_count := q_count q - 1, q_spaceWake := True, q_stateWake := True\<rparr>,
         Some (q_storage q ! q_head q)))"

definition tryReserveCapacity :: "'a bqueue \<Rightarrow> int \<Rightarrow> 'a bqueue \<times> (service_error + nat)" where
  "tryReserveCapacity q w =
     (if w \<le> 0 then (q, Inl InvalidWeight)
      else if q_stopped q then (q, Inl QueueStopped)
      else if q_count q + q_reservations q = length (q_storage q) then (q, Inl QueueFull)
      else
        case tryAcquire (q_budget q) w of
          (b, Inl e) \<Rightarrow> (q\<lparr>q_budget := b\<rparr>, Inl e)
        | (b, Inr r) \<Rightarrow>
            (q\<lparr>q_budget := b, q_reservations := q_reservations q + 1, q_stateWake := True,
               q_handles := q_handles q @ [\<lparr>res_permit = Some r, res_active = True\<rparr>]\<rparr>,
             Inr (length (q_handles q))))"

definition spent :: reservation where
  "spent = \<lparr>res_permit = None, res_active = False\<rparr>"

definition usable :: "'a bqueue \<Rightarrow> nat \<Rightarrow> bool" where
  "usable q h \<longleftrightarrow> h < length (q_handles q) \<and> res_permit (q_handles q ! h) \<noteq> None \<and> res_active (q_handles q ! h)"

definition reservation_commit :: "('a \<Rightarrow> int option) \<Rightarrow> 'a bqueue \<Rightarrow> nat \<Rightarrow> 'a \<Rightarrow> 'a bqueue \<times> service_error option" where
  "reservation_commit weigh q h v =
     (if \<not> usable q h then (q, Some PermitReleased)
      else case weigh v of
        None \<Rightarrow> (q, Some InvalidWeight)
      | Some w \<Rightarrow>
          if w \<le> 0 then (q, Some InvalidWeight)
          else if q_reservations q = 0 \<or> q_count q \<ge> length (q_storage q) then (q, Some QueueInvariant)
          else
            case budget_replace (q_budget q) (res_permit (q_handles q ! h)) w of
              (b, Inl e) \<Rightarrow> (q\<lparr>q_budget := b\<rparr>, Some e)
            | (b, Inr r) \<Rightarrow>
                ((enqueue v r (q\<lparr>q_budget := b\<rparr>))\<lparr>q_reservations := q_reservations q - 1,
                   q_handles := (q_handles q)[h := spent]\<rparr>, None))"

definition reservation_release :: "'a bqueue \<Rightarrow> nat \<Rightarrow> 'a bqueue \<times> service_error option" where
  "reservation_release q h =
     (if \<not> usable q h then (q, Some PermitReleased)
      else if q_reservations q = 0 then (q, Some QueueInvariant)
      else
        let (b, err) = permit_Release (q_budget q) (res_permit (q_handles q ! h)) in
        (q\<lparr>q_reservations := q_reservations q - 1, q_handles := (q_handles q)[h := spent], q_spaceWake := True,
           q_notEmptyWake := True, q_stateWake := True, q_budget := b\<rparr>, err))"

definition queue_Close :: "'a bqueue \<Rightarrow> 'a bqueue" where
  "queue_Close q =
     (if q_stopped q then q
      else q\<lparr>q_stopped := True, q_spaceWake := True, q_notEmptyWake := True, q_stateWake := True\<rparr>)"

definition cell_permit :: "'a cell \<Rightarrow> permit_ref option" where
  "cell_permit c = (case c of ZeroCell \<Rightarrow> None | Cell v r \<Rightarrow> Some r)"

text \<open>\<open>drainAndRelease\<close> takes until the queue is empty; each turn of the loop lowers \<open>count\<close>.\<close>

function drain_from :: "nat \<Rightarrow> 'a bqueue \<Rightarrow> 'a bqueue \<times> nat" where
  "drain_from drained q =
     (case TryTake q of
        (q', None) \<Rightarrow> (q', drained)
      | (q', Some c) \<Rightarrow> drain_from (drained + 1) (q'\<lparr>q_budget := fst (permit_Release (q_budget q') (cell_permit c))\<rparr>))"
  by pat_completeness auto

termination
  by (relation "measure (\<lambda>(d, q). q_count q)") (auto simp: TryTake_def split: if_splits)

definition drainAndRelease :: "'a bqueue \<Rightarrow> 'a bqueue \<times> nat" where
  "drainAndRelease = drain_from 0"

section \<open>The ring buffer is a list\<close>

definition ring :: "'c list \<Rightarrow> nat \<Rightarrow> nat \<Rightarrow> 'c list" where
  "ring st h c = map (\<lambda>i. st ! ((h + i) mod length st)) [0..<c]"

lemma ring_length [simp]: "length (ring st h c) = c"
  by (simp add: ring_def)

lemma slot_differs: "i < c \<Longrightarrow> c < n \<Longrightarrow> (h + i) mod n \<noteq> (h + c) mod n" for n :: nat
proof
  assume i: "i < c" "c < n" and "(h + i) mod n = (h + c) mod n"
  then have "n dvd (h + c) - (h + i)" by (metis add_le_cancel_left less_imp_le mod_eq_dvd_iff_nat)
  then have "n \<le> c - i" using i by (intro dvd_imp_le) auto
  then show False using i by simp
qed

lemma ring_push:
  assumes "c < length st"
  shows "ring (st[(h + c) mod length st := x]) h (Suc c) = ring st h c @ [x]"
proof -
  have "(h + c) mod length st < length st" using assms by (intro mod_less_divisor) auto
  moreover have "(h + c) mod length st \<noteq> (h + i) mod length st" if "i < c" for i
    using slot_differs [of i c "length st" h] that assms by simp
  ultimately show ?thesis by (auto simp: ring_def)
qed

lemma ring_pop:
  assumes "c < length st" "h < length st"
  shows "ring st h (Suc c) = st ! h # ring (st[h := z]) ((h + 1) mod length st) c"
proof (rule nth_equalityI)
  fix i assume "i < length (ring st h (Suc c))"
  then have i: "i < Suc c" by simp
  show "ring st h (Suc c) ! i = (st ! h # ring (st[h := z]) ((h + 1) mod length st) c) ! i"
  proof (cases i)
    case (Suc j)
    then have "(h + 1 + j) mod length st \<noteq> h"
      using slot_differs [of 0 "Suc j" "length st" h] i assms by simp
    then show ?thesis
      using Suc i by (simp add: ring_def mod_add_left_eq del: upt_Suc)
  qed (use assms in \<open>simp add: ring_def del: upt_Suc\<close>)
qed simp

section \<open>Consistent queues\<close>

definition contents :: "'a bqueue \<Rightarrow> 'a cell list" where
  "contents q = ring (q_storage q) (q_head q) (q_count q)"

definition cell_value :: "'a cell \<Rightarrow> 'a option" where
  "cell_value c = (case c of ZeroCell \<Rightarrow> None | Cell v r \<Rightarrow> Some v)"

definition active_permits :: "reservation list \<Rightarrow> permit_ref list" where
  "active_permits rs = List.map_filter (\<lambda>r. if res_active r then res_permit r else None) rs"

text \<open>The permits the queue itself holds: one per entry and one per outstanding reservation.\<close>

definition entry_permits :: "'a bqueue \<Rightarrow> permit_ref list" where
  "entry_permits q = List.map_filter cell_permit (contents q)"

definition held :: "'a bqueue \<Rightarrow> permit_ref list" where
  "held q = entry_permits q @ active_permits (q_handles q)"

definition charged :: "('a \<Rightarrow> int option) \<Rightarrow> budget \<Rightarrow> 'a cell \<Rightarrow> bool" where
  "charged weigh b c = (case c of ZeroCell \<Rightarrow> False | Cell v r \<Rightarrow> weigh v \<noteq> None \<and> live b r = weigh v)"

definition wf_queue :: "('a \<Rightarrow> int option) \<Rightarrow> 'a bqueue \<Rightarrow> bool" where
  "wf_queue weigh q \<longleftrightarrow> q_storage q \<noteq> [] \<and> q_head q < length (q_storage q)
     \<and> q_tail q = (q_head q + q_count q) mod length (q_storage q)
     \<and> q_count q + q_reservations q \<le> length (q_storage q)
     \<and> q_reservations q = length (active_permits (q_handles q))
     \<and> (\<forall>r \<in> set (q_handles q). res_active r \<longleftrightarrow> res_permit r \<noteq> None)
     \<and> wf_budget (q_budget q)
     \<and> (\<forall>c \<in> set (contents q). charged weigh (q_budget q) c)
     \<and> distinct (held q) \<and> set (held q) \<subseteq> dom (live (q_budget q))"

text \<open>The entries are in the ring; the other components do not matter.\<close>

lemma contents_update [simp]:
  "contents (q\<lparr>q_budget := x0\<rparr>) = contents q"
  "contents (q\<lparr>q_reservations := x1\<rparr>) = contents q"
  "contents (q\<lparr>q_handles := x2\<rparr>) = contents q"
  "contents (q\<lparr>q_stopped := x3\<rparr>) = contents q"
  "contents (q\<lparr>q_spaceWake := x4\<rparr>) = contents q"
  "contents (q\<lparr>q_notEmptyWake := x5\<rparr>) = contents q"
  "contents (q\<lparr>q_stateWake := x6\<rparr>) = contents q"
  "contents (q\<lparr>q_entryWaiters := x7\<rparr>) = contents q"
  "contents (q\<lparr>q_byteWaiters := x7\<rparr>) = contents q"
  "contents (q\<lparr>q_putWaiter := x8\<rparr>) = contents q"
  by (simp_all add: contents_def)

lemma entry_permits_update [simp]:
  "entry_permits (q\<lparr>q_budget := x0\<rparr>) = entry_permits q"
  "entry_permits (q\<lparr>q_reservations := x1\<rparr>) = entry_permits q"
  "entry_permits (q\<lparr>q_handles := x2\<rparr>) = entry_permits q"
  "entry_permits (q\<lparr>q_stopped := x3\<rparr>) = entry_permits q"
  "entry_permits (q\<lparr>q_spaceWake := x4\<rparr>) = entry_permits q"
  "entry_permits (q\<lparr>q_notEmptyWake := x5\<rparr>) = entry_permits q"
  "entry_permits (q\<lparr>q_stateWake := x6\<rparr>) = entry_permits q"
  "entry_permits (q\<lparr>q_entryWaiters := x7\<rparr>) = entry_permits q"
  "entry_permits (q\<lparr>q_byteWaiters := x7\<rparr>) = entry_permits q"
  "entry_permits (q\<lparr>q_putWaiter := x8\<rparr>) = entry_permits q"
  by (simp_all add: entry_permits_def)

lemma newBoundedQueue_wf:
  "wf_budget b \<Longrightarrow> newBoundedQueue n b = Inr q \<Longrightarrow> wf_queue weigh q \<and> contents q = [] \<and> q_budget q = b"
  by (auto simp: newBoundedQueue_def wf_queue_def contents_def ring_def held_def entry_permits_def active_permits_def
      map_filter_simps split: if_splits)

lemma contents_enqueue:
  assumes "wf_queue weigh q" "q_count q < length (q_storage q)"
  shows "contents (enqueue v r q) = contents q @ [Cell v r]"
  using assms ring_push [of "q_count q" "q_storage q" "q_head q" "Cell v r"]
  by (simp add: contents_def enqueue_def wf_queue_def)

lemma map_filter_append: "List.map_filter f (xs @ ys) = List.map_filter f xs @ List.map_filter f ys"
  by (induction xs) (auto simp: map_filter_simps split: option.split)

lemma entry_permits_enqueue:
  assumes "wf_queue weigh q" "q_count q < length (q_storage q)"
  shows "entry_permits (enqueue v r q) = entry_permits q @ [r]"
  using assms by (simp add: entry_permits_def contents_enqueue map_filter_append map_filter_simps cell_permit_def)

lemma enqueue_simps [simp]:
  "q_head (enqueue v r q) = q_head q" "length (q_storage (enqueue v r q)) = length (q_storage q)"
  "q_count (enqueue v r q) = q_count q + 1" "q_reservations (enqueue v r q) = q_reservations q"
  "q_budget (enqueue v r q) = q_budget q" "q_handles (enqueue v r q) = q_handles q"
  "q_stopped (enqueue v r q) = q_stopped q" "q_storage (enqueue v r q) = [] \<longleftrightarrow> q_storage q = []"
  by (simp_all add: enqueue_def)

lemma tail_enqueue:
  "wf_queue weigh q \<Longrightarrow> q_tail (enqueue v r q) = (q_head q + (q_count q + 1)) mod length (q_storage q)"
  by (simp add: enqueue_def wf_queue_def mod_Suc_eq)

lemma charged_update:
  "charged weigh b c \<Longrightarrow> (\<And>r. cell_permit c = Some r \<Longrightarrow> live b' r = live b r) \<Longrightarrow> charged weigh b' c"
  by (auto simp: charged_def cell_permit_def split: cell.splits)

lemma cell_permit_entry: "c \<in> set (contents q) \<Longrightarrow> cell_permit c = Some r \<Longrightarrow> r \<in> set (entry_permits q)"
  unfolding entry_permits_def by (induction "contents q") (force simp: List.map_filter_def)+

text \<open>Changing the budget where none of the queue's own permits is concerned keeps the queue consistent.\<close>

lemma wf_queue_budget:
  assumes "wf_queue weigh q" "wf_budget b" "\<And>r. r \<in> set (held q) \<Longrightarrow> live b r = live (q_budget q) r"
  shows "wf_queue weigh (q\<lparr>q_budget := b\<rparr>)"
proof -
  have same: "contents (q\<lparr>q_budget := b\<rparr>) = contents q" "held (q\<lparr>q_budget := b\<rparr>) = held q"
    by (simp_all add: held_def)
  have "charged weigh b c" if "c \<in> set (contents q)" for c
  proof (rule charged_update)
    show "charged weigh (q_budget q) c" using assms(1) that by (simp add: wf_queue_def)
    show "live b r = live (q_budget q) r" if "cell_permit c = Some r" for r
      using cell_permit_entry [OF \<open>c \<in> set (contents q)\<close> that] by (intro assms(3)) (simp add: held_def)
  qed
  moreover have "set (held q) \<subseteq> dom (live b)"
    using assms(1,3) by (auto simp: wf_queue_def subset_iff dom_def)
  ultimately show ?thesis
    using assms(1,2) by (simp add: wf_queue_def same)
qed

lemma wf_queue_enqueue:
  assumes "wf_queue weigh q" "q_count q + q_reservations q < length (q_storage q)"
    "weigh v = Some w" "live (q_budget q) r = Some w" "r \<notin> set (held q)"
  shows "wf_queue weigh (enqueue v r q)"
proof -
  have room: "q_count q < length (q_storage q)" using assms(2) by simp
  have "held (enqueue v r q) = entry_permits q @ [r] @ active_permits (q_handles q)"
    using entry_permits_enqueue [OF assms(1) room] by (simp add: held_def)
  then show ?thesis
    using assms contents_enqueue [OF assms(1) room] tail_enqueue [OF assms(1)]
    by (auto simp: wf_queue_def charged_def held_def domI)
qed

section \<open>What the operations do\<close>

lemma held_live: "wf_queue weigh q \<Longrightarrow> r \<in> set (held q) \<Longrightarrow> live (q_budget q) r \<noteq> None"
  by (auto simp: wf_queue_def dom_def)

lemma held_budget [simp]: "held (q\<lparr>q_budget := b\<rparr>) = held q"
  by (simp add: held_def)

lemma wf_after_acquire:
  assumes "wf_queue weigh q" "tryAcquire (q_budget q) w = (b, Inr r)"
  shows "wf_queue weigh (q\<lparr>q_budget := b\<rparr>)" "r \<notin> set (held q)" "live b = (live (q_budget q))(r \<mapsto> w)"
proof -
  have wfb: "wf_budget (q_budget q)" using assms(1) by (simp add: wf_queue_def)
  note a = tryAcquire_ok [OF wfb assms(2)]
  show fresh: "r \<notin> set (held q)" using held_live [OF assms(1), of r] a(2) by auto
  show "live b = (live (q_budget q))(r \<mapsto> w)" by (rule a(3))
  show "wf_queue weigh (q\<lparr>q_budget := b\<rparr>)"
    by (rule wf_queue_budget [OF assms(1) a(1)]) (use fresh in \<open>auto simp: a(3)\<close>)
qed

lemma acquired_iff:
  assumes "tryAcquire b w = (b', Inr r)"
  shows "owns_ref b' r" "\<not> permit_released (permit_at b' r)" "permit_weight (permit_at b' r) = w"
  using assms by (auto simp: tryAcquire_eq_Inr owns_ref_def permit_at_def)

text \<open>
  A permit that is charged but not the queue's own belongs to a consumer. No operation touches it.
\<close>

definition outside :: "'a bqueue \<Rightarrow> permit_ref \<Rightarrow> bool" where
  "outside q r \<longleftrightarrow> live (q_budget q) r \<noteq> None \<and> r \<notin> set (held q)"

definition spares :: "'a bqueue \<Rightarrow> 'a bqueue \<Rightarrow> bool" where
  "spares q q' \<longleftrightarrow> (\<forall>r. outside q r \<longrightarrow> outside q' r \<and> live (q_budget q') r = live (q_budget q) r)"

lemma spares_refl [simp]: "spares q q"
  by (simp add: spares_def)

definition admits :: "('a \<Rightarrow> int option) \<Rightarrow> 'a bqueue \<Rightarrow> 'a \<Rightarrow> bool" where
  "admits weigh q v \<longleftrightarrow> \<not> q_stopped q \<and> q_count q + q_reservations q < length (q_storage q)
     \<and> (\<exists>w. weigh v = Some w \<and> 0 < w \<and> bud_used (q_budget q) + w \<le> bud_capacity (q_budget q))"

text \<open>What an operation leaves alone when it fails.\<close>

definition same_queue :: "'a bqueue \<Rightarrow> 'a bqueue \<Rightarrow> bool" where
  "same_queue q q' \<longleftrightarrow> contents q' = contents q \<and> live (q_budget q') = live (q_budget q)
     \<and> bud_capacity (q_budget q') = bud_capacity (q_budget q) \<and> bud_used (q_budget q') = bud_used (q_budget q)
     \<and> q_stopped q' = q_stopped q \<and> q_reservations q' = q_reservations q \<and> q_handles q' = q_handles q
     \<and> length (q_storage q') = length (q_storage q)"

lemma same_queue_spares: "same_queue q q' \<Longrightarrow> spares q q'"
  by (simp add: same_queue_def spares_def outside_def held_def entry_permits_def)

lemma same_queue_refl [simp]: "same_queue q q"
  by (simp add: same_queue_def)

lemma wf_used: "wf_budget b \<Longrightarrow> wf_budget b' \<Longrightarrow> live b' = live b \<Longrightarrow> bud_used b' = bud_used b"
  by (simp add: byte_budget.used_sum)

lemma TryPut_full:
  assumes wf: "wf_queue weigh q" and acq: "tryAcquire (q_budget q) w = (b, Inr r)"
  defines "b' \<equiv> fst (permit_Release b (Some r))"
  shows "wf_queue weigh (q\<lparr>q_budget := b'\<rparr>) \<and> same_queue q (q\<lparr>q_budget := b'\<rparr>)"
proof -
  have wfb: "wf_budget (q_budget q)" using wf by (simp add: wf_queue_def)
  obtain err where rel: "permit_Release b (Some r) = (b', err)" unfolding b'_def by (cases "permit_Release b (Some r)") simp
  have live: "err = None" "live b' = live (q_budget q)"
    using byte_budget.round_trip [OF wfb acq rel] by auto
  have wfb': "wf_budget b'" "bud_capacity b' = bud_capacity (q_budget q)"
    using Release_ok [of b "Some r" b'] tryAcquire_ok [OF wfb acq] rel live(1) by auto
  have "wf_queue weigh (q\<lparr>q_budget := b'\<rparr>)"
    by (rule wf_queue_budget [OF wf wfb'(1)]) (simp add: live(2))
  then show ?thesis using live(2) wfb' wf_used [OF wfb wfb'(1) live(2)] by (simp add: same_queue_def)
qed

lemma TryPut_cases:
  assumes wf: "wf_queue weigh q"
  shows "if admits weigh q v
    then \<exists>q' r w. TryPut weigh q v = (q', None) \<and> wf_queue weigh q' \<and> contents q' = contents q @ [Cell v r]
      \<and> weigh v = Some w \<and> live (q_budget q) r = None \<and> live (q_budget q') = (live (q_budget q))(r \<mapsto> w)
      \<and> q_stopped q' = q_stopped q \<and> q_reservations q' = q_reservations q \<and> q_handles q' = q_handles q
      \<and> length (q_storage q') = length (q_storage q) \<and> spares q q'
    else \<exists>q' e. TryPut weigh q v = (q', Some e) \<and> wf_queue weigh q' \<and> same_queue q q'"
proof (cases "q_stopped q \<or> (case weigh v of None \<Rightarrow> True | Some w \<Rightarrow> w \<le> 0)")
  case True
  then have "\<not> admits weigh q v" by (auto simp: admits_def)
  moreover have "\<exists>e. TryPut weigh q v = (q, Some e)"
    using True by (auto simp: TryPut_def tryReserve_def split: option.splits)
  ultimately show ?thesis using wf by auto
next
  case False
  then obtain w where w: "weigh v = Some w" "0 < w" "\<not> q_stopped q" by (auto split: option.splits)
  show ?thesis
  proof (cases "tryAcquire (q_budget q) w")
    case (Pair b res)
    show ?thesis
    proof (cases res)
      case (Inl e)
      then have "b = q_budget q" using Pair tryAcquire_fails by simp
      then have "TryPut weigh q v = (q, Some e)" using w Pair Inl by (simp add: TryPut_def tryReserve_def)
      moreover have "\<not> admits weigh q v"
        using Pair Inl w(1) tryAcquire_succeeds [of "q_budget q" w] wf by (auto simp: admits_def wf_queue_def)
      ultimately show ?thesis using wf by auto
    next
      case (Inr r)
      note acq = Pair [unfolded Inr]
      have fits: "bud_used (q_budget q) + w \<le> bud_capacity (q_budget q)" using acq by (simp add: tryAcquire_eq_Inr)
      have adm: "admits weigh q v \<longleftrightarrow> q_count q + q_reservations q < length (q_storage q)"
        using w fits by (auto simp: admits_def)
      have room: "q_count q + q_reservations q \<le> length (q_storage q)" using wf by (simp add: wf_queue_def)
      note ready = acquired_iff [OF acq] wf_after_acquire [OF wf acq]
      show ?thesis
      proof (cases "q_count q + q_reservations q = length (q_storage q)")
        case True
        then have "TryPut weigh q v = (q\<lparr>q_budget := fst (permit_Release b (Some r))\<rparr>, Some QueueFull)"
          using w acq ready(1-3) by (simp add: TryPut_def tryReserve_def putReserved_def)
        then show ?thesis using TryPut_full [OF wf acq] adm True by auto
      next
        case False
        then have lt: "q_count q + q_reservations q < length (q_storage q)" using room by simp
        let ?q = "q\<lparr>q_budget := b\<rparr>"
        have put: "TryPut weigh q v = (enqueue v r ?q, None)"
          using w acq ready(1-3) False by (simp add: TryPut_def tryReserve_def putReserved_def)
        have "wf_queue weigh (enqueue v r ?q)"
          by (rule wf_queue_enqueue [OF ready(4), where w = w]) (use lt w ready(5,6) in simp_all)
        moreover have "contents (enqueue v r ?q) = contents q @ [Cell v r]"
          using contents_enqueue [OF ready(4)] lt by simp
        moreover have "live (q_budget q) r = None" using tryAcquire_ok(2) acq wf by (auto simp: wf_queue_def)
        moreover have "set (held (enqueue v r ?q)) = insert r (set (held q))"
          using entry_permits_enqueue [OF ready(4)] lt by (auto simp: held_def)
        moreover from calculation(3,4) ready(6) have "spares q (enqueue v r ?q)"
          by (auto simp: spares_def outside_def)
        ultimately show ?thesis
          using put ready(6) lt adm w(1) by (intro if_P [THEN iffD2, rotated]) auto
      qed
    qed
  qed
qed

lemma TryTake_none: "TryTake q = (q', None) \<longleftrightarrow> q_count q = 0 \<and> q' = q"
  by (auto simp: TryTake_def)

lemma contents_Nil [simp]: "contents q = [] \<longleftrightarrow> q_count q = 0"
  by (simp add: contents_def ring_def)

lemma length_contents [simp]: "length (contents q) = q_count q"
  by (simp add: contents_def)

lemma TryTake_cases:
  assumes wf: "wf_queue weigh q" and some: "q_count q \<noteq> 0"
  shows "\<exists>q' v r. TryTake q = (q', Some (Cell v r)) \<and> wf_queue weigh q' \<and> contents q = Cell v r # contents q'
    \<and> weigh v \<noteq> None \<and> live (q_budget q) r = weigh v \<and> r \<in> set (held q) \<and> r \<notin> set (held q') \<and> q_budget q' = q_budget q
    \<and> q_stopped q' = q_stopped q \<and> q_reservations q' = q_reservations q \<and> q_handles q' = q_handles q
    \<and> length (q_storage q') = length (q_storage q) \<and> set (held q) = insert r (set (held q'))"
proof -
  define q' where "q' = fst (TryTake q)"
  let ?n = "length (q_storage q)" and ?c = "q_storage q ! q_head q"
  have q': "TryTake q = (q', Some ?c)" "q_head q' = (q_head q + 1) mod ?n" "q_count q' = q_count q - 1"
    "q_storage q' = (q_storage q)[q_head q := ZeroCell]" "q_tail q' = q_tail q" "q_budget q' = q_budget q"
    "q_stopped q' = q_stopped q" "q_reservations q' = q_reservations q" "q_handles q' = q_handles q"
    using some by (simp_all add: q'_def TryTake_def)
  have bounds: "q_head q < ?n" "q_count q - 1 < ?n" "q_count q = Suc (q_count q - 1)"
    using wf some by (auto simp: wf_queue_def)
  have cons: "contents q = ?c # contents q'"
    using ring_pop [OF bounds(2,1), of ZeroCell] bounds(3) q' by (simp add: contents_def)
  then have "charged weigh (q_budget q) ?c" using wf by (simp add: wf_queue_def)
  then obtain v r where c: "?c = Cell v r" "weigh v \<noteq> None" "live (q_budget q) r = weigh v"
    by (auto simp: charged_def split: cell.splits)
  have held: "held q = r # held q'"
    by (simp add: held_def entry_permits_def cons c(1) map_filter_simps cell_permit_def q')
  have "(q_head q + Suc (q_count q')) mod ?n = ((q_head q + 1) mod ?n + q_count q') mod ?n"
    by (simp add: mod_add_left_eq)
  moreover have "Suc (q_count q') = q_count q" using bounds(3) q'(3) by simp
  ultimately have "q_tail q' = (q_head q' + q_count q') mod length (q_storage q')"
    using wf by (simp add: wf_queue_def q'(2,4,5))
  moreover have "q_head q' < length (q_storage q')" "q_storage q' \<noteq> []"
  proof -
    have "0 < ?n" using bounds(1) by linarith
    then show "q_head q' < length (q_storage q')" "q_storage q' \<noteq> []" by (auto simp: q'(2,4))
  qed
  moreover have "q_count q' + q_reservations q' \<le> length (q_storage q')"
  proof -
    have "q_count q + q_reservations q \<le> length (q_storage q)" using wf by (simp add: wf_queue_def)
    then show ?thesis using q'(3,4,8) by simp
  qed
  ultimately have "wf_queue weigh q'"
    using wf held cons by (simp add: wf_queue_def q'(6,8,9))
  then show ?thesis
    using q' c cons held wf by (auto simp: wf_queue_def)
qed

section \<open>Reservations\<close>

lemma map_filter_middle:
  "List.map_filter f (us @ x # vs) = List.map_filter f us @ (case f x of None \<Rightarrow> [] | Some y \<Rightarrow> [y]) @ List.map_filter f vs"
  by (simp add: map_filter_append map_filter_simps split: option.split)

lemma map_filter_update:
  assumes "h < length xs" "f (xs ! h) = Some y" "f z = None"
  shows "\<exists>us vs. List.map_filter f xs = us @ y # vs \<and> List.map_filter f (xs[h := z]) = us @ vs"
proof -
  have "List.map_filter f (take h xs @ xs ! h # drop (Suc h) xs) = List.map_filter f (take h xs) @ y # List.map_filter f (drop (Suc h) xs)"
    unfolding map_filter_middle using assms(2) by simp
  moreover have "List.map_filter f (xs[h := z]) = List.map_filter f (take h xs) @ List.map_filter f (drop (Suc h) xs)"
    unfolding upd_conv_take_nth_drop [OF assms(1)] map_filter_middle using assms(3) by simp
  ultimately show ?thesis using id_take_nth_drop [OF assms(1)] by metis
qed

lemma usable_permit:
  assumes wf: "wf_queue weigh q" and u: "usable q h"
  obtains r us vs where "res_permit (q_handles q ! h) = Some r" "r \<in> set (held q)"
    "active_permits (q_handles q) = us @ r # vs" "active_permits ((q_handles q)[h := spent]) = us @ vs"
    "0 < q_reservations q"
proof -
  obtain r where r: "res_permit (q_handles q ! h) = Some r" "res_active (q_handles q ! h)" "h < length (q_handles q)"
    using u by (auto simp: usable_def)
  then obtain us vs where uv: "active_permits (q_handles q) = us @ r # vs" "active_permits ((q_handles q)[h := spent]) = us @ vs"
    using map_filter_update [of h "q_handles q" "\<lambda>r. if res_active r then res_permit r else None" r spent]
    unfolding active_permits_def by (auto simp: spent_def)
  then have "0 < q_reservations q" "r \<in> set (held q)" using wf by (auto simp: wf_queue_def held_def)
  then show thesis using r uv that by blast
qed

lemma handles_spent:
  "\<forall>r \<in> set hs. res_active r \<longleftrightarrow> res_permit r \<noteq> None \<Longrightarrow> \<forall>r \<in> set (hs[h := spent]). res_active r \<longleftrightarrow> res_permit r \<noteq> None"
  using set_update_subset_insert [of hs h spent] by (auto simp: spent_def)

lemma tryReserveCapacity_ok:
  assumes wf: "wf_queue weigh q" and res: "tryReserveCapacity q w = (q', Inr h)"
  shows "wf_queue weigh q' \<and> contents q' = contents q \<and> usable q' h \<and> h = length (q_handles q)
    \<and> q_reservations q' = q_reservations q + 1 \<and> q_stopped q' = q_stopped q
    \<and> length (q_storage q') = length (q_storage q)
    \<and> (\<exists>r. res_permit (q_handles q' ! h) = Some r \<and> live (q_budget q) r = None
        \<and> live (q_budget q') = (live (q_budget q))(r \<mapsto> w))
    \<and> bud_capacity (q_budget q') = bud_capacity (q_budget q) \<and> spares q q'"
proof -
  obtain b r where acq: "tryAcquire (q_budget q) w = (b, Inr r)"
    and q': "q' = q\<lparr>q_budget := b, q_reservations := q_reservations q + 1, q_stateWake := True,
        q_handles := q_handles q @ [\<lparr>res_permit = Some r, res_active = True\<rparr>]\<rparr>"
    and h: "h = length (q_handles q)" and room: "q_count q + q_reservations q \<noteq> length (q_storage q)"
    using res by (auto simp: tryReserveCapacity_def split: if_splits prod.splits sum.splits)
  note ready = wf_after_acquire [OF wf acq]
  have same: "contents q' = contents q" by (simp add: q')
  have held: "held q' = held q @ [r]"
    by (simp add: held_def q' active_permits_def map_filter_append map_filter_simps)
  have "wf_queue weigh q'"
    using ready room held same
    by (auto simp: wf_queue_def q' active_permits_def map_filter_append map_filter_simps dom_def)
  moreover have "live (q_budget q) r = None" "bud_capacity b = bud_capacity (q_budget q)"
    using wf tryAcquire_ok [of "q_budget q" w b r] acq by (auto simp: wf_queue_def)
  moreover from this(1) have "spares q q'"
    using ready(3) held by (auto simp: spares_def outside_def) (auto simp: q')
  ultimately show ?thesis
    using same ready(3) by (simp add: q' h usable_def)
qed

text \<open>Giving up one reservation and its permit.\<close>

lemma wf_queue_shrink:
  assumes wf: "wf_queue weigh q" and held: "held q = entry_permits q @ us @ r # vs" "held q' = entry_permits q @ us @ vs"
    and keep: "\<And>s. s \<in> set (held q') \<Longrightarrow> live (q_budget q') s = live (q_budget q) s"
    and same: "contents q' = contents q" "q_storage q' = q_storage q" "q_head q' = q_head q" "q_tail q' = q_tail q" "q_count q' = q_count q"
    and count: "q_reservations q' = length (active_permits (q_handles q'))" "q_reservations q' \<le> q_reservations q"
    and other: "wf_budget (q_budget q')" "\<forall>r \<in> set (q_handles q'). res_active r \<longleftrightarrow> res_permit r \<noteq> None"
  shows "wf_queue weigh q'"
proof -
  have dist: "distinct (held q)" "set (held q) \<subseteq> dom (live (q_budget q))" using wf by (auto simp: wf_queue_def)
  have "charged weigh (q_budget q') c" if "c \<in> set (contents q)" for c
  proof (rule charged_update)
    show "charged weigh (q_budget q) c" using wf that by (simp add: wf_queue_def)
    fix s assume "cell_permit c = Some s"
    then have "s \<in> set (entry_permits q)" by (rule cell_permit_entry [OF that])
    then show "live (q_budget q') s = live (q_budget q) s" by (intro keep) (simp add: held)
  qed
  moreover have "set (held q') \<subseteq> dom (live (q_budget q'))"
    using keep dist(2) held by (fastforce simp: dom_def)
  moreover have "distinct (held q')" using dist(1) held by auto
  ultimately show ?thesis using wf same count other by (simp add: wf_queue_def)
qed

lemma commit_step:
  assumes wf: "wf_queue weigh q" and u: "usable q h" and w: "weigh v = Some w" "0 < w"
    and rep: "budget_replace (q_budget q) (res_permit (q_handles q ! h)) w = (b, Inr r')"
  shows "\<exists>q'. reservation_commit weigh q h v = (q', None) \<and> wf_queue weigh q' \<and> contents q' = contents q @ [Cell v r']
    \<and> \<not> usable q' h \<and> Suc (q_reservations q') = q_reservations q \<and> q_stopped q' = q_stopped q
    \<and> length (q_storage q') = length (q_storage q) \<and> spares q q'"
proof -
  obtain r us vs where r: "res_permit (q_handles q ! h) = Some r" "r \<in> set (held q)"
    "active_permits (q_handles q) = us @ r # vs" "active_permits ((q_handles q)[h := spent]) = us @ vs" "0 < q_reservations q"
    using usable_permit [OF wf u] by blast
  have wfb: "wf_budget (q_budget q)" using wf by (simp add: wf_queue_def)
  note ok = replace_ok [OF wfb rep [unfolded r(1)]]
  let ?q = "q\<lparr>q_budget := b, q_reservations := q_reservations q - 1, q_handles := (q_handles q)[h := spent]\<rparr>"
  have "q_count q + q_reservations q \<le> length (q_storage q)" using wf by (simp add: wf_queue_def)
  then have room: "q_count q + (q_reservations q - 1) < length (q_storage q)" using r(5) by linarith
  have parts: "held q = entry_permits q @ us @ r # vs" "held ?q = entry_permits q @ us @ vs"
    using r(3,4) by (simp_all add: held_def)
  have fresh: "r' \<notin> set (held q)" using held_live [OF wf, of r'] ok by auto
  have dist: "distinct (held q)" using wf by (simp add: wf_queue_def)
  have keep: "live (q_budget ?q) s = live (q_budget q) s" if "s \<in> set (held ?q)" for s
    using that parts dist fresh ok by auto
  have wfq: "wf_queue weigh ?q"
    by (rule wf_queue_shrink [OF wf parts keep]) (use wf r ok handles_spent in \<open>auto simp: wf_queue_def\<close>)
  have "reservation_commit weigh q h v = (enqueue v r' ?q, None)"
    using u w r(1,5) rep room by (simp add: reservation_commit_def enqueue_def)
  moreover have "wf_queue weigh (enqueue v r' ?q)"
    by (rule wf_queue_enqueue [OF wfq, where w = w]) (use room w ok fresh parts in auto)
  moreover have "contents (enqueue v r' ?q) = contents q @ [Cell v r']"
    using contents_enqueue [OF wfq] room by simp
  moreover have "\<not> usable (enqueue v r' ?q) h"
    by (cases "h < length (q_handles q)") (simp_all add: usable_def spent_def)
  moreover have "set (held (enqueue v r' ?q)) = insert r' (set (held ?q))"
    using entry_permits_enqueue [OF wfq] room by (auto simp: held_def)
  then have "spares q (enqueue v r' ?q)"
    using ok parts by (auto simp: spares_def outside_def)
  ultimately show ?thesis using r(5) by auto
qed

text \<open>
  A reservation cannot fail to be used for lack of room: an entry is set aside, and its permit pays for any value
  that weighs no more than what was reserved, even after the queue was stopped.
\<close>

lemma commit_ok:
  assumes wf: "wf_queue weigh q" and u: "usable q h" and w: "weigh v = Some w" "0 < w"
    and paid: "live (q_budget q) (the (res_permit (q_handles q ! h))) = Some w0" "w \<le> w0"
  shows "\<exists>q' r. reservation_commit weigh q h v = (q', None) \<and> wf_queue weigh q' \<and> contents q' = contents q @ [Cell v r]
    \<and> \<not> usable q' h \<and> Suc (q_reservations q') = q_reservations q"
proof -
  obtain r where r: "res_permit (q_handles q ! h) = Some r" using u by (auto simp: usable_def)
  have wfb: "wf_budget (q_budget q)" using wf by (simp add: wf_queue_def)
  have l: "live (q_budget q) r = Some w0" using paid(1) r by simp
  have "w0 \<le> bud_used (q_budget q)" "bud_used (q_budget q) \<le> bud_capacity (q_budget q)"
    using live_le_used [OF wfb l] wfb by (auto simp: wf_budget_def)
  then obtain b r' where "budget_replace (q_budget q) (Some r) w = (b, Inr r')"
    using l w(2) paid(2) by (fastforce simp: replace_eq_Inr)
  then show ?thesis using commit_step [OF wf u w] r by fastforce
qed

lemma release_reservation_ok:
  assumes wf: "wf_queue weigh q" and u: "usable q h"
  shows "\<exists>q'. reservation_release q h = (q', None) \<and> wf_queue weigh q' \<and> contents q' = contents q \<and> \<not> usable q' h
    \<and> Suc (q_reservations q') = q_reservations q \<and> q_stopped q' = q_stopped q
    \<and> live (q_budget q') = (live (q_budget q))(the (res_permit (q_handles q ! h)) := None)
    \<and> length (q_storage q') = length (q_storage q) \<and> spares q q'"
proof -
  obtain r us vs where r: "res_permit (q_handles q ! h) = Some r" "r \<in> set (held q)"
    "active_permits (q_handles q) = us @ r # vs" "active_permits ((q_handles q)[h := spent]) = us @ vs" "0 < q_reservations q"
    using usable_permit [OF wf u] by blast
  have wfb: "wf_budget (q_budget q)" using wf by (simp add: wf_queue_def)
  obtain w where l: "live (q_budget q) r = Some w" using held_live [OF wf r(2)] by auto
  obtain b where rel: "permit_Release (q_budget q) (Some r) = (b, None)"
    using Release_live [OF wfb l] by (cases "permit_Release (q_budget q) (Some r)") auto
  note ok = Release_ok [OF wfb rel]
  let ?q = "q\<lparr>q_reservations := q_reservations q - 1, q_handles := (q_handles q)[h := spent], q_spaceWake := True,
    q_notEmptyWake := True, q_stateWake := True, q_budget := b\<rparr>"
  have parts: "held q = entry_permits q @ us @ r # vs" "held ?q = entry_permits q @ us @ vs"
    using r(3,4) by (simp_all add: held_def)
  have dist: "distinct (held q)" using wf by (simp add: wf_queue_def)
  have keep: "live (q_budget ?q) s = live (q_budget q) s" if "s \<in> set (held ?q)" for s
    using that parts dist ok by auto
  have "wf_queue weigh ?q"
    by (rule wf_queue_shrink [OF wf parts keep]) (use wf r ok handles_spent in \<open>auto simp: wf_queue_def\<close>)
  moreover have "reservation_release q h = (?q, None)"
    using u r(1,5) rel by (simp add: reservation_release_def)
  moreover have "\<not> usable ?q h"
    by (cases "h < length (q_handles q)") (simp_all add: usable_def spent_def)
  moreover have "spares q ?q" using ok parts by (auto simp: spares_def outside_def)
  ultimately show ?thesis using r(1,5) ok by auto
qed

lemma Close_ok:
  "wf_queue weigh q \<Longrightarrow> wf_queue weigh (queue_Close q) \<and> contents (queue_Close q) = contents q \<and> q_stopped (queue_Close q)
     \<and> q_budget (queue_Close q) = q_budget q \<and> length (q_storage (queue_Close q)) = length (q_storage q)"
  by (auto simp: queue_Close_def wf_queue_def held_def)

text \<open>A consumer gives back the permit of a value it took: it is none of the queue's own.\<close>

lemma lease_Release_ok:
  assumes wf: "wf_queue weigh q" and r: "live (q_budget q) r \<noteq> None" "r \<notin> set (held q)"
  defines "q' \<equiv> q\<lparr>q_budget := fst (permit_Release (q_budget q) (Some r))\<rparr>"
  shows "wf_queue weigh q'" "contents q' = contents q" "live (q_budget q') = (live (q_budget q))(r := None)"
    "bud_capacity (q_budget q') = bud_capacity (q_budget q)"
proof -
  have wfb: "wf_budget (q_budget q)" using wf by (simp add: wf_queue_def)
  obtain b where rel: "permit_Release (q_budget q) (Some r) = (b, None)"
    using Release_live [OF wfb, of r] r(1) by (cases "permit_Release (q_budget q) (Some r)") auto
  note ok = Release_ok [OF wfb rel]
  show "contents q' = contents q" "live (q_budget q') = (live (q_budget q))(r := None)"
    "bud_capacity (q_budget q') = bud_capacity (q_budget q)" using ok by (simp_all add: q'_def rel)
  show "wf_queue weigh q'" unfolding q'_def rel fst_conv
    by (rule wf_queue_budget [OF wf]) (use ok r(2) in auto)
qed

declare drain_from.simps [simp del]

text \<open>Draining empties the queue and gives every entry's bytes back; only reservations and leases stay charged.\<close>

lemma drain_from_ok:
  "wf_queue weigh q \<Longrightarrow> \<exists>q'. drain_from n q = (q', n + q_count q) \<and> wf_queue weigh q' \<and> contents q' = []
     \<and> q_handles q' = q_handles q \<and> q_stopped q' = q_stopped q
     \<and> live (q_budget q') = (live (q_budget q)) |` (- set (entry_permits q))"
proof (induction "q_count q" arbitrary: n q)
  case 0
  then have "entry_permits q = []" by (simp add: entry_permits_def contents_def ring_def map_filter_simps)
  then show ?case using 0 by (subst drain_from.simps) (simp add: TryTake_def restrict_map_def)
next
  case (Suc k)
  obtain q1 v r where t: "TryTake q = (q1, Some (Cell v r))" "wf_queue weigh q1" "contents q = Cell v r # contents q1"
    "weigh v \<noteq> None" "live (q_budget q) r = weigh v" "r \<notin> set (held q1)" "q_budget q1 = q_budget q"
    "q_stopped q1 = q_stopped q" "q_handles q1 = q_handles q"
    using TryTake_cases [OF Suc.prems] Suc.hyps(2) by auto
  let ?q2 = "q1\<lparr>q_budget := fst (permit_Release (q_budget q1) (Some r))\<rparr>"
  have lv: "live (q_budget q1) r \<noteq> None" using t by simp
  note rel = lease_Release_ok [OF t(2) lv t(6)]
  have cnt: "k = q_count ?q2" using Suc.hyps(2) arg_cong [OF t(3), of length] by simp
  have ep: "entry_permits q = r # entry_permits q1"
    by (simp add: entry_permits_def t(3) map_filter_simps cell_permit_def)
  obtain q' where q': "drain_from (n + 1) ?q2 = (q', n + 1 + q_count ?q2)" "wf_queue weigh q'" "contents q' = []"
    "q_handles q' = q_handles ?q2" "q_stopped q' = q_stopped ?q2"
    "live (q_budget q') = (live (q_budget ?q2)) |` (- set (entry_permits ?q2))"
    using Suc.hyps(1) [OF cnt rel(1), of "n + 1"] by blast
  have "drain_from n q = drain_from (n + 1) ?q2"
    by (subst drain_from.simps) (simp add: t(1) cell_permit_def)
  moreover have "live (q_budget q') = (live (q_budget q)) |` (- set (entry_permits q))"
  proof -
    have "live (q_budget ?q2) = (live (q_budget q))(r := None)" using rel(3) by (simp only: t(7))
    then show ?thesis unfolding q'(6) ep by (auto simp: restrict_map_def fun_eq_iff)
  qed
  ultimately show ?case using q' t cnt Suc.hyps(2) by (intro exI [of _ q']) simp
qed

section \<open>Every interleaving of the operations is a bounded FIFO\<close>

text \<open>
  What a client of a queue relies on, whatever operations it has: each step moves values in at the
  back and out at the front, and the queue never holds more than its room.
\<close>

locale fifo =
  fixes items :: "'s \<Rightarrow> 'a list" and ok :: "'s \<Rightarrow> bool" and room :: "'s \<Rightarrow> nat"
    and step :: "'op \<Rightarrow> 's \<Rightarrow> 's" and accepted :: "'op \<Rightarrow> 's \<Rightarrow> 'a list" and delivered :: "'op \<Rightarrow> 's \<Rightarrow> 'a list"
  assumes step_ok: "ok s \<Longrightarrow> ok (step op s)"
    and step_items: "ok s \<Longrightarrow> delivered op s @ items (step op s) = items s @ accepted op s"
    and step_room: "ok s \<Longrightarrow> room (step op s) = room s"
    and items_room: "ok s \<Longrightarrow> length (items s) \<le> room s"
begin

fun run :: "'op list \<Rightarrow> 's \<Rightarrow> 's \<times> 'a list \<times> 'a list" where
  "run [] s = (s, [], [])"
| "run (op # ops) s =
     (let (s', ins, outs) = run ops (step op s) in (s', accepted op s @ ins, delivered op s @ outs))"

lemma run_fifo: "ok s \<Longrightarrow> run ops s = (s', ins, outs) \<Longrightarrow>
    ok s' \<and> outs @ items s' = items s @ ins \<and> room s' = room s \<and> length (items s') \<le> room s"
proof (induction ops arbitrary: s ins outs)
  case (Cons op ops)
  obtain ins' outs' where r: "run ops (step op s) = (s', ins', outs')"
    using Cons.prems(2) by (auto split: prod.splits)
  then have io: "ins = accepted op s @ ins'" "outs = delivered op s @ outs'" using Cons.prems(2) by simp_all
  note IH = Cons.IH [OF step_ok [OF Cons.prems(1)] r]
  have "outs @ items s' = delivered op s @ (items (step op s) @ ins')" using IH io by simp
  also have "\<dots> = items s @ ins" using step_items [OF Cons.prems(1), of op] io by simp
  finally show ?case using IH step_room [OF Cons.prems(1)] by simp
qed (simp add: items_room)

lemma delivered_in_order: "ok s \<Longrightarrow> items s = [] \<Longrightarrow> run ops s = (s', ins, outs) \<Longrightarrow> outs = take (length outs) ins"
  using run_fifo [of s ops s' ins outs] by (metis append_eq_conv_conj append_Nil)

end

datatype 'a queue_op =
    OpPut 'a | OpTake | OpReserve int | OpCommit nat 'a | OpCancel nat | OpClose | OpDone nat

text \<open>
  The queue with the leases its consumers hold. \<open>OpDone i\<close> releases the \<open>i\<close>-th lease; the other operations are
  calls of the queue's methods, in any order and with any arguments.
\<close>

type_synonym 'a queue_system = "'a bqueue \<times> permit_ref list"

fun queue_step :: "('a \<Rightarrow> int option) \<Rightarrow> 'a queue_op \<Rightarrow> 'a queue_system \<Rightarrow> 'a queue_system" where
  "queue_step weigh (OpPut v) (q, ls) = (fst (TryPut weigh q v), ls)"
| "queue_step weigh OpTake (q, ls) =
     (case TryTake q of (q', Some (Cell v r)) \<Rightarrow> (q', r # ls) | (q', _) \<Rightarrow> (q', ls))"
| "queue_step weigh (OpReserve w) (q, ls) = (fst (tryReserveCapacity q w), ls)"
| "queue_step weigh (OpCommit h v) (q, ls) = (fst (reservation_commit weigh q h v), ls)"
| "queue_step weigh (OpCancel h) (q, ls) = (fst (reservation_release q h), ls)"
| "queue_step weigh OpClose (q, ls) = (queue_Close q, ls)"
| "queue_step weigh (OpDone i) (q, ls) =
     (if i < length ls then (q\<lparr>q_budget := fst (permit_Release (q_budget q) (Some (ls ! i)))\<rparr>, take i ls @ drop (Suc i) ls)
      else (q, ls))"

fun queue_accepted :: "('a \<Rightarrow> int option) \<Rightarrow> 'a queue_op \<Rightarrow> 'a queue_system \<Rightarrow> 'a list" where
  "queue_accepted weigh (OpPut v) (q, ls) = (if snd (TryPut weigh q v) = None then [v] else [])"
| "queue_accepted weigh (OpCommit h v) (q, ls) = (if snd (reservation_commit weigh q h v) = None then [v] else [])"
| "queue_accepted weigh op (q, ls) = []"

fun queue_delivered :: "'a queue_op \<Rightarrow> 'a queue_system \<Rightarrow> 'a list" where
  "queue_delivered OpTake (q, ls) = (case snd (TryTake q) of Some (Cell v r) \<Rightarrow> [v] | _ \<Rightarrow> [])"
| "queue_delivered op (q, ls) = []"

definition queue_values :: "'a bqueue \<Rightarrow> 'a list" where
  "queue_values q = List.map_filter cell_value (contents q)"

definition system_ok :: "('a \<Rightarrow> int option) \<Rightarrow> 'a queue_system \<Rightarrow> bool" where
  "system_ok weigh s \<longleftrightarrow> wf_queue weigh (fst s) \<and> distinct (snd s) \<and> (\<forall>r \<in> set (snd s). outside (fst s) r)"

lemma system_spares:
  "system_ok weigh (q, ls) \<Longrightarrow> spares q q' \<Longrightarrow> wf_queue weigh q' \<Longrightarrow> system_ok weigh (q', ls)"
  by (auto simp: system_ok_def spares_def)

lemma queue_values_Cons: "contents q = Cell v r # contents q' \<Longrightarrow> queue_values q = v # queue_values q'"
  by (simp add: queue_values_def map_filter_simps cell_value_def)

lemma queue_values_snoc: "contents q' = contents q @ [Cell v r] \<Longrightarrow> queue_values q' = queue_values q @ [v]"
  by (simp add: queue_values_def map_filter_append map_filter_simps cell_value_def)

lemma queue_values_same: "contents q' = contents q \<Longrightarrow> queue_values q' = queue_values q"
  by (simp add: queue_values_def)

lemma length_queue_values: "wf_queue weigh q \<Longrightarrow> length (queue_values q) = q_count q"
proof -
  assume wf: "wf_queue weigh q"
  have "length (List.map_filter cell_value cs) = length cs" if "\<forall>c \<in> set cs. charged weigh (q_budget q) c" for cs
    using that by (induction cs) (auto simp: map_filter_simps charged_def cell_value_def split: cell.splits)
  then show ?thesis using wf by (simp add: queue_values_def wf_queue_def)
qed

lemma reserve_fails: "tryReserveCapacity q w = (q', Inl e) \<Longrightarrow> q' = q"
  by (auto simp: tryReserveCapacity_def dest: tryAcquire_fails split: if_splits prod.splits sum.splits)

lemma commit_cases:
  assumes "wf_queue weigh q"
  shows "(\<exists>e. reservation_commit weigh q h v = (q, Some e)) \<or>
    (\<exists>w b r'. usable q h \<and> weigh v = Some w \<and> 0 < w \<and> budget_replace (q_budget q) (res_permit (q_handles q ! h)) w = (b, Inr r'))"
  by (auto simp: reservation_commit_def dest: replace_fails split: option.split prod.split sum.split)

text \<open>One step of the system, described by what it leaves behind.\<close>

lemma queue_step_ok:
  assumes ok: "system_ok weigh (q, ls)" and s': "queue_step weigh op (q, ls) = (q', ls')"
  shows "system_ok weigh (q', ls') \<and> queue_delivered op (q, ls) @ queue_values q' = queue_values q @ queue_accepted weigh op (q, ls)
    \<and> length (q_storage q') = length (q_storage q)"
proof -
  have wf: "wf_queue weigh q" using ok by (simp add: system_ok_def)
  show ?thesis
  proof (cases op)
    case (OpPut v)
    show ?thesis
    proof (cases "admits weigh q v")
      case True
      then obtain q1 r where t: "TryPut weigh q v = (q1, None)" "wf_queue weigh q1" "contents q1 = contents q @ [Cell v r]"
        "length (q_storage q1) = length (q_storage q)" "spares q q1"
        using TryPut_cases [OF wf, of v] by auto
      then show ?thesis using s' system_spares [OF ok t(5,2)] queue_values_snoc [OF t(3)] by (simp add: OpPut)
    next
      case False
      then obtain q1 e where t: "TryPut weigh q v = (q1, Some e)" "wf_queue weigh q1" "same_queue q q1"
        using TryPut_cases [OF wf, of v] by auto
      then show ?thesis using s' system_spares [OF ok same_queue_spares [OF t(3)] t(2)]
        by (simp add: OpPut same_queue_def queue_values_def)
    qed
  next
    case OpTake
    show ?thesis
    proof (cases "q_count q = 0")
      case True
      then show ?thesis using s' ok by (simp add: OpTake TryTake_def)
    next
      case False
      obtain q1 v r where t: "TryTake q = (q1, Some (Cell v r))" "wf_queue weigh q1" "contents q = Cell v r # contents q1"
        "weigh v \<noteq> None" "live (q_budget q) r = weigh v" "r \<notin> set (held q1)" "q_budget q1 = q_budget q"
        "length (q_storage q1) = length (q_storage q)" "set (held q) = insert r (set (held q1))"
        using TryTake_cases [OF wf False] by blast
      have "q' = q1" "ls' = r # ls" using s' t(1) by (simp_all add: OpTake)
      moreover have "system_ok weigh (q1, r # ls)"
        using ok t by (auto simp: system_ok_def outside_def)
      ultimately show ?thesis using t queue_values_Cons [OF t(3)] by (simp add: OpTake)
    qed
  next
    case (OpReserve w)
    show ?thesis
    proof (cases "tryReserveCapacity q w")
      case (Pair q1 res)
      then have q1: "q1 = q'" "ls' = ls" using s' by (simp_all add: OpReserve)
      show ?thesis
      proof (cases res)
        case (Inl e)
        then have "q1 = q" using reserve_fails Pair by simp
        then show ?thesis using q1 ok by (simp add: OpReserve)
      next
        case (Inr h)
        then show ?thesis using tryReserveCapacity_ok [OF wf Pair [unfolded Inr]] q1 ok
          by (auto simp: OpReserve queue_values_def intro: system_spares)
      qed
    qed
  next
    case (OpCommit h v)
    consider e where "reservation_commit weigh q h v = (q, Some e)"
      | w b r' where "usable q h" "weigh v = Some w" "0 < w" "budget_replace (q_budget q) (res_permit (q_handles q ! h)) w = (b, Inr r')"
      using commit_cases [OF wf, of h v] by blast
    then show ?thesis
    proof cases
      case 1
      then show ?thesis using s' ok by (simp add: OpCommit)
    next
      case 2
      obtain q1 where t: "reservation_commit weigh q h v = (q1, None)" "wf_queue weigh q1" "contents q1 = contents q @ [Cell v r']"
        "length (q_storage q1) = length (q_storage q)" "spares q q1"
        using commit_step [OF wf 2] by auto
      then show ?thesis using s' system_spares [OF ok t(5,2)] queue_values_snoc [OF t(3)] by (simp add: OpCommit)
    qed
  next
    case (OpCancel h)
    show ?thesis
    proof (cases "usable q h")
      case True
      then show ?thesis using release_reservation_ok [OF wf True] s' ok
        by (auto simp: OpCancel queue_values_def intro: system_spares)
    next
      case False
      then show ?thesis using s' ok by (simp add: OpCancel reservation_release_def)
    qed
  next
    case OpClose
    have "held (queue_Close q) = held q" by (simp add: queue_Close_def held_def)
    then have "spares q (queue_Close q)" using Close_ok [OF wf] by (simp add: spares_def outside_def)
    then show ?thesis using Close_ok [OF wf] s' ok
      by (auto simp: OpClose queue_values_def intro: system_spares)
  next
    case (OpDone i)
    show ?thesis
    proof (cases "i < length ls")
      case True
      let ?r = "ls ! i"
      have "outside q ?r" using ok True by (simp add: system_ok_def)
      then have r: "live (q_budget q) ?r \<noteq> None" "?r \<notin> set (held q)" by (auto simp: outside_def)
      note rel = lease_Release_ok [OF wf r]
      have ls: "distinct (take i ls @ ?r # drop (Suc i) ls)" "set (take i ls @ ?r # drop (Suc i) ls) = set ls"
        using ok id_take_nth_drop [OF True] by (simp_all add: system_ok_def)
      have "outside (q\<lparr>q_budget := fst (permit_Release (q_budget q) (Some ?r))\<rparr>) s" if "s \<in> set (take i ls @ drop (Suc i) ls)" for s
      proof -
        have "s \<noteq> ?r" "s \<in> set ls" using ls that by auto
        then have "outside q s" using ok by (simp add: system_ok_def)
        then show ?thesis using \<open>s \<noteq> ?r\<close> rel(3) by (simp add: outside_def)
      qed
      then have "system_ok weigh (q\<lparr>q_budget := fst (permit_Release (q_budget q) (Some ?r))\<rparr>, take i ls @ drop (Suc i) ls)"
        using rel(1) ls(1) by (simp add: system_ok_def)
      then show ?thesis using s' True by (auto simp: OpDone queue_values_def)
    next
      case False
      then show ?thesis using s' ok by (simp add: OpDone)
    qed
  qed
qed

interpretation bounded_fifo:
  fifo "\<lambda>s. queue_values (fst s)" "system_ok weigh" "\<lambda>s. length (q_storage (fst s))" "queue_step weigh"
    "queue_accepted weigh" queue_delivered
  for weigh :: "'a \<Rightarrow> int option"
proof (unfold_locales, goal_cases)
  case (1 s op)
  then show ?case using queue_step_ok [of weigh "fst s" "snd s" op] by (metis prod.collapse)
next
  case (2 s op)
  then show ?case using queue_step_ok [of weigh "fst s" "snd s" op] by (metis prod.collapse)
next
  case (3 s op)
  then show ?case using queue_step_ok [of weigh "fst s" "snd s" op] by (metis prod.collapse)
next
  case (4 s)
  then have "wf_queue weigh (fst s)" by (simp add: system_ok_def)
  then show ?case by (simp add: length_queue_values) (simp add: wf_queue_def)
qed

lemma queue_values_Nil: "q_count q = 0 \<Longrightarrow> queue_values q = []"
  unfolding queue_values_def by (simp flip: contents_Nil add: map_filter_simps)

section \<open>Properties\<close>

text \<open>C5: Whatever puts, takes, reservations, commits, cancellations, closes and releases are interleaved on a new queue,
  values come out in the order they were accepted, none is lost or repeated, and the queue never holds more
  entries than it has room for.\<close>

theorem queue_is_bounded_fifo:
  assumes "newByteBudget i c = Inr b" "newBoundedQueue n b = Inr q" "bounded_fifo.run weigh ops (q, []) = ((q', ls), ins, outs)"
  shows "outs @ queue_values q' = ins \<and> len (queue_values q') \<le> n"
proof -
  have q: "wf_queue weigh q \<and> contents q = []" using newByteBudget_wf [OF assms(1)] newBoundedQueue_wf [OF _ assms(2)] by blast
  then have "system_ok weigh (q, [])" "queue_values q = []" by (simp_all add: system_ok_def queue_values_Nil)
  moreover have "int (length (q_storage q)) = n" using assms(2) by (auto simp: newBoundedQueue_def split: if_splits)
  ultimately show ?thesis using bounded_fifo.run_fifo [OF _ assms(3)] by auto
qed

definition sample_queue :: "int bqueue" where
  "sample_queue = (case newByteBudget 0 100 of Inr b \<Rightarrow> (case newBoundedQueue 2 b of Inr q \<Rightarrow> q))"

theorem queue_is_bounded_fifo_witness:
  "\<exists>q' ls. bounded_fifo.run Some [OpPut 30, OpPut 40, OpPut 10, OpTake] (sample_queue, []) = ((q', ls), [30, 40], [30])
    \<and> queue_values q' = [40]"
proof -
  obtain b where b: "newByteBudget 0 100 = Inr b" "newBoundedQueue 2 b = Inr sample_queue"
    by (simp add: sample_queue_def newByteBudget_def newBoundedQueue_def)
  have puts: "queue_accepted Some (OpPut 30) (sample_queue, []) = [30]"
    "queue_accepted Some (OpPut 40) (queue_step Some (OpPut 30) (sample_queue, [])) = [40]"
    "queue_accepted Some (OpPut 10) (queue_step Some (OpPut 40) (queue_step Some (OpPut 30) (sample_queue, []))) = []"
    "queue_delivered OpTake (queue_step Some (OpPut 10) (queue_step Some (OpPut 40) (queue_step Some (OpPut 30) (sample_queue, [])))) = [30]"
    by code_simp+
  have other: "queue_accepted Some OpTake s = []" "queue_delivered (OpPut v) s = []" for s :: "int queue_system" and v
    by (cases s; simp)+
  have "\<exists>q' ls. bounded_fifo.run Some [OpPut 30, OpPut 40, OpPut 10, OpTake] (sample_queue, []) = ((q', ls), [30, 40], [30])"
    using puts other by (simp del: queue_step.simps queue_accepted.simps queue_delivered.simps)
  then obtain q' ls where r: "bounded_fifo.run Some [OpPut 30, OpPut 40, OpPut 10, OpTake] (sample_queue, []) = ((q', ls), [30, 40], [30])"
    by blast
  from queue_is_bounded_fifo [OF b r] show ?thesis using r by auto
qed

lemma contents_weight:
  assumes "wf_queue weigh q"
  shows "(\<Sum>v\<leftarrow>queue_values q. the (weigh v)) = (\<Sum>r \<in> set (entry_permits q). the (live (q_budget q) r))"
proof -
  have "(\<Sum>v\<leftarrow>List.map_filter cell_value cs. the (weigh v)) = (\<Sum>r\<leftarrow>List.map_filter cell_permit cs. the (live (q_budget q) r))"
    if "\<forall>c \<in> set cs. charged weigh (q_budget q) c" for cs
    using that by (induction cs) (auto simp: map_filter_simps charged_def cell_value_def cell_permit_def split: cell.splits)
  then have "(\<Sum>v\<leftarrow>queue_values q. the (weigh v)) = (\<Sum>r\<leftarrow>entry_permits q. the (live (q_budget q) r))"
    using assms by (simp add: queue_values_def entry_permits_def wf_queue_def)
  moreover have "distinct (entry_permits q)" using assms by (simp add: wf_queue_def held_def)
  ultimately show ?thesis by (simp add: sum_list_distinct_conv_sum_set)
qed





text \<open>Draining a queue empties it, reports how many entries it dropped and gives back the bytes of exactly those
  entries, whatever else is live in the budget.\<close>

theorem drain_returns_bytes:
  assumes "wf_queue weigh q" "drainAndRelease q = (q', n)"
  shows "n = length (queue_values q) \<and> queue_values q' = [] \<and> wf_queue weigh q'
    \<and> live (q_budget q') = (live (q_budget q)) |` (- set (entry_permits q))
    \<and> bud_used (q_budget q') = bud_used (q_budget q) - (\<Sum>v\<leftarrow>queue_values q. the (weigh v))"
proof -
  obtain q2 where d: "drain_from 0 q = (q2, q_count q)" "wf_queue weigh q2" "contents q2 = []"
    "live (q_budget q2) = (live (q_budget q)) |` (- set (entry_permits q))"
    using drain_from_ok [OF assms(1), of 0] by auto
  then have q': "q2 = q'" "n = q_count q" using assms(2) by (simp_all add: drainAndRelease_def)
  let ?w = "\<lambda>r. the (live (q_budget q) r)"
  let ?D = "dom (live (q_budget q))" and ?E = "set (entry_permits q)"
  have b: "wf_budget (q_budget q)" "wf_budget (q_budget q')" using assms(1) d(2) q' by (simp_all add: wf_queue_def)
  have sub: "?E \<subseteq> ?D" using assms(1) by (auto simp: wf_queue_def held_def)
  have "bud_used (q_budget q') = (\<Sum>r \<in> ?D - ?E. ?w r)"
    using byte_budget.used_sum [OF b(2)] d(4) q'(1) by (auto simp: Diff_eq intro!: sum.cong)
  also have "\<dots> = (\<Sum>r \<in> ?D. ?w r) - (\<Sum>r \<in> ?E. ?w r)"
    using byte_budget.used_sum [OF b(1)] sub by (intro sum_diff) simp_all
  also have "\<dots> = bud_used (q_budget q) - (\<Sum>v\<leftarrow>queue_values q. the (weigh v))"
    using byte_budget.used_sum [OF b(1)] contents_weight [OF assms(1)] by simp
  finally show ?thesis using d q' length_queue_values [OF assms(1)] by (simp add: queue_values_Nil)
qed

theorem drain_returns_bytes_witness:
  "\<exists>b q q1. newByteBudget 0 100 = Inr b \<and> newBoundedQueue 2 b = Inr q \<and> TryPut Some q (70 :: int) = (q1, None)
     \<and> snd (drainAndRelease q1) = 1 \<and> bud_used (q_budget (fst (drainAndRelease q1))) = bud_used (q_budget q1) - 70"
proof -
  obtain b where b: "newByteBudget 0 100 = Inr b" by (simp add: newByteBudget_def)
  obtain q :: "int bqueue" where q: "newBoundedQueue 2 b = Inr q" by (simp add: newBoundedQueue_def)
  have wf: "wf_queue Some q" "contents q = []" using newByteBudget_wf [OF b] newBoundedQueue_wf [OF _ q] by blast+
  have "admits Some q 70" using b q by (auto simp: admits_def newByteBudget_def newBoundedQueue_def)
  then obtain q1 r where p: "TryPut Some q 70 = (q1, None)" "wf_queue Some q1" "contents q1 = contents q @ [Cell 70 r]"
    using TryPut_cases [OF wf(1), of 70] by auto
  then have "queue_values q1 = queue_values q @ [70]" by (intro queue_values_snoc)
  then have "queue_values q1 = [70]" using wf(2) by (simp add: queue_values_Nil)
  then show ?thesis using drain_returns_bytes [OF p(2), of "fst (drainAndRelease q1)" "snd (drainAndRelease q1)"] b q p(1) by auto
qed

end
