(* ===== verification/Mailbox.thy ===== *)
theory Mailbox
  imports Queue
begin

text \<open>
  The fixed mailbox of \<open>internal/service/mailbox.go\<close>: one slot per key, a later value replaces the undelivered
  one and trades its permit in. \<open>index\<close> is the Go map from keys to positions; a slot's zero value is
  \<open>None\<close>. As for queues, the budget is the mailbox's own and \<open>weigh\<close> is a parameter.
\<close>

record 'v slot =
  slot_value :: "'v option"
  slot_permit :: "permit_ref option"
  slot_version :: "64 word"
  slot_dirty :: bool

record ('k, 'v) mailbox =
  mb_keys :: "'k list"
  mb_index :: "'k \<Rightarrow> nat option"
  mb_slots :: "'v slot list"
  mb_budget :: budget
  mb_stopped :: bool
  mb_wake :: bool

definition zero_slot :: "'v slot" where
  "zero_slot = \<lparr>slot_value = None, slot_permit = None, slot_version = 0, slot_dirty = False\<rparr>"

fun build_index :: "nat \<Rightarrow> 'k list \<Rightarrow> ('k \<Rightarrow> nat option) \<Rightarrow> service_error + ('k \<Rightarrow> nat option)" where
  "build_index position [] index = Inr index"
| "build_index position (key # keys) index =
     (if index key \<noteq> None then Inl UnknownMailboxKey
      else build_index (position + 1) keys (index(key \<mapsto> position)))"

definition newFixedMailbox :: "'k list \<Rightarrow> budget \<Rightarrow> service_error + ('k, 'v) mailbox" where
  "newFixedMailbox keys b =
     (if keys = [] then Inl InvalidWeight
      else
        on_ok (build_index 0 keys (\<lambda>_. None)) (\<lambda>index.
        Inr \<lparr>mb_keys = keys, mb_index = index, mb_slots = replicate (length keys) zero_slot, mb_budget = b,
          mb_stopped = False, mb_wake = False\<rparr>))"

text \<open>\<open>slot.version++\<close> stops at the largest \<open>uint64\<close>.\<close>

definition next_version :: "64 word \<Rightarrow> 64 word" where
  "next_version v = (if v < -1 then v + 1 else v)"

definition mailbox_Replace :: "('v \<Rightarrow> int option) \<Rightarrow> ('k, 'v) mailbox \<Rightarrow> 'k \<Rightarrow> 'v \<Rightarrow> ('k, 'v) mailbox \<times> service_error option" where
  "mailbox_Replace weigh mb key val =
     (case mb_index mb key of
        None \<Rightarrow> (mb, Some UnknownMailboxKey)
      | Some position \<Rightarrow>
          if mb_stopped mb then (mb, Some QueueStopped)
          else case weigh val of
            None \<Rightarrow> (mb, Some InvalidWeight)
          | Some w \<Rightarrow>
              if w \<le> 0 then (mb, Some InvalidWeight)
              else
                let slot = mb_slots mb ! position;
                    (b, owned) = (if slot_permit slot = None then tryAcquire (mb_budget mb) w
                                  else budget_replace (mb_budget mb) (slot_permit slot) w)
                in case owned of
                  Inl e \<Rightarrow> (mb\<lparr>mb_budget := b\<rparr>, Some e)
                | Inr r \<Rightarrow>
                    (mb\<lparr>mb_budget := b, mb_wake := True,
                       mb_slots := (mb_slots mb)[position := \<lparr>slot_value = Some val, slot_permit = Some r,
                         slot_version = next_version (slot_version slot), slot_dirty = True\<rparr>]\<rparr>, None))"

definition ready_slot :: "'v slot \<Rightarrow> bool" where
  "ready_slot s \<longleftrightarrow> slot_dirty s \<and> slot_permit s \<noteq> None"

fun first_ready :: "nat \<Rightarrow> 'v slot list \<Rightarrow> nat option" where
  "first_ready position [] = None"
| "first_ready position (s # ss) = (if ready_slot s then Some position else first_ready (position + 1) ss)"

definition emptied :: "'v slot \<Rightarrow> 'v slot" where
  "emptied s = s\<lparr>slot_value := None, slot_permit := None, slot_dirty := False\<rparr>"

definition mailbox_TakeDirty :: "('k, 'v) mailbox \<Rightarrow> ('k, 'v) mailbox \<times> ('k \<times> 'v option \<times> permit_ref option \<times> 64 word) option" where
  "mailbox_TakeDirty mb =
     (case first_ready 0 (mb_slots mb) of
        None \<Rightarrow> (mb, None)
      | Some position \<Rightarrow>
          let slot = mb_slots mb ! position in
          (mb\<lparr>mb_slots := (mb_slots mb)[position := emptied slot]\<rparr>,
           Some (mb_keys mb ! position, slot_value slot, slot_permit slot, slot_version slot)))"

definition mailbox_Close :: "('k, 'v) mailbox \<Rightarrow> ('k, 'v) mailbox" where
  "mailbox_Close mb = (if mb_stopped mb then mb else mb\<lparr>mb_stopped := True, mb_wake := True\<rparr>)"

fun drain_slots :: "budget \<Rightarrow> 'v slot list \<Rightarrow> budget \<times> 'v slot list \<times> nat" where
  "drain_slots b [] = (b, [], 0)"
| "drain_slots b (s # ss) =
     (if slot_permit s = None then (let (b', ss', n) = drain_slots b ss in (b', s # ss', n))
      else (let (b', ss', n) = drain_slots (fst (permit_Release b (slot_permit s))) ss in (b', emptied s # ss', n + 1)))"

definition mailbox_drainAndRelease :: "('k, 'v) mailbox \<Rightarrow> ('k, 'v) mailbox \<times> nat" where
  "mailbox_drainAndRelease mb =
     (let (b, ss, n) = drain_slots (mb_budget mb) (mb_slots mb) in (mb\<lparr>mb_budget := b, mb_slots := ss\<rparr>, n))"

section \<open>A mailbox is a map of pending values\<close>

definition pending :: "('k, 'v) mailbox \<Rightarrow> 'k \<Rightarrow> 'v option" where
  "pending mb k = (case mb_index mb k of None \<Rightarrow> None | Some p \<Rightarrow> slot_value (mb_slots mb ! p))"

definition slot_permits :: "'v slot list \<Rightarrow> permit_ref list" where
  "slot_permits ss = List.map_filter slot_permit ss"

definition wf_slot :: "('v \<Rightarrow> int option) \<Rightarrow> budget \<Rightarrow> 'v slot \<Rightarrow> bool" where
  "wf_slot weigh b s \<longleftrightarrow>
     (case slot_permit s of
        None \<Rightarrow> \<not> slot_dirty s \<and> slot_value s = None
      | Some r \<Rightarrow> slot_dirty s \<and> (\<exists>v w. slot_value s = Some v \<and> weigh v = Some w \<and> live b r = Some w))"

definition wf_mailbox :: "('v \<Rightarrow> int option) \<Rightarrow> ('k, 'v) mailbox \<Rightarrow> bool" where
  "wf_mailbox weigh mb \<longleftrightarrow> distinct (mb_keys mb) \<and> length (mb_slots mb) = length (mb_keys mb)
     \<and> (\<forall>k p. mb_index mb k = Some p \<longleftrightarrow> p < length (mb_keys mb) \<and> mb_keys mb ! p = k)
     \<and> wf_budget (mb_budget mb) \<and> (\<forall>s \<in> set (mb_slots mb). wf_slot weigh (mb_budget mb) s)
     \<and> distinct (slot_permits (mb_slots mb))"

lemma build_index_sound:
  "build_index n keys index = Inr index' \<Longrightarrow> distinct keys \<and> set keys \<inter> dom index = {}
     \<and> (\<forall>k p. index' k = Some p \<longleftrightarrow> index k = Some p \<or> (\<exists>i < length keys. keys ! i = k \<and> p = n + i))"
proof (induction keys arbitrary: n index)
  case (Cons key keys)
  then have new: "index key = None" and rest: "build_index (n + 1) keys (index(key \<mapsto> n)) = Inr index'"
    by (auto split: if_splits)
  note IH = Cons.IH [OF rest]
  have "index' k = Some p \<longleftrightarrow> index k = Some p \<or> (\<exists>i < length (key # keys). (key # keys) ! i = k \<and> p = n + i)" for k p
  proof -
    have "(\<exists>i < length (key # keys). (key # keys) ! i = k \<and> p = n + i) \<longleftrightarrow>
        (key = k \<and> p = n) \<or> (\<exists>i < length keys. keys ! i = k \<and> p = n + 1 + i)"
      by (auto simp: less_Suc_eq_0_disj)
    then show ?thesis using IH new by auto
  qed
  then show ?case using IH new by auto
qed simp

lemma build_index_complete:
  "distinct keys \<Longrightarrow> set keys \<inter> dom index = {} \<Longrightarrow> \<exists>index'. build_index n keys index = Inr index'"
proof (induction keys arbitrary: n index)
  case (Cons key keys)
  then have "\<exists>index'. build_index (n + 1) keys (index(key \<mapsto> n)) = Inr index'" by (intro Cons.IH) (auto simp: disjoint_iff split: if_splits)
  then show ?case using Cons.prems by auto
qed simp

lemma slot_permits_Nil: "slot_permits (replicate n zero_slot) = []"
  by (induction n) (simp_all add: slot_permits_def map_filter_simps zero_slot_def)

lemma newFixedMailbox_wf:
  assumes "wf_budget b" "newFixedMailbox keys b = Inr mb"
  shows "wf_mailbox weigh mb \<and> pending mb = (\<lambda>_. None) \<and> mb_keys mb = keys \<and> mb_budget mb = b"
proof -
  obtain index where i: "build_index 0 keys (\<lambda>_. None) = Inr index" and mb: "mb = \<lparr>mb_keys = keys, mb_index = index,
      mb_slots = replicate (length keys) zero_slot, mb_budget = b, mb_stopped = False, mb_wake = False\<rparr>"
    using assms(2) by (auto simp: newFixedMailbox_def split: if_splits)
  note index = build_index_sound [OF i]
  have "pending mb k = None" for k
    using index by (auto simp: pending_def mb zero_slot_def split: option.split)
  then have "pending mb = (\<lambda>_. None)" by blast
  moreover have "wf_slot weigh b zero_slot" by (simp add: wf_slot_def zero_slot_def)
  ultimately show ?thesis
    using index assms(1) by (auto simp: wf_mailbox_def mb slot_permits_Nil)
qed

lemma wf_slot_budget:
  "wf_slot weigh b s \<Longrightarrow> (\<And>r. slot_permit s = Some r \<Longrightarrow> live b' r = live b r) \<Longrightarrow> wf_slot weigh b' s"
  by (cases "slot_permit s") (auto simp: wf_slot_def)

lemma slot_permit_in: "s \<in> set ss \<Longrightarrow> slot_permit s = Some r \<Longrightarrow> r \<in> set (slot_permits ss)"
  unfolding slot_permits_def by (induction ss) (auto simp: map_filter_simps split: option.split)

lemma slot_permits_live:
  "\<forall>s \<in> set ss. wf_slot weigh b s \<Longrightarrow> r \<in> set (slot_permits ss) \<Longrightarrow> live b r \<noteq> None"
  unfolding slot_permits_def by (induction ss) (auto simp: map_filter_simps wf_slot_def split: option.splits)

lemma slots_split:
  assumes "p < length ss"
  shows "ss = take p ss @ ss ! p # drop (Suc p) ss" "ss[p := x] = take p ss @ x # drop (Suc p) ss"
  using assms by (simp_all add: id_take_nth_drop upd_conv_take_nth_drop)

lemma slot_permits_split:
  assumes "p < length ss"
  shows "slot_permits (ss[p := x]) = slot_permits (take p ss) @ (case slot_permit x of None \<Rightarrow> [] | Some r \<Rightarrow> [r]) @ slot_permits (drop (Suc p) ss)"
  unfolding slots_split(2) [OF assms] slot_permits_def map_filter_middle by (rule refl)

lemma pending_update:
  assumes "wf_mailbox weigh mb" "p < length (mb_keys mb)"
  shows "pending (mb\<lparr>mb_slots := (mb_slots mb)[p := x]\<rparr>) = (pending mb)(mb_keys mb ! p := slot_value x)"
proof
  fix k
  have ix: "\<forall>k p. mb_index mb k = Some p \<longleftrightarrow> p < length (mb_keys mb) \<and> mb_keys mb ! p = k"
    and len: "length (mb_slots mb) = length (mb_keys mb)" and dist: "distinct (mb_keys mb)"
    using assms(1) by (auto simp: wf_mailbox_def)
  show "pending (mb\<lparr>mb_slots := (mb_slots mb)[p := x]\<rparr>) k = ((pending mb)(mb_keys mb ! p := slot_value x)) k"
  proof (cases "k = mb_keys mb ! p")
    case True
    then have "mb_index mb k = Some p" using ix assms(2) by simp
    then show ?thesis using True assms(2) len by (simp add: pending_def)
  next
    case False
    then have "mb_index mb k \<noteq> Some p" using ix by auto
    then show ?thesis using False by (auto simp: pending_def split: option.split)
  qed
qed

text \<open>Replacing one slot by a well-formed one whose permit is fresh or none.\<close>

lemma wf_mailbox_update:
  assumes wf: "wf_mailbox weigh mb" and p: "p < length (mb_keys mb)" and b: "wf_budget b"
    and x: "wf_slot weigh b x" "\<And>r. slot_permit x = Some r \<Longrightarrow> live (mb_budget mb) r = None"
    and keep: "\<And>r. r \<in> set (slot_permits (take p (mb_slots mb)) @ slot_permits (drop (Suc p) (mb_slots mb))) \<Longrightarrow>
      live b r = live (mb_budget mb) r"
  shows "wf_mailbox weigh (mb\<lparr>mb_budget := b, mb_slots := (mb_slots mb)[p := x]\<rparr>)"
proof -
  let ?ss = "mb_slots mb"
  have len: "p < length ?ss" using wf p by (simp add: wf_mailbox_def)
  have wfs: "\<forall>s \<in> set ?ss. wf_slot weigh (mb_budget mb) s" using wf by (simp add: wf_mailbox_def)
  have "wf_slot weigh b s" if "s \<in> set (take p ?ss) \<union> set (drop (Suc p) ?ss)" for s
  proof (rule wf_slot_budget)
    show "wf_slot weigh (mb_budget mb) s" using wfs that in_set_takeD in_set_dropD by fast
    show "live b r = live (mb_budget mb) r" if "slot_permit s = Some r" for r
      using slot_permit_in [of s _ r] that \<open>s \<in> set (take p ?ss) \<union> set (drop (Suc p) ?ss)\<close> by (intro keep) auto
  qed
  then have "\<forall>s \<in> set (?ss[p := x]). wf_slot weigh b s" unfolding slots_split(2) [OF len] using x(1) by auto
  moreover have "distinct (slot_permits (?ss[p := x]))"
  proof -
    have "distinct (slot_permits (?ss[p := ?ss ! p]))" using wf by (simp add: wf_mailbox_def)
    moreover have "r \<notin> set (slot_permits ?ss)" if "slot_permit x = Some r" for r
      using slot_permits_live [OF wfs, of r] x(2) [OF that] by auto
    then have "r \<notin> set (slot_permits (?ss[p := ?ss ! p]))" if "slot_permit x = Some r" for r
      using that by simp
    ultimately show ?thesis
      unfolding slot_permits_split [OF len] by (auto split: option.splits)
  qed
  ultimately show ?thesis using wf b by (simp add: wf_mailbox_def)
qed

section \<open>The operations on the map\<close>

lemma index_key: "wf_mailbox weigh mb \<Longrightarrow> mb_index mb k = Some p \<Longrightarrow> p < length (mb_keys mb) \<and> mb_keys mb ! p = k"
  by (simp add: wf_mailbox_def)

lemma index_at: "wf_mailbox weigh mb \<Longrightarrow> p < length (mb_keys mb) \<Longrightarrow> mb_index mb (mb_keys mb ! p) = Some p"
  by (simp add: wf_mailbox_def)

lemma index_known: "wf_mailbox weigh mb \<Longrightarrow> mb_index mb k \<noteq> None \<longleftrightarrow> k \<in> set (mb_keys mb)"
  by (auto simp: wf_mailbox_def in_set_conv_nth)

lemma pending_at: "wf_mailbox weigh mb \<Longrightarrow> p < length (mb_keys mb) \<Longrightarrow> pending mb (mb_keys mb ! p) = slot_value (mb_slots mb ! p)"
  by (simp add: pending_def index_at)

lemma slot_wf: "wf_mailbox weigh mb \<Longrightarrow> p < length (mb_keys mb) \<Longrightarrow> wf_slot weigh (mb_budget mb) (mb_slots mb ! p)"
  by (simp add: wf_mailbox_def)

lemma pending_budget [simp]: "pending (mb\<lparr>mb_budget := b\<rparr>) = pending mb" "pending (mb\<lparr>mb_wake := w\<rparr>) = pending mb"
  "pending (mb\<lparr>mb_stopped := t\<rparr>) = pending mb"
  by (simp_all add: pending_def fun_eq_iff split: option.split)

lemma wf_mailbox_flags [simp]: "wf_mailbox weigh (mb\<lparr>mb_wake := w\<rparr>) = wf_mailbox weigh mb"
  "wf_mailbox weigh (mb\<lparr>mb_stopped := t\<rparr>) = wf_mailbox weigh mb"
  by (simp_all add: wf_mailbox_def)

text \<open>The permit of a slot is none of the other slots' permits.\<close>

lemma slot_permit_unique:
  assumes "wf_mailbox weigh mb" "p < length (mb_keys mb)" "slot_permit (mb_slots mb ! p) = Some r"
  shows "r \<notin> set (slot_permits (take p (mb_slots mb)) @ slot_permits (drop (Suc p) (mb_slots mb)))"
proof -
  have len: "p < length (mb_slots mb)" using assms(1,2) by (simp add: wf_mailbox_def)
  have "distinct (slot_permits ((mb_slots mb)[p := mb_slots mb ! p]))" using assms(1) by (simp add: wf_mailbox_def)
  then show ?thesis unfolding slot_permits_split [OF len] using assms(3) by auto
qed

text \<open>The budget step of \<open>Replace\<close>: a new permit, or the old one traded in.\<close>

lemma slot_budget:
  assumes wf: "wf_mailbox weigh mb" and p: "p < length (mb_keys mb)"
    and step: "(if slot_permit (mb_slots mb ! p) = None then tryAcquire (mb_budget mb) w
      else budget_replace (mb_budget mb) (slot_permit (mb_slots mb ! p)) w) = (b, Inr r)"
  shows "wf_budget b" "live (mb_budget mb) r = None" "live b r = Some w"
    "\<And>s. s \<in> set (slot_permits (take p (mb_slots mb)) @ slot_permits (drop (Suc p) (mb_slots mb))) \<Longrightarrow>
      live b s = live (mb_budget mb) s"
    "bud_capacity b = bud_capacity (mb_budget mb)"
proof -
  have wfb: "wf_budget (mb_budget mb)" using wf by (simp add: wf_mailbox_def)
  have others: "live (mb_budget mb) s \<noteq> None"
    if "s \<in> set (slot_permits (take p (mb_slots mb)) @ slot_permits (drop (Suc p) (mb_slots mb)))" for s
  proof -
    have wfs: "\<forall>x \<in> set (take p (mb_slots mb)). wf_slot weigh (mb_budget mb) x"
      "\<forall>x \<in> set (drop (Suc p) (mb_slots mb)). wf_slot weigh (mb_budget mb) x"
      using wf in_set_takeD in_set_dropD unfolding wf_mailbox_def by fast+
    show ?thesis using that slot_permits_live [OF wfs(1)] slot_permits_live [OF wfs(2)] by auto
  qed
  have "wf_budget b \<and> live (mb_budget mb) r = None \<and> live b r = Some w \<and> bud_capacity b = bud_capacity (mb_budget mb)
    \<and> (\<forall>s \<in> set (slot_permits (take p (mb_slots mb)) @ slot_permits (drop (Suc p) (mb_slots mb))). live b s = live (mb_budget mb) s)"
  proof (cases "slot_permit (mb_slots mb ! p)")
    case None
    then have "tryAcquire (mb_budget mb) w = (b, Inr r)" using step by simp
    from tryAcquire_ok [OF wfb this] show ?thesis using others by fastforce
  next
    case (Some old)
    then have "budget_replace (mb_budget mb) (Some old) w = (b, Inr r)" using step by simp
    from replace_ok [OF wfb this] show ?thesis
      using others others [of r] slot_permit_unique [OF wf p Some] by auto
  qed
  then show "wf_budget b" "live (mb_budget mb) r = None" "live b r = Some w" "bud_capacity b = bud_capacity (mb_budget mb)"
    "\<And>s. s \<in> set (slot_permits (take p (mb_slots mb)) @ slot_permits (drop (Suc p) (mb_slots mb))) \<Longrightarrow>
      live b s = live (mb_budget mb) s" by blast+
qed

lemma Replace_ok:
  assumes wf: "wf_mailbox weigh mb" and rep: "mailbox_Replace weigh mb k v = (mb', None)"
  shows "wf_mailbox weigh mb' \<and> pending mb' = (pending mb)(k \<mapsto> v) \<and> k \<in> set (mb_keys mb) \<and> mb_keys mb' = mb_keys mb
    \<and> mb_stopped mb' = mb_stopped mb \<and> bud_capacity (mb_budget mb') = bud_capacity (mb_budget mb)"
proof -
  obtain p w b r where p: "mb_index mb k = Some p" and w: "weigh v = Some w" "0 < w"
    and step: "(if slot_permit (mb_slots mb ! p) = None then tryAcquire (mb_budget mb) w
      else budget_replace (mb_budget mb) (slot_permit (mb_slots mb ! p)) w) = (b, Inr r)"
    and mb': "mb' = mb\<lparr>mb_budget := b, mb_wake := True, mb_slots := (mb_slots mb)[p := \<lparr>slot_value = Some v,
        slot_permit = Some r, slot_version = next_version (slot_version (mb_slots mb ! p)), slot_dirty = True\<rparr>]\<rparr>"
    using rep by (fastforce simp: mailbox_Replace_def Let_def split: option.splits if_splits prod.splits sum.splits)
  let ?x = "\<lparr>slot_value = Some v, slot_permit = Some r, slot_version = next_version (slot_version (mb_slots mb ! p)), slot_dirty = True\<rparr>"
  note pk = index_key [OF wf p]
  note sb = slot_budget [OF wf _ step]
  have "wf_mailbox weigh (mb\<lparr>mb_budget := b, mb_slots := (mb_slots mb)[p := ?x]\<rparr>)"
    by (rule wf_mailbox_update [OF wf]) (use pk sb w in \<open>auto simp: wf_slot_def\<close>)
  moreover have "mb' = (mb\<lparr>mb_budget := b, mb_slots := (mb_slots mb)[p := ?x]\<rparr>)\<lparr>mb_wake := True\<rparr>" by (simp add: mb')
  moreover have "pending (mb\<lparr>mb_slots := (mb_slots mb)[p := ?x]\<rparr>) = (pending mb)(k \<mapsto> v)"
    using pending_update [OF wf, of p ?x] pk by simp
  moreover have "pending (mb\<lparr>mb_budget := b, mb_slots := (mb_slots mb)[p := ?x]\<rparr>) = pending (mb\<lparr>mb_slots := (mb_slots mb)[p := ?x]\<rparr>)"
    by (simp add: pending_def fun_eq_iff split: option.split)
  ultimately show ?thesis using pk sb(5) by auto
qed

lemma Replace_fails: "mailbox_Replace weigh mb k v = (mb', Some e) \<Longrightarrow> mb' = mb"
  by (auto simp: mailbox_Replace_def Let_def dest: tryAcquire_fails replace_fails
      split: option.splits if_splits prod.splits sum.splits)

lemma first_ready_Some:
  "first_ready n ss = Some p \<Longrightarrow> \<exists>i < length ss. p = n + i \<and> ready_slot (ss ! i) \<and> (\<forall>j < i. \<not> ready_slot (ss ! j))"
proof (induction ss arbitrary: n)
  case (Cons s ss)
  show ?case
  proof (cases "ready_slot s")
    case True
    then show ?thesis using Cons.prems by (intro exI [of _ 0]) simp
  next
    case False
    then obtain i where "i < length ss" "p = n + 1 + i" "ready_slot (ss ! i)" "\<forall>j < i. \<not> ready_slot (ss ! j)"
      using Cons.IH [of "n + 1"] Cons.prems False by auto
    then show ?thesis using False by (intro exI [of _ "Suc i"]) (auto simp: less_Suc_eq_0_disj)
  qed
qed simp

lemma first_ready_None: "first_ready n ss = None \<longleftrightarrow> (\<forall>s \<in> set ss. \<not> ready_slot s)"
  by (induction ss arbitrary: n) auto

lemma ready_pending:
  "wf_mailbox weigh mb \<Longrightarrow> p < length (mb_keys mb) \<Longrightarrow> ready_slot (mb_slots mb ! p) \<longleftrightarrow> pending mb (mb_keys mb ! p) \<noteq> None"
  using slot_wf [of weigh mb p] by (auto simp: pending_at ready_slot_def wf_slot_def split: option.splits)

lemma pending_known: "wf_mailbox weigh mb \<Longrightarrow> pending mb k \<noteq> None \<Longrightarrow> k \<in> set (mb_keys mb)"
  using index_known [of weigh mb k] by (auto simp: pending_def split: option.splits)

lemma TakeDirty_None:
  assumes wf: "wf_mailbox weigh mb"
  shows "mailbox_TakeDirty mb = (mb', None) \<longleftrightarrow> mb' = mb \<and> pending mb = (\<lambda>_. None)"
proof -
  have len: "length (mb_slots mb) = length (mb_keys mb)" using wf by (simp add: wf_mailbox_def)
  have "(\<forall>s \<in> set (mb_slots mb). \<not> ready_slot s) \<longleftrightarrow> (\<forall>p < length (mb_keys mb). pending mb (mb_keys mb ! p) = None)"
    using ready_pending [OF wf] len by (metis in_set_conv_nth)
  also have "\<dots> \<longleftrightarrow> pending mb = (\<lambda>_. None)"
  proof
    assume none: "\<forall>p < length (mb_keys mb). pending mb (mb_keys mb ! p) = None"
    show "pending mb = (\<lambda>_. None)"
    proof
      fix k
      show "pending mb k = None"
      proof (rule ccontr)
        assume "pending mb k \<noteq> None"
        moreover from this have "k \<in> set (mb_keys mb)" by (rule pending_known [OF wf])
        ultimately show False using none by (auto simp: in_set_conv_nth)
      qed
    qed
  qed simp
  finally have "first_ready 0 (mb_slots mb) = None \<longleftrightarrow> pending mb = (\<lambda>_. None)" by (simp only: first_ready_None)
  then show ?thesis by (auto simp: mailbox_TakeDirty_def Let_def split: option.splits)
qed

lemma TakeDirty_Some:
  assumes wf: "wf_mailbox weigh mb" and take: "mailbox_TakeDirty mb = (mb', Some (k, v, r, n))"
  shows "wf_mailbox weigh mb' \<and> pending mb k \<noteq> None \<and> v = pending mb k \<and> pending mb' = (pending mb)(k := None)
    \<and> (\<exists>p < length (mb_keys mb). mb_keys mb ! p = k \<and> (\<forall>i < p. pending mb (mb_keys mb ! i) = None))
    \<and> (\<exists>x w. v = Some x \<and> weigh x = Some w \<and> r \<noteq> None \<and> live (mb_budget mb) (the r) = Some w)
    \<and> mb_budget mb' = mb_budget mb \<and> mb_keys mb' = mb_keys mb \<and> mb_stopped mb' = mb_stopped mb"
proof -
  let ?ss = "mb_slots mb"
  obtain p where fr: "first_ready 0 ?ss = Some p" and out: "k = mb_keys mb ! p" "v = slot_value (?ss ! p)"
    "r = slot_permit (?ss ! p)" "n = slot_version (?ss ! p)" "mb' = mb\<lparr>mb_slots := ?ss[p := emptied (?ss ! p)]\<rparr>"
    using take by (auto simp: mailbox_TakeDirty_def Let_def split: option.splits)
  have p: "p < length (mb_keys mb)" "ready_slot (?ss ! p)" "\<forall>j < p. \<not> ready_slot (?ss ! j)"
    using first_ready_Some [OF fr] wf by (auto simp: wf_mailbox_def)
  have "wf_mailbox weigh (mb\<lparr>mb_budget := mb_budget mb, mb_slots := ?ss[p := emptied (?ss ! p)]\<rparr>)"
    by (rule wf_mailbox_update [OF wf p(1)]) (use wf in \<open>auto simp: wf_mailbox_def wf_slot_def emptied_def\<close>)
  then have "wf_mailbox weigh mb'" by (simp add: out)
  moreover have "pending mb' = (pending mb)(k := None)"
    using pending_update [OF wf p(1)] by (simp add: out emptied_def)
  moreover have "v = pending mb k" by (simp add: out pending_at [OF wf p(1)])
  moreover have "pending mb k \<noteq> None" using ready_pending [OF wf p(1)] p(2) by (simp add: out)
  moreover have "\<forall>i < p. pending mb (mb_keys mb ! i) = None"
    using ready_pending [OF wf] p(1,3) by fastforce
  moreover have "\<exists>x w. v = Some x \<and> weigh x = Some w \<and> r \<noteq> None \<and> live (mb_budget mb) (the r) = Some w"
    using slot_wf [OF wf p(1)] p(2) by (auto simp: out wf_slot_def ready_slot_def)
  ultimately show ?thesis using p(1) out by auto
qed

lemma mailbox_Close_ok:
  "wf_mailbox weigh mb \<Longrightarrow> wf_mailbox weigh (mailbox_Close mb) \<and> pending (mailbox_Close mb) = pending mb \<and> mb_stopped (mailbox_Close mb)"
  by (simp add: mailbox_Close_def)

section \<open>Draining\<close>

lemma slot_permits_Cons:
  "slot_permits (s # ss) = (case slot_permit s of None \<Rightarrow> slot_permits ss | Some r \<Rightarrow> r # slot_permits ss)"
  by (simp add: slot_permits_def map_filter_simps split: option.split)

lemma slot_permits_none: "\<forall>s \<in> set ss. slot_permit s = None \<Longrightarrow> slot_permits ss = []"
  by (induction ss) (simp_all add: slot_permits_Nil [of 0, simplified] slot_permits_Cons)

lemma drain_slots_ok:
  "wf_budget b \<Longrightarrow> \<forall>s \<in> set ss. wf_slot weigh b s \<Longrightarrow> distinct (slot_permits ss) \<Longrightarrow> drain_slots b ss = (b', ss', n) \<Longrightarrow>
    wf_budget b' \<and> live b' = (live b) |` (- set (slot_permits ss)) \<and> n = length (slot_permits ss) \<and> length ss' = length ss
    \<and> (\<forall>s \<in> set ss'. slot_permit s = None \<and> \<not> slot_dirty s \<and> slot_value s = None)"
proof (induction ss arbitrary: b b' ss' n)
  case Nil
  then show ?case by (simp add: slot_permits_def map_filter_simps restrict_map_def)
next
  case (Cons s ss)
  show ?case
  proof (cases "slot_permit s")
    case None
    then obtain ss1 where d: "drain_slots b ss = (b', ss1, n)" "ss' = s # ss1" using Cons.prems(4) by (auto split: prod.splits)
    have "\<not> slot_dirty s \<and> slot_value s = None" using Cons.prems(2) None by (simp add: wf_slot_def)
    then show ?thesis using Cons.IH [OF Cons.prems(1) _ _ d(1)] Cons.prems(2,3) None d(2) by (simp add: slot_permits_Cons)
  next
    case (Some r)
    let ?b = "fst (permit_Release b (slot_permit s))"
    obtain ss1 n1 where d: "drain_slots ?b ss = (b', ss1, n1)" "ss' = emptied s # ss1" "n = n1 + 1"
      using Cons.prems(4) Some by (auto split: prod.splits)
    have lv: "live b r \<noteq> None" using Cons.prems(2) Some by (auto simp: wf_slot_def)
    then have "permit_Release b (Some r) = (?b, None)"
      using Release_live [OF Cons.prems(1)] Some by (metis not_None_eq prod.collapse)
    note rel = Release_ok [OF Cons.prems(1) this]
    have dist: "r \<notin> set (slot_permits ss)" "distinct (slot_permits ss)" using Cons.prems(3) Some by (simp_all add: slot_permits_Cons)
    have "\<forall>s \<in> set ss. wf_slot weigh ?b s"
    proof
      fix t assume t: "t \<in> set ss"
      then have "slot_permit t \<noteq> Some r" using dist(1) slot_permit_in by metis
      moreover have "live ?b = (live b)(r := None)" using rel by simp
      ultimately have "live ?b u = live b u" if "slot_permit t = Some u" for u using that by simp
      moreover have "wf_slot weigh b t" using Cons.prems(2) t by simp
      ultimately show "wf_slot weigh ?b t" by (rule wf_slot_budget [rotated])
    qed
    note IH = Cons.IH [OF conjunct1 [OF rel] this dist(2) d(1)]
    have "live ?b = (live b)(r := None)" using rel Some by simp
    then have "live b' = (live b) |` (- set (slot_permits (s # ss)))"
      using IH by (intro ext) (simp add: slot_permits_Cons Some restrict_map_def)
    moreover have "wf_budget b'" "n = length (slot_permits (s # ss))" "length ss' = length (s # ss)"
      "\<forall>t \<in> set ss'. slot_permit t = None \<and> \<not> slot_dirty t \<and> slot_value t = None"
      using IH d(2,3) Some by (simp_all add: slot_permits_Cons emptied_def)
    ultimately show ?thesis by blast
  qed
qed

section \<open>Properties\<close>

text \<open>After any successful replacement the key holds exactly the new value and every other key what it held before; a
  refused replacement changes nothing.\<close>

theorem mailbox_keeps_latest:
  assumes "wf_mailbox weigh mb"
  shows "case mailbox_Replace weigh mb k v of
      (mb', Some e) \<Rightarrow> mb' = mb
    | (mb', None) \<Rightarrow> wf_mailbox weigh mb' \<and> pending mb' = (pending mb)(k \<mapsto> v) \<and> k \<in> set (mb_keys mb)
        \<and> bud_used (mb_budget mb') \<le> bud_capacity (mb_budget mb)"
proof -
  have "wf_mailbox weigh mb' \<Longrightarrow> bud_used (mb_budget mb') \<le> bud_capacity (mb_budget mb')" for mb'
    using byte_budget.bounds(1) by (auto simp: wf_mailbox_def)
  moreover obtain mb' e where "mailbox_Replace weigh mb k v = (mb', e)" by (cases "mailbox_Replace weigh mb k v")
  ultimately show ?thesis
    using Replace_ok [OF assms, of k v mb'] Replace_fails [of weigh mb k v mb'] by (cases e) fastforce+
qed

definition sample_mailbox :: "(nat, int) mailbox" where
  "sample_mailbox = (case newByteBudget 0 100 of Inr b \<Rightarrow> (case newFixedMailbox [1, 2] b of Inr mb \<Rightarrow> mb))"

lemma sample_mailbox_wf: "wf_mailbox Some sample_mailbox \<and> pending sample_mailbox = (\<lambda>_. None) \<and> mb_keys sample_mailbox = [1, 2]"
proof -
  obtain b where b: "newByteBudget 0 100 = Inr b" by (simp add: newByteBudget_def)
  then obtain mb :: "(nat, int) mailbox" where mb: "newFixedMailbox [1, 2] b = Inr mb" by (simp add: newFixedMailbox_def)
  then have "sample_mailbox = mb" using b by (simp add: sample_mailbox_def)
  then show ?thesis using newFixedMailbox_wf [OF _ mb] newByteBudget_wf [OF b] by blast
qed

theorem mailbox_keeps_latest_witness:
  "\<exists>mb. mailbox_Replace Some sample_mailbox 2 70 = (mb, None) \<and> pending mb 2 = Some 70 \<and> pending mb 1 = None"
proof -
  have "snd (mailbox_Replace Some sample_mailbox 2 70) = None" by code_simp
  then obtain mb where "mailbox_Replace Some sample_mailbox 2 70 = (mb, None)" by (metis prod.collapse)
  then show ?thesis using mailbox_keeps_latest [of Some sample_mailbox 2 70] sample_mailbox_wf by auto
qed

text \<open>Taking delivers the pending value of the first key, in key order, that has one, empties exactly that slot, and
  finds nothing only when nothing is pending.\<close>

theorem mailbox_take_in_key_order:
  assumes "wf_mailbox weigh mb"
  shows "case mailbox_TakeDirty mb of
      (mb', None) \<Rightarrow> mb' = mb \<and> pending mb = (\<lambda>_. None)
    | (mb', Some (k, v, r, version)) \<Rightarrow> wf_mailbox weigh mb' \<and> v = pending mb k \<and> v \<noteq> None \<and> pending mb' = (pending mb)(k := None)
        \<and> (\<exists>p < length (mb_keys mb). mb_keys mb ! p = k \<and> (\<forall>i < p. pending mb (mb_keys mb ! i) = None))
        \<and> live (mb_budget mb) (the r) = weigh (the v)"
proof (cases "mailbox_TakeDirty mb")
  case (Pair mb' res)
  show ?thesis
  proof (cases res)
    case None
    then show ?thesis using TakeDirty_None [OF assms, of mb'] Pair by simp
  next
    case (Some x)
    obtain k v r n where x: "x = (k, v, r, n)" by (metis prod_cases4)
    note t = TakeDirty_Some [OF assms Pair [unfolded Some x]]
    then show ?thesis using Pair Some x by auto
  qed
qed

theorem mailbox_take_in_key_order_witness:
  "\<exists>mb mb' r version. mailbox_Replace Some sample_mailbox 2 70 = (mb, None) \<and> mailbox_TakeDirty mb = (mb', Some (2, Some 70, r, version))
    \<and> pending mb' = (\<lambda>_. None)"
proof -
  have "snd (mailbox_Replace Some sample_mailbox 2 70) = None" by code_simp
  then obtain mb where mb: "mailbox_Replace Some sample_mailbox 2 70 = (mb, None)" by (metis prod.collapse)
  have wf: "wf_mailbox Some mb" "pending mb = [2 \<mapsto> 70]" using Replace_ok [OF _ mb] sample_mailbox_wf by auto
  note taken = mailbox_take_in_key_order [OF wf(1), unfolded wf(2)]
  obtain mb' res where t: "mailbox_TakeDirty mb = (mb', res)" by (cases "mailbox_TakeDirty mb")
  have "[2 \<mapsto> (70 :: int)] (2 :: nat) \<noteq> None" by simp
  then have "[2 :: nat \<mapsto> (70 :: int)] \<noteq> (\<lambda>_. None)" by metis
  then obtain k v r n where res: "res = Some (k, v, r, n)" using taken t by (cases res) auto
  then have "k = 2" "v = Some 70" using taken t by (auto split: if_splits)
  then show ?thesis using mb t res taken by (auto simp: fun_eq_iff)
qed

text \<open>Draining a mailbox drops every pending value and gives its bytes back: no permit of the mailbox stays live.\<close>

theorem mailbox_drain_releases_all:
  assumes "wf_mailbox weigh mb" "mailbox_drainAndRelease mb = (mb', n)"
  shows "wf_mailbox weigh mb' \<and> pending mb' = (\<lambda>_. None) \<and> n = length (slot_permits (mb_slots mb))
    \<and> live (mb_budget mb') = (live (mb_budget mb)) |` (- set (slot_permits (mb_slots mb)))
    \<and> slot_permits (mb_slots mb') = []"
proof -
  obtain b ss where d: "drain_slots (mb_budget mb) (mb_slots mb) = (b, ss, n)" and mb': "mb' = mb\<lparr>mb_budget := b, mb_slots := ss\<rparr>"
    using assms(2) by (auto simp: mailbox_drainAndRelease_def split: prod.splits)
  have ok: "wf_budget b \<and> live b = (live (mb_budget mb)) |` (- set (slot_permits (mb_slots mb))) \<and> n = length (slot_permits (mb_slots mb))
    \<and> length ss = length (mb_slots mb) \<and> (\<forall>s \<in> set ss. slot_permit s = None \<and> \<not> slot_dirty s \<and> slot_value s = None)"
    by (rule drain_slots_ok [where weigh = weigh, OF _ _ _ d]) (use assms(1) in \<open>simp_all add: wf_mailbox_def\<close>)
  then have empty: "slot_permits ss = []" by (intro slot_permits_none) blast
  have "wf_mailbox weigh mb'" using assms(1) ok empty by (simp add: wf_mailbox_def mb' wf_slot_def)
  moreover have "pending mb' k = None" for k
    using ok assms(1) by (auto simp: pending_def mb' wf_mailbox_def split: option.split)
  ultimately show ?thesis using ok empty by (auto simp: mb')
qed

theorem mailbox_drain_releases_all_witness:
  "pending (fst (mailbox_drainAndRelease sample_mailbox)) = (\<lambda>_. None)"
  using mailbox_drain_releases_all [of Some sample_mailbox "fst (mailbox_drainAndRelease sample_mailbox)" "snd (mailbox_drainAndRelease sample_mailbox)"]
    sample_mailbox_wf by simp

end
