(* ===== verification/Service.thy ===== *)
theory Service
  imports Mailbox Retention
begin

text \<open>
  The core of the service (\<open>internal/service/service.go\<close>): its options and their validation, its error values, the weights it
  charges, the construction of its queues, budgets and mailbox, and the small operations its goroutines share
  (\<open>publishSimple\<close>, the saturating counter and sum of \<open>coordinator.go\<close>, the first recorded cause). Interfaces the core only keeps
  and passes on (source, store, policy, clock) appear as whether they are nil; the goroutines take them as arguments.
  A channel is the list of the values it holds, bounded by its capacity.
\<close>

section \<open>Errors\<close>

datatype core_kind = CoreBusy | CoreCancelled | CoreClosed | CoreMalformed | CoreDegraded | CoreInvariant

datatype core_operation =
    OperationNew | OperationRun | OperationStartup | OperationShutdown | OperationPublish | OperationSend | NoOperation

datatype context_error = ContextCanceled | ContextDeadline

text \<open>What a transport reports: the two errors that \<open>errors.Is\<close> recognises, or anything else.\<close>

datatype transport_error = TransportCancelled | TransportDeadline | TransportFailed string

datatype core_cause = NoCause | QueueCause service_error | ContextCause context_error | TransportCause transport_error

datatype core_error = CoreError (ce_kind: core_kind) (ce_operation: core_operation) (ce_cause: core_cause)

text \<open>A context is what \<open>ctx.Err()\<close> returns at each look.\<close>

type_synonym looks = "nat \<Rightarrow> context_error option"

definition core_error_Error :: "core_error option \<Rightarrow> string" where
  "core_error_Error err =
     (case err of
        None \<Rightarrow> ''service failed''
      | Some e \<Rightarrow>
          (case ce_kind e of
             CoreBusy \<Rightarrow> ''service busy''
           | CoreCancelled \<Rightarrow> ''service cancelled''
           | CoreClosed \<Rightarrow> ''service closed''
           | CoreMalformed \<Rightarrow> ''service malformed''
           | CoreDegraded \<Rightarrow> ''service degraded''
           | CoreInvariant \<Rightarrow> ''service invariant violation''))"

definition core_error_Is :: "core_error \<Rightarrow> core_error \<Rightarrow> bool" where
  "core_error_Is err target \<longleftrightarrow> ce_kind err = ce_kind target"

text \<open>The first failure of the goroutines is the one that is kept.\<close>

definition first_record :: "'e \<Rightarrow> 'e option \<Rightarrow> 'e option \<times> bool" where
  "first_record err first = (case first of None \<Rightarrow> (Some err, True) | Some _ \<Rightarrow> (first, False))"

section \<open>Weights\<close>

definition positive :: "int \<Rightarrow> int option" where
  "positive n = (if n \<le> 0 then None else Some n)"

definition weighEvent :: "event \<Rightarrow> int option" where
  "weighEvent e =
     (case NewEvent (event_message e) (event_receivedAt e) of
        Inl _ \<Rightarrow> None
      | Inr normalized \<Rightarrow> if event_byteSize normalized \<le> 0 then None else Some (event_byteSize normalized))"

definition weighChunk :: "history_chunk \<Rightarrow> int option" where
  "weighChunk chunk =
     (case NewHistoryChunk (chunk_messages chunk) of
        Inl _ \<Rightarrow> None
      | Inr normalized \<Rightarrow> if chunk_byteSize normalized \<le> 0 then None else Some (chunk_byteSize normalized))"

definition weighMessage :: "message \<Rightarrow> int option" where
  "weighMessage m =
     (case NewWriteBatch WriteRealtime [m] of
        Inl _ \<Rightarrow> None
      | Inr batch \<Rightarrow>
          let owned = fst (batch_At batch 0) in
          if msg_byteSize owned \<le> 0 then None else Some (msg_byteSize owned))"

definition weighUpdate :: "update \<Rightarrow> int option" where
  "weighUpdate u =
     (case NewUpdate \<lparr>ui_Kind = update_kind u, ui_ChatID = update_chatID u, ui_MessageID = update_messageID u,
         ui_Accepted = update_accepted u, ui_Discarded = update_discarded u, ui_Degraded = update_degraded u\<rparr> of
        Inl _ \<Rightarrow> None
      | Inr normalized \<Rightarrow> if update_byteSize normalized \<le> 0 then None else Some (update_byteSize normalized))"

record write_result =
  wres_Origin :: "8 word"
  wres_Attempted :: int
  wres_Written :: int
  wres_Discarded :: int
  wres_StoreFailed :: bool

definition writeResultWeight :: int where "writeResultWeight = 64"

definition weighWriteResult :: "write_result \<Rightarrow> int option" where
  "weighWriteResult _ = Some writeResultWeight"

section \<open>Options\<close>

record queue_options =
  qo_Entries :: int
  qo_Bytes :: int

record options =
  opt_Realtime :: queue_options
  opt_History :: queue_options
  opt_LiveWrites :: queue_options
  opt_HistoryWrites :: queue_options
  opt_ViewUpdates :: queue_options
  opt_HistoryChunkRecords :: int
  opt_HistoryChunkBytes :: int
  opt_BatchMaxOperations :: int
  opt_RetentionSnapshotLimit :: int
  opt_BatchWait :: duration
  opt_LiveWriteBusy :: duration
  opt_ShutdownGrace :: duration

text \<open>Which of source, store, policy and clock are present.\<close>

record parts =
  has_source :: bool
  has_store :: bool
  has_policy :: bool
  has_clock :: bool

definition malformed_new :: core_error where
  "malformed_new = CoreError CoreMalformed OperationNew NoCause"

definition service_maxMessageBytes :: int where
  "service_maxMessageBytes = 4 * MaxIdentifierBytes + MaxRetainedTextBytes + MaxQuoteTextBytes"

definition validateOptions :: "options \<Rightarrow> parts \<Rightarrow> core_error option" where
  "validateOptions o' p =
     (if \<not> has_source p \<or> \<not> has_store p \<or> \<not> has_policy p \<or> \<not> has_clock p then Some malformed_new
      else if \<exists>q \<in> set [opt_Realtime o', opt_History o', opt_LiveWrites o', opt_HistoryWrites o', opt_ViewUpdates o'].
          qo_Entries q \<le> 0 \<or> qo_Bytes q \<le> 0 then Some malformed_new
      else if qo_Entries (opt_Realtime o') > 128 \<or> qo_Entries (opt_History o') > 4 \<or> qo_Entries (opt_LiveWrites o') > 128
          \<or> qo_Entries (opt_HistoryWrites o') > 256 \<or> qo_Entries (opt_ViewUpdates o') \<noteq> 64
          \<or> opt_HistoryChunkRecords o' \<le> 0 \<or> opt_HistoryChunkRecords o' > MaxHistoryChunkRecords
          \<or> opt_HistoryChunkBytes o' \<le> 0 \<or> opt_HistoryChunkBytes o' > MaxHistoryChunkBytes
          \<or> opt_HistoryChunkBytes o' > qo_Bytes (opt_History o')
          \<or> opt_BatchMaxOperations o' \<le> 0 \<or> opt_BatchMaxOperations o' > MaxWriteBatchMessages
          \<or> opt_BatchMaxOperations o' > qo_Entries (opt_LiveWrites o') \<or> opt_BatchMaxOperations o' > qo_Entries (opt_HistoryWrites o')
          \<or> opt_RetentionSnapshotLimit o' \<le> 0 \<or> opt_RetentionSnapshotLimit o' > MaxRetentionSnapshotSummaries
          \<or> opt_BatchWait o' \<le> 0 \<or> opt_LiveWriteBusy o' \<le> 0 \<or> opt_ShutdownGrace o' \<le> 0 then Some malformed_new
      else if qo_Bytes (opt_Realtime o') < MaxNormalizedEventBytes \<or> qo_Bytes (opt_History o') < MaxHistoryChunkBytes
          \<or> qo_Bytes (opt_LiveWrites o') < service_maxMessageBytes \<or> qo_Bytes (opt_HistoryWrites o') < service_maxMessageBytes
          \<or> qo_Bytes (opt_ViewUpdates o') < MaxNormalizedUpdateBytes then Some malformed_new
      else None)"

section \<open>The core\<close>

type_synonym text_sender = "chat_id \<Rightarrow> string \<Rightarrow> text_quote list \<Rightarrow> transport_error + event"
type_synonym media_sender = "chat_id \<Rightarrow> string \<Rightarrow> media \<Rightarrow> 64 word \<Rightarrow> sticker_metadata \<Rightarrow> transport_error + event"
type_synonym view_slot = "8 word"

definition LiveEventCapacity :: nat where "LiveEventCapacity = 64"

record core =
  core_options :: options
  core_realtimeQ :: "event bqueue"
  core_historyQ :: "history_chunk bqueue"
  core_liveWriteQ :: "message bqueue"
  core_historyWriteQ :: "message bqueue"
  core_resultQ :: "write_result bqueue"
  core_updateMailbox :: "(view_slot, update) mailbox"
  core_updates :: "update list"
  core_liveEvents :: "live_event list"
  core_sender :: "text_sender option"
  core_mediaSender :: "media_sender option"
  core_sendSlot :: bool
  core_localDrops :: "64 word"
  core_localDropWake :: bool
  core_run :: bool
  core_acceptingSends :: bool

text \<open>
  The source drops the errors of the constructors; they cannot occur once the options are valid (\<open>newCore_ok\<close>), so the
  branch that reports one as an invariant violation is never taken.
\<close>

definition built :: "service_error + 'a \<Rightarrow> core_error + 'a" where
  "built r = (case r of Inl e \<Rightarrow> Inl (CoreError CoreInvariant OperationNew (QueueCause e)) | Inr x \<Rightarrow> Inr x)"

definition built_queue :: "nat \<Rightarrow> int \<Rightarrow> int \<Rightarrow> core_error + 'a bqueue" where
  "built_queue bid entries bytes = on_ok (built (newByteBudget bid bytes)) (\<lambda>b. built (newBoundedQueue entries b))"

definition view_keys :: "view_slot list" where
  "view_keys = map of_nat [0..<64]"

definition newCore :: "options \<Rightarrow> parts \<Rightarrow> text_sender option \<Rightarrow> media_sender option \<Rightarrow> core_error + core" where
  "newCore o' p sender mediaSender =
     (case validateOptions o' p of
        Some e \<Rightarrow> Inl e
      | None \<Rightarrow>
          on_ok (built_queue 2 (qo_Entries (opt_Realtime o')) (qo_Bytes (opt_Realtime o'))) (\<lambda>realtimeQ.
          on_ok (built_queue 3 (qo_Entries (opt_History o')) (qo_Bytes (opt_History o'))) (\<lambda>historyQ.
          on_ok (built_queue 4 (qo_Entries (opt_LiveWrites o')) (qo_Bytes (opt_LiveWrites o'))) (\<lambda>liveQ.
          on_ok (built_queue 5 (qo_Entries (opt_HistoryWrites o')) (qo_Bytes (opt_HistoryWrites o'))) (\<lambda>historyWriteQ.
          on_ok (built_queue 6 8 (8 * writeResultWeight)) (\<lambda>resultQ.
          on_ok (built (newByteBudget 7 (qo_Bytes (opt_ViewUpdates o')))) (\<lambda>updateBudget.
          on_ok (built (newFixedMailbox view_keys updateBudget)) (\<lambda>mailbox.
          Inr \<lparr>core_options = o', core_realtimeQ = realtimeQ, core_historyQ = historyQ, core_liveWriteQ = liveQ,
            core_historyWriteQ = historyWriteQ, core_resultQ = resultQ, core_updateMailbox = mailbox, core_updates = [],
            core_liveEvents = [], core_sender = sender, core_mediaSender = mediaSender, core_sendSlot = False,
            core_localDrops = 0, core_localDropWake = False, core_run = False, core_acceptingSends = False\<rparr>))))))))"

definition service_New :: "options \<Rightarrow> parts \<Rightarrow> core_error + core" where
  "service_New o' p = newCore o' p None None"

text \<open>A sender may also be able to send media.\<close>

definition NewWithTextSender :: "options \<Rightarrow> parts \<Rightarrow> (text_sender \<times> media_sender option) option \<Rightarrow> core_error + core" where
  "NewWithTextSender o' p sender =
     (case sender of
        None \<Rightarrow> Inl malformed_new
      | Some (text, media) \<Rightarrow> newCore o' p (Some text) media)"

section \<open>Updates and counters\<close>

definition updateSlot :: "8 word \<Rightarrow> view_slot \<times> bool" where
  "updateSlot kind = (if kind < UpdateReady \<or> kind > UpdateFatal then (0, False) else (kind - 1, True))"

definition simple_input :: "8 word \<Rightarrow> update_input" where
  "simple_input kind = \<lparr>ui_Kind = kind, ui_ChatID = ChatID [], ui_MessageID = MessageID [], ui_Accepted = 0, ui_Discarded = 0,
     ui_Degraded = False\<rparr>"

definition publishSimple :: "8 word \<Rightarrow> (view_slot, update) mailbox \<Rightarrow> (view_slot, update) mailbox" where
  "publishSimple kind mb =
     (case NewUpdate (simple_input kind) of
        Inl _ \<Rightarrow> mb
      | Inr u \<Rightarrow> (case updateSlot kind of (slot, ok) \<Rightarrow> if ok then fst (mailbox_Replace weighUpdate mb slot u) else mb))"

text \<open>\<open>saturatingCounter.add\<close>: the compare-and-swap loop ends with one atomic addition.\<close>

definition counter_add :: "64 word \<Rightarrow> 64 word \<Rightarrow> 64 word" where
  "counter_add current val = (if -1 - current < val then -1 else current + val)"

fun saturating_from :: "64 word \<Rightarrow> 64 word list \<Rightarrow> 64 word" where
  "saturating_from acc [] = acc"
| "saturating_from acc (val # rest) = (if -1 - acc < val then -1 else saturating_from (acc + val) rest)"

definition saturatingSum :: "64 word list \<Rightarrow> 64 word" where
  "saturatingSum = saturating_from 0"

section \<open>Weights of valid values\<close>

lemma validateMessage_byteSize [simp]: "validateMessage (m\<lparr>msg_byteSize := n\<rparr>) = validateMessage m"
  by (simp add: validateMessage_def)

lemma normalizedEventByteSize_bounds:
  "normalizedEventByteSize n = Inr b \<Longrightarrow> 0 < b \<and> b \<le> MaxNormalizedEventBytes"
  by (auto simp: normalizedEventByteSize_def checkedByteSum_Some_iff normalizedEventEnvelopeBytes_def split: option.splits if_splits)

lemma weighEvent_normalized:
  assumes "NewEvent m t = Inr e"
  shows "weighEvent e = Some (event_byteSize e)" "0 < event_byteSize e" "event_byteSize e \<le> MaxNormalizedEventBytes"
proof -
  obtain n b where nb: "t \<noteq> 0" "validateMessage m = Inr n" "normalizedEventByteSize n = Inr b"
    "e = \<lparr>event_message = m\<lparr>msg_byteSize := n\<rparr>, event_receivedAt = t, event_byteSize = b\<rparr>"
    using assms by (auto simp: NewEvent_def)
  then have "NewEvent (event_message e) (event_receivedAt e) = Inr e" by (simp add: NewEvent_def)
  moreover show b: "0 < event_byteSize e" "event_byteSize e \<le> MaxNormalizedEventBytes"
    using normalizedEventByteSize_bounds [OF nb(3)] nb(4) by simp_all
  ultimately show "weighEvent e = Some (event_byteSize e)" by (simp add: weighEvent_def)
qed

lemma weighMessage_wf: "wf_message m \<Longrightarrow> weighMessage m = Some (msg_byteSize m)"
  using NewWriteBatch_wf [of "[m]" WriteRealtime] wf_message_bounds [of m]
  by (simp add: weighMessage_def MaxWriteBatchMessages_def validateWriteOrigin_def WriteRealtime_def WriteHistory_def
      batch_At_def list_At_def)

lemma weighUpdate_normalized:
  assumes "NewUpdate i = Inr u"
  shows "weighUpdate u = Some (update_byteSize u)" "0 < update_byteSize u" "update_byteSize u \<le> MaxNormalizedUpdateBytes"
proof -
  have u: "update_byteSize u = 256 + len (chat_id_value (ui_ChatID i)) + len (message_id_value (ui_MessageID i))"
    using assms by (simp add: NewUpdate_eq_Inr)
  have "NewUpdate \<lparr>ui_Kind = update_kind u, ui_ChatID = update_chatID u, ui_MessageID = update_messageID u,
         ui_Accepted = update_accepted u, ui_Discarded = update_discarded u, ui_Degraded = update_degraded u\<rparr> = Inr u"
    using assms by (simp add: NewUpdate_eq_Inr)
  moreover show "0 < update_byteSize u" unfolding u by linarith
  ultimately show "weighUpdate u = Some (update_byteSize u)" by (simp add: weighUpdate_def)
  have "len (chat_id_value (ui_ChatID i)) \<le> 512" "len (message_id_value (ui_MessageID i)) \<le> 512"
    using assms by (cases "ui_ChatID i"; cases "ui_MessageID i";
      auto simp: NewUpdate_eq_Inr clean_text_def MaxIdentifierBytes_def)+
  then show "update_byteSize u \<le> MaxNormalizedUpdateBytes" unfolding u MaxNormalizedUpdateBytes_def by linarith
qed

section \<open>Saturation\<close>

lemma minus_one_minus: "unat (- 1 - a :: 64 word) = 2 ^ 64 - 1 - unat a"
proof -
  have "unat (- 1 - a) = unat (- 1 :: 64 word) - unat a" by (rule unat_sub) (simp add: word_order.extremum)
  then show ?thesis by (simp add: unsigned_minus_1_eq_mask mask_eq_exp_minus_1)
qed

lemma exceeds_iff: "- 1 - a < (b :: 64 word) \<longleftrightarrow> 2 ^ 64 \<le> unat a + unat b"
proof -
  have "unat a < 2 ^ 64" "unat b < 2 ^ 64" using unsigned_less [of a] unsigned_less [of b] by simp_all
  then show ?thesis unfolding word_less_nat_alt minus_one_minus by linarith
qed

lemma unat_add_fits: "\<not> 2 ^ 64 \<le> unat a + unat (b :: 64 word) \<Longrightarrow> unat (a + b) = unat a + unat b"
  by (simp add: unat_word_ariths)

lemma counter_add_min: "unat (counter_add a b) = min (unat a + unat b) (2 ^ 64 - 1)"
  using unat_add_fits [of a b] by (auto simp: counter_add_def exceeds_iff unsigned_minus_1_eq_mask mask_eq_exp_minus_1)

lemma saturating_from_min: "unat (saturating_from acc vs) = min (unat acc + sum_list (map unat vs)) (2 ^ 64 - 1)"
proof (induction vs arbitrary: acc)
  case Nil
  have "unat acc < 2 ^ 64" using unsigned_less [of acc] by simp
  then show ?case by simp
next
  case (Cons v vs)
  then show ?case using unat_add_fits [of acc v]
    by (auto simp: exceeds_iff unsigned_minus_1_eq_mask mask_eq_exp_minus_1)
qed

section \<open>A new core\<close>

lemma built_queue_ok:
  fixes weigh :: "'a \<Rightarrow> int option"
  assumes "0 < entries" "0 < bytes"
  shows "\<exists>q. built_queue i entries bytes = Inr q \<and> wf_queue weigh q \<and> contents q = [] \<and> int (length (q_storage q)) = entries
    \<and> bud_capacity (q_budget q) = bytes \<and> dom (live (q_budget q)) = {} \<and> \<not> q_stopped q \<and> q_handles q = []"
proof -
  obtain b where b: "newByteBudget i bytes = Inr b" using assms by (auto simp: newByteBudget_def)
  obtain q :: "'a bqueue" where q: "newBoundedQueue entries b = Inr q" using assms by (auto simp: newBoundedQueue_def)
  show ?thesis
    using newBoundedQueue_wf [OF _ q] newByteBudget_wf [OF b] b q
    by (auto simp: built_queue_def built_def newBoundedQueue_def split: if_splits)
qed

lemma view_keys_distinct: "distinct view_keys" "view_keys \<noteq> []"
  by code_simp+

lemma view_keys_all: "set view_keys = {k. k < 64}"
  unfolding view_keys_def
proof (intro set_eqI iffI)
  fix k :: view_slot
  assume "k \<in> {k. k < 64}"
  then have "unat k < 64" "of_nat (unat k) = k" by (simp_all add: word_less_nat_alt)
  then show "k \<in> set (map of_nat [0..<64])" by (metis atLeastLessThan_iff image_eqI le0 list.set_map set_upt)
qed (auto simp: word_less_nat_alt unsigned_of_nat take_bit_eq_mod)

definition all_parts :: parts where
  "all_parts = \<lparr>has_source = True, has_store = True, has_policy = True, has_clock = True\<rparr>"

definition options_ok :: "options \<Rightarrow> bool" where
  "options_ok o' \<longleftrightarrow> validateOptions o' all_parts = None"

lemma validateOptions_None: "validateOptions o' p = None \<longleftrightarrow> p = all_parts \<and> options_ok o'"
  by (cases p) (auto simp: options_ok_def validateOptions_def all_parts_def)

lemma validateOptions_error: "validateOptions o' p = Some e \<Longrightarrow> e = malformed_new"
  by (auto simp: validateOptions_def split: if_splits)

lemma options_ok_bounds:
  assumes "options_ok o'"
  shows "0 < qo_Entries (opt_Realtime o')" "MaxNormalizedEventBytes \<le> qo_Bytes (opt_Realtime o')"
    "0 < qo_Entries (opt_History o')" "MaxHistoryChunkBytes \<le> qo_Bytes (opt_History o')"
    "0 < qo_Entries (opt_LiveWrites o')" "service_maxMessageBytes \<le> qo_Bytes (opt_LiveWrites o')"
    "0 < qo_Entries (opt_HistoryWrites o')" "service_maxMessageBytes \<le> qo_Bytes (opt_HistoryWrites o')"
    "MaxNormalizedUpdateBytes \<le> qo_Bytes (opt_ViewUpdates o')"
  using assms unfolding options_ok_def validateOptions_def Let_def by (auto split: if_splits)

lemma size_constants_pos: "0 < MaxNormalizedEventBytes" "0 < MaxHistoryChunkBytes" "0 < service_maxMessageBytes" "0 < MaxNormalizedUpdateBytes"
  by (simp_all add: MaxNormalizedEventBytes_def MaxHistoryChunkBytes_def service_maxMessageBytes_def MaxNormalizedUpdateBytes_def
      MaxIdentifierBytes_def MaxRetainedTextBytes_def MaxQuoteTextBytes_def)

definition fresh_queue :: "('a \<Rightarrow> int option) \<Rightarrow> queue_options \<Rightarrow> 'a bqueue \<Rightarrow> bool" where
  "fresh_queue weigh o' q \<longleftrightarrow> wf_queue weigh q \<and> contents q = [] \<and> int (length (q_storage q)) = qo_Entries o'
     \<and> bud_capacity (q_budget q) = qo_Bytes o' \<and> dom (live (q_budget q)) = {} \<and> \<not> q_stopped q \<and> q_handles q = []"

lemma built_fresh:
  "0 < qo_Entries o' \<Longrightarrow> 0 < qo_Bytes o' \<Longrightarrow> \<exists>q. built_queue i (qo_Entries o') (qo_Bytes o') = Inr q \<and> fresh_queue weigh o' q"
  using built_queue_ok unfolding fresh_queue_def by blast

definition fresh_core :: "options \<Rightarrow> core \<Rightarrow> bool" where
  "fresh_core o' core \<longleftrightarrow> core_options core = o' \<and> fresh_queue weighEvent (opt_Realtime o') (core_realtimeQ core)
     \<and> fresh_queue weighChunk (opt_History o') (core_historyQ core)
     \<and> fresh_queue weighMessage (opt_LiveWrites o') (core_liveWriteQ core)
     \<and> fresh_queue weighMessage (opt_HistoryWrites o') (core_historyWriteQ core)
     \<and> fresh_queue weighWriteResult \<lparr>qo_Entries = 8, qo_Bytes = 8 * writeResultWeight\<rparr> (core_resultQ core)
     \<and> wf_mailbox weighUpdate (core_updateMailbox core) \<and> pending (core_updateMailbox core) = (\<lambda>_. None)
     \<and> mb_keys (core_updateMailbox core) = view_keys
     \<and> bud_capacity (mb_budget (core_updateMailbox core)) = qo_Bytes (opt_ViewUpdates o')
     \<and> core_updates core = [] \<and> core_liveEvents core = [] \<and> \<not> core_sendSlot core \<and> core_localDrops core = 0
     \<and> \<not> core_run core \<and> \<not> core_acceptingSends core"

lemma fresh_mailbox:
  assumes "0 < bytes"
  shows "\<exists>b mb. newByteBudget i bytes = Inr b \<and> newFixedMailbox view_keys b = Inr mb \<and> wf_mailbox weighUpdate mb
    \<and> pending mb = (\<lambda>_. None) \<and> mb_keys mb = view_keys \<and> bud_capacity (mb_budget mb) = bytes"
proof -
  obtain b where b: "newByteBudget i bytes = Inr b" using assms by (auto simp: newByteBudget_def)
  obtain index where "build_index 0 view_keys (\<lambda>_. None) = Inr index"
    using build_index_complete [OF view_keys_distinct(1), of "\<lambda>_. None" 0] by auto
  then obtain mb :: "(view_slot, update) mailbox" where mb: "newFixedMailbox view_keys b = Inr mb"
    using view_keys_distinct(2) by (simp add: newFixedMailbox_def)
  show ?thesis using newFixedMailbox_wf [OF _ mb] newByteBudget_wf [OF b] b mb by blast
qed

lemma newCore_ok:
  assumes "options_ok o'"
  shows "\<exists>core. newCore o' all_parts sender media = Inr core \<and> fresh_core o' core \<and> core_sender core = sender \<and> core_mediaSender core = media"
proof -
  note b = options_ok_bounds [OF assms] size_constants_pos
  have w: "0 < qo_Entries \<lparr>qo_Entries = 8, qo_Bytes = 8 * writeResultWeight\<rparr>" "0 < qo_Bytes \<lparr>qo_Entries = 8, qo_Bytes = 8 * writeResultWeight\<rparr>"
    by (simp_all add: writeResultWeight_def)
  obtain q0 where q0: "built_queue 2 (qo_Entries (opt_Realtime o')) (qo_Bytes (opt_Realtime o')) = Inr q0" "fresh_queue weighEvent (opt_Realtime o') q0"
    using built_fresh [of "opt_Realtime o'" 2] b by fastforce
  obtain q1 where q1: "built_queue 3 (qo_Entries (opt_History o')) (qo_Bytes (opt_History o')) = Inr q1" "fresh_queue weighChunk (opt_History o') q1"
    using built_fresh [of "opt_History o'" 3] b by fastforce
  obtain q2 where q2: "built_queue 4 (qo_Entries (opt_LiveWrites o')) (qo_Bytes (opt_LiveWrites o')) = Inr q2" "fresh_queue weighMessage (opt_LiveWrites o') q2"
    using built_fresh [of "opt_LiveWrites o'" 4] b by fastforce
  obtain q3 where q3: "built_queue 5 (qo_Entries (opt_HistoryWrites o')) (qo_Bytes (opt_HistoryWrites o')) = Inr q3"
    "fresh_queue weighMessage (opt_HistoryWrites o') q3"
    using built_fresh [of "opt_HistoryWrites o'" 5] b by fastforce
  obtain q4 where q4: "built_queue 6 8 (8 * writeResultWeight) = Inr q4"
    "fresh_queue weighWriteResult \<lparr>qo_Entries = 8, qo_Bytes = 8 * writeResultWeight\<rparr> q4"
    using built_fresh [OF w, of 6 weighWriteResult] by auto
  have "0 < qo_Bytes (opt_ViewUpdates o')" using b by linarith
  from fresh_mailbox [OF this, of 7] obtain bud mb where mb: "newByteBudget 7 (qo_Bytes (opt_ViewUpdates o')) = Inr bud"
    "newFixedMailbox view_keys bud = Inr mb" "wf_mailbox weighUpdate mb" "pending mb = (\<lambda>_. None)" "mb_keys mb = view_keys"
    "bud_capacity (mb_budget mb) = qo_Bytes (opt_ViewUpdates o')" by blast
  have v: "validateOptions o' all_parts = None" using assms by (simp add: options_ok_def)
  show ?thesis
    by (simp add: newCore_def v q0(1) q1(1) q2(1) q3(1) q4(1) mb(1,2) built_def fresh_core_def q0(2) q1(2) q2(2) q3(2) q4(2) mb(3-6))
qed

section \<open>Properties\<close>

text \<open>What a fresh writer queue takes.\<close>

lemma fresh_TryPut:
  assumes "fresh_queue weighMessage o' q" "wf_message m" "0 < qo_Entries o'"
  shows "snd (TryPut weighMessage q m) = (if msg_byteSize m \<le> qo_Bytes o' then None else Some InvalidWeight)"
proof -
  have q: "wf_queue weighMessage q" "q_count q = 0" "int (length (q_storage q)) = qo_Entries o'"
    "bud_capacity (q_budget q) = qo_Bytes o'" "\<not> q_stopped q" "q_handles q = []" "dom (live (q_budget q)) = {}"
    using assms(1) by (auto simp: fresh_queue_def)
  then have wfb: "wf_budget (q_budget q)" and res: "q_reservations q = 0"
    using assms(1) by (auto simp: wf_queue_def active_permits_def map_filter_simps)
  then have used: "bud_used (q_budget q) = 0" using byte_budget.idle_is_empty q(7) by blast
  have w: "weighMessage m = Some (msg_byteSize m)" "0 < msg_byteSize m"
    using weighMessage_wf [OF assms(2)] wf_message_bounds [OF assms(2)] by simp_all
  show ?thesis
  proof (cases "msg_byteSize m \<le> qo_Bytes o'")
    case True
    moreover have "0 < length (q_storage q)" using q(3) assms(3) by linarith
    ultimately have "admits weighMessage q m" using q res used w by (simp add: admits_def)
    then show ?thesis using TryPut_cases [OF q(1), of m] True by auto
  next
    case False
    then show ?thesis using q(4,5) w by (simp add: TryPut_def tryReserve_def tryAcquire_def)
  qed
qed


text \<open>The smallest options the validation lets through.\<close>

definition smallest_options :: options where
  "smallest_options = \<lparr>opt_Realtime = \<lparr>qo_Entries = 1, qo_Bytes = MaxNormalizedEventBytes\<rparr>,
     opt_History = \<lparr>qo_Entries = 1, qo_Bytes = MaxHistoryChunkBytes\<rparr>,
     opt_LiveWrites = \<lparr>qo_Entries = 1, qo_Bytes = service_maxMessageBytes\<rparr>,
     opt_HistoryWrites = \<lparr>qo_Entries = 1, qo_Bytes = service_maxMessageBytes\<rparr>,
     opt_ViewUpdates = \<lparr>qo_Entries = 64, qo_Bytes = MaxNormalizedUpdateBytes\<rparr>,
     opt_HistoryChunkRecords = 1, opt_HistoryChunkBytes = 1, opt_BatchMaxOperations = 1, opt_RetentionSnapshotLimit = 1,
     opt_BatchWait = 1, opt_LiveWriteBusy = 1, opt_ShutdownGrace = 1\<rparr>"

lemma smallest_options_ok: "options_ok smallest_options"
  by code_simp

text \<open>A group message with a long text and a document that can be downloaded.\<close>

definition large_media :: media where
  "large_media = zero_media\<lparr>media_kind := MediaDocument, media_directPath := CHR ''/'' # replicate 3071 (CHR ''p''),
     media_mediaKey := ''k'', media_fileSHA256 := ''h'', media_fileEncSHA256 := ''e''\<rparr>"

definition large_input :: message_input where
  "large_input = (sample_input ''c'' ''m'' 5)\<lparr>in_Text := replicate 16384 (CHR ''x''), in_Media := large_media\<rparr>"

lemma large_message:
  obtains m where "NewMessage large_input = Inr m" "wf_message m" "msg_byteSize m = 19461"
proof -
  have path: "clean_text 3072 (media_directPath large_media)"
    by (rule ascii_clean) (simp_all add: large_media_def byte_def list_all_iff)
  then have dl: "validDownloadMetadata (media_directPath large_media) ''k'' ''h'' ''e''"
    by (simp add: validDownloadMetadata_def large_media_def media_limits clean_text_def has_control_def)
  then have md: "validateMedia large_media = None"
    by (simp add: validateMedia_None_iff large_media_def validMediaKind_def media_kinds media_limits)
  have "valid_utf8 (replicate 16384 (CHR ''x''))"
    by (rule ascii_valid) (simp add: byte_def list_all_iff)
  then have whole: "NormalizeText (replicate 16384 (CHR ''x'')) = (replicate 16384 (CHR ''x''), False)"
    by (rule NormalizeText_id) (simp add: MaxRetainedTextBytes_def)
  have ids: "valid_identifier ''c''" "valid_identifier ''m''" by (rule ascii_clean; simp add: ascii_eval)+
  have ok: "message_input_ok large_input"
    using md ids by (simp add: message_input_ok_def large_input_def sample_input_def valid_sender_def)
  have q: "cloneTextQuote (in_Quote large_input) = Inr zero_quote" by (simp add: large_input_def sample_input_def)
  let ?m = "seal (built_message large_input zero_quote)"
  have "msg_byteSize ?m = 19461"
    by (simp add: seal_def payload_bytes_def built_message_def large_input_def sample_input_def whole zero_quote_def)
      (simp add: large_media_def)
  then show thesis using that NewMessage_ok [OF ok q] NewMessage_wf by blast
qed


text \<open>C38: The options can be valid while a valid message does not fit the writer queue they ask for: its budget is checked
  against 19456 bytes, the charge of a message with a download path is not counted, and the message is refused with the
  error of a wrong weight, which is not the one that makes the coordinator wait.\<close>

theorem valid_message_refused:
  "\<exists>core m. newCore smallest_options all_parts None None = Inr core \<and> NewMessage large_input = Inr m \<and> wf_message m
     \<and> snd (TryPut weighMessage (core_liveWriteQ core) m) = Some InvalidWeight"
proof -
  obtain core where core: "newCore smallest_options all_parts None None = Inr core" "fresh_core smallest_options core"
    using newCore_ok [OF smallest_options_ok] by blast
  obtain m where m: "NewMessage large_input = Inr m" "wf_message m" "msg_byteSize m = 19461" by (rule large_message)
  have "fresh_queue weighMessage (opt_LiveWrites smallest_options) (core_liveWriteQ core)" using core(2) by (simp add: fresh_core_def)
  from fresh_TryPut [OF this m(2)] have "snd (TryPut weighMessage (core_liveWriteQ core) m) = Some InvalidWeight"
    using m(3) by (simp add: smallest_options_def service_maxMessageBytes_def MaxIdentifierBytes_def MaxRetainedTextBytes_def MaxQuoteTextBytes_def)
  then show ?thesis using core(1) m by blast
qed

text \<open>Counters of dropped work never wrap: an addition, and the sum that is shown, are the exact value or the largest
  64-bit one.\<close>

theorem counters_saturate:
  "unat (counter_add a b) = min (unat a + unat b) (2 ^ 64 - 1)
   \<and> unat (saturatingSum vs) = min (sum_list (map unat vs)) (2 ^ 64 - 1)"
  using counter_add_min saturating_from_min [of 0 vs] by (simp add: saturatingSum_def)

end
