(* ===== verification/Sticker.thy ===== *)
theory Sticker
  imports Media
begin

text \<open>
  The bounded WebP inspection of \<open>internal/service/sticker.go\<close>, which decides before an upload whether a local file is a
  compatible sticker. The reader is the file the caller opened: its bytes (\<open>None\<close> is a nil reader); reading past
  the end delivers fewer bytes than asked for, which \<open>readExactlyAt\<close> refuses. Offsets, sizes and pixel counts are words
  of the source's widths. The only error is \<open>ErrStickerRejected\<close>, written \<open>None\<close>.
\<close>

unbundle bit_operations_syntax

definition minAnimatedFrameMillis :: "32 word" where "minAnimatedFrameMillis = 8"
definition maxAnimatedDurationMillis :: "32 word" where "maxAnimatedDurationMillis = 10000"
definition maxAnimatedStickerFrames :: int where "maxAnimatedStickerFrames = 10000 div 8"

section \<open>Reading\<close>

definition readExactlyAt :: "string \<Rightarrow> nat \<Rightarrow> 64 word \<Rightarrow> string option" where
  "readExactlyAt bytes n offset =
     (let read = take n (drop (unat offset) bytes) in if length read = n then Some read else None)"

text \<open>\<open>binary.LittleEndian\<close> of the standard library, and the 24-bit variant of the source.\<close>

definition le16 :: "string \<Rightarrow> 16 word" where
  "le16 b = of_char (b ! 0) OR push_bit 8 (of_char (b ! 1))"

definition le32 :: "string \<Rightarrow> 32 word" where
  "le32 b = of_char (b ! 0) OR push_bit 8 (of_char (b ! 1)) OR push_bit 16 (of_char (b ! 2)) OR push_bit 24 (of_char (b ! 3))"

definition littleEndian24 :: "string \<Rightarrow> 32 word" where
  "littleEndian24 b = of_char (b ! 0) OR push_bit 8 (of_char (b ! 1)) OR push_bit 16 (of_char (b ! 2))"

text \<open>\<open>header[a:b]\<close>.\<close>

definition slice :: "string \<Rightarrow> nat \<Rightarrow> nat \<Rightarrow> string" where
  "slice s a b = take (b - a) (drop a s)"

text \<open>A chunk: its four-letter type, the offset and size of its payload, and the offset of the next chunk.\<close>

definition webPChunk :: "string \<Rightarrow> 64 word \<Rightarrow> 64 word \<Rightarrow> (string \<times> 64 word \<times> 64 word \<times> 64 word) option" where
  "webPChunk bytes offset limit =
     (if offset > limit \<or> limit - offset < 8 then None
      else case readExactlyAt bytes 8 offset of
        None \<Rightarrow> None
      | Some header \<Rightarrow>
          let payloadSize = ucast (le32 (drop 4 header));
              payloadOffset = offset + 8;
              next = payloadOffset + payloadSize + payloadSize mod 2
          in if next < payloadOffset \<or> next > limit then None
             else Some (take 4 header, payloadOffset, payloadSize, next))"

definition lossyWebPDimensions :: "string \<Rightarrow> 64 word \<Rightarrow> 64 word \<Rightarrow> (32 word \<times> 32 word) option" where
  "lossyWebPDimensions bytes offset bound =
     (if bound < 10 then None
      else case readExactlyAt bytes 10 offset of
        None \<Rightarrow> None
      | Some header \<Rightarrow>
          if header ! 3 \<noteq> CHR 0x9D \<or> header ! 4 \<noteq> CHR 0x01 \<or> header ! 5 \<noteq> CHR 0x2A then None
          else Some (ucast (le16 (slice header 6 8) AND 0x3FFF), ucast (le16 (slice header 8 10) AND 0x3FFF)))"

definition losslessWebPDimensions :: "string \<Rightarrow> 64 word \<Rightarrow> 64 word \<Rightarrow> (32 word \<times> 32 word) option" where
  "losslessWebPDimensions bytes offset bound =
     (if bound < 5 then None
      else case readExactlyAt bytes 5 offset of
        None \<Rightarrow> None
      | Some header \<Rightarrow>
          if header ! 0 \<noteq> CHR 0x2F then None
          else let bits = le32 (slice header 1 5) in Some ((bits AND 0x3FFF) + 1, (drop_bit 14 bits AND 0x3FFF) + 1))"

text \<open>Every accepted chunk lies between its offset and the limit and moves on; no sum wraps.\<close>

lemma webPChunk_next:
  assumes "webPChunk bytes offset limit = Some (t, payloadOffset, payloadSize, next)"
  shows "unat payloadOffset = unat offset + 8 \<and> unat next = unat offset + 8 + unat payloadSize + unat payloadSize mod 2
    \<and> unat next \<le> unat limit \<and> unat payloadSize < 2 ^ 32"
proof -
  obtain header where h: "\<not> limit < offset" "\<not> limit - offset < 8" "payloadSize = ucast (le32 (drop 4 header))"
    "payloadOffset = offset + 8" "next = payloadOffset + payloadSize + payloadSize mod 2" "\<not> next < payloadOffset" "\<not> next > limit"
    using assms by (auto simp: webPChunk_def Let_def split: if_splits option.splits)
  have size: "unat payloadSize < 2 ^ 32"
    using unsigned_less [of "le32 (drop 4 header)", where ?'a = nat] le_less_trans [OF take_bit_nat_less_eq_self]
    by (simp add: h(3) unsigned_ucast_eq)
  have start: "unat payloadOffset = unat offset + 8" using h(1,2) unfolding h(4) by unat_arith
  have pad: "unat (payloadSize mod 2) = unat payloadSize mod 2" by (simp add: unat_mod)
  have "unat (payloadSize + payloadSize mod 2) = unat payloadSize + unat payloadSize mod 2"
    using size by (subst unat_add_lem [THEN iffD1]) (simp_all add: pad)
  moreover have "next = payloadOffset + (payloadSize + payloadSize mod 2)" "payloadOffset \<le> next"
    using h(5,6) by (simp_all only: add.assoc not_less)
  ultimately have "unat next = unat payloadOffset + (unat payloadSize + unat payloadSize mod 2)"
    using no_olen_add_nat [of payloadOffset "payloadSize + payloadSize mod 2"]
      unat_add_lem [of payloadOffset "payloadSize + payloadSize mod 2"] by simp
  moreover have "unat next \<le> unat limit" using h(7) by (simp only: word_le_nat_alt [symmetric] not_less)
  ultimately show ?thesis using start size by (simp only: add.assoc)
qed

lemma webPChunk_moves:
  assumes "nested < limit" "webPChunk bytes nested limit = Some c" "(t, c1) = c" "(payloadOffset, c2) = c1" "(payloadSize, next) = c2"
  shows "unat limit - unat next < unat limit - unat nested"
proof -
  have "webPChunk bytes nested limit = Some (t, payloadOffset, payloadSize, next)" using assms(2-) by simp
  note chunk = webPChunk_next [OF this]
  have "unat nested < unat next" using chunk by linarith
  then show ?thesis using assms(1) by (intro diff_less_mono2) (simp_all add: word_less_nat_alt)
qed

section \<open>Animation frames\<close>

text \<open>The chunks nested in a frame: each image must have the frame's size; the images are counted.\<close>

function frame_images :: "string \<Rightarrow> 64 word \<Rightarrow> 64 word \<Rightarrow> 32 word \<Rightarrow> 32 word \<Rightarrow> int \<Rightarrow> int option" where
  "frame_images bytes nested frameEnd width height imageChunks =
     (if nested < frameEnd
      then
        case webPChunk bytes nested frameEnd of
          None \<Rightarrow> None
        | Some (chunkType, payloadOffset, payloadSize, next) \<Rightarrow>
            if chunkType = ''VP8 ''
            then if lossyWebPDimensions bytes payloadOffset payloadSize = Some (width, height)
              then frame_images bytes next frameEnd width height (imageChunks + 1) else None
            else if chunkType = ''VP8L''
            then if losslessWebPDimensions bytes payloadOffset payloadSize = Some (width, height)
              then frame_images bytes next frameEnd width height (imageChunks + 1) else None
            else frame_images bytes next frameEnd width height imageChunks
      else Some imageChunks)"
  by pat_completeness auto

termination
  by (relation "measure (\<lambda>(bytes, nested, frameEnd, w, h, n). unat frameEnd - unat nested)")
    (simp_all only: wf_measure in_measure prod.case, (erule (4) webPChunk_moves)+)

declare frame_images.simps [simp del]

text \<open>The duration of a frame, when the frame is acceptable.\<close>

definition inspectAnimationFrame :: "string \<Rightarrow> 64 word \<Rightarrow> 64 word \<Rightarrow> 32 word \<Rightarrow> 32 word \<Rightarrow> 32 word option" where
  "inspectAnimationFrame bytes offset bound canvasWidth canvasHeight =
     (if bound < 24 \<or> canvasWidth = 0 \<or> canvasHeight = 0 then None
      else case readExactlyAt bytes 16 offset of
        None \<Rightarrow> None
      | Some header \<Rightarrow>
          let x = 2 * littleEndian24 (slice header 0 3); y = 2 * littleEndian24 (slice header 3 6);
              width = littleEndian24 (slice header 6 9) + 1; height = littleEndian24 (slice header 9 12) + 1
          in if x + width > canvasWidth \<or> y + height > canvasHeight then None
             else case frame_images bytes (offset + 16) (offset + bound) width height 0 of
               None \<Rightarrow> None
             | Some imageChunks \<Rightarrow> if imageChunks = 1 then Some (littleEndian24 (slice header 12 15)) else None)"

section \<open>The file\<close>

record webp =
  webp_width :: "32 word"
  webp_height :: "32 word"
  webp_extended :: bool
  webp_animationFlag :: bool
  webp_animationHeader :: bool
  webp_topLevelImage :: bool
  webp_frames :: int
  webp_totalDuration :: "32 word"

definition zero_webp :: webp where
  "zero_webp = \<lparr>webp_width = 0, webp_height = 0, webp_extended = False, webp_animationFlag = False,
     webp_animationHeader = False, webp_topLevelImage = False, webp_frames = 0, webp_totalDuration = 0\<rparr>"

text \<open>The common part of the cases \<open>VP8\<close> and \<open>VP8L\<close>.\<close>

definition top_level_image :: "(32 word \<times> 32 word) option \<Rightarrow> webp \<Rightarrow> webp option" where
  "top_level_image dimensions w =
     (case dimensions of
        None \<Rightarrow> None
      | Some (chunkWidth, chunkHeight) \<Rightarrow>
          if webp_topLevelImage w \<or> webp_animationFlag w then None
          else if webp_width w = 0
          then Some (w\<lparr>webp_topLevelImage := True, webp_width := chunkWidth, webp_height := chunkHeight\<rparr>)
          else if webp_width w \<noteq> chunkWidth \<or> webp_height w \<noteq> chunkHeight then None
          else Some (w\<lparr>webp_topLevelImage := True\<rparr>))"

text \<open>The \<open>switch\<close> on the type of a chunk.\<close>

definition inspect_chunk :: "string \<Rightarrow> string \<Rightarrow> 64 word \<Rightarrow> 64 word \<Rightarrow> webp \<Rightarrow> webp option" where
  "inspect_chunk bytes chunkType payloadOffset payloadSize w =
     (if chunkType = ''VP8X''
      then
        if webp_extended w \<or> payloadSize \<noteq> 10 then None
        else case readExactlyAt bytes 10 payloadOffset of
          None \<Rightarrow> None
        | Some payload \<Rightarrow>
            Some (w\<lparr>webp_extended := True, webp_animationFlag := (of_char (payload ! 0) AND (2 :: 8 word) \<noteq> 0),
              webp_width := littleEndian24 (slice payload 4 7) + 1, webp_height := littleEndian24 (slice payload 7 10) + 1\<rparr>)
      else if chunkType = ''VP8 '' then top_level_image (lossyWebPDimensions bytes payloadOffset payloadSize) w
      else if chunkType = ''VP8L'' then top_level_image (losslessWebPDimensions bytes payloadOffset payloadSize) w
      else if chunkType = ''ANIM''
      then if webp_animationHeader w \<or> payloadSize \<noteq> 6 then None else Some (w\<lparr>webp_animationHeader := True\<rparr>)
      else if chunkType = ''ANMF''
      then
        if \<not> webp_animationFlag w \<or> \<not> webp_animationHeader w then None
        else case inspectAnimationFrame bytes payloadOffset payloadSize (webp_width w) (webp_height w) of
          None \<Rightarrow> None
        | Some duration \<Rightarrow>
            if duration < minAnimatedFrameMillis \<or> webp_frames w \<ge> maxAnimatedStickerFrames
              \<or> webp_totalDuration w + duration > maxAnimatedDurationMillis then None
            else Some (w\<lparr>webp_frames := webp_frames w + 1, webp_totalDuration := webp_totalDuration w + duration\<rparr>)
      else Some w)"

function inspect_chunks :: "string \<Rightarrow> 64 word \<Rightarrow> 64 word \<Rightarrow> webp \<Rightarrow> webp option" where
  "inspect_chunks bytes offset bound w =
     (if offset < bound
      then
        case webPChunk bytes offset bound of
          None \<Rightarrow> None
        | Some (chunkType, payloadOffset, payloadSize, next) \<Rightarrow>
            (case inspect_chunk bytes chunkType payloadOffset payloadSize w of
               None \<Rightarrow> None
             | Some w' \<Rightarrow> inspect_chunks bytes next bound w')
      else Some w)"
  by pat_completeness auto

termination
  by (relation "measure (\<lambda>(bytes, offset, bound, w). unat bound - unat offset)")
    (simp_all only: wf_measure in_measure prod.case, erule (4) webPChunk_moves)

declare inspect_chunks.simps [simp del]

definition riff_header :: "string \<Rightarrow> 64 word \<Rightarrow> bool" where
  "riff_header riff bound \<longleftrightarrow> take 4 riff = ''RIFF'' \<and> drop 8 riff = ''WEBP'' \<and> ucast (le32 (slice riff 4 8)) + 8 = bound"

definition webp_animated :: "webp \<Rightarrow> bool" where
  "webp_animated w \<longleftrightarrow> webp_animationFlag w \<and> webp_animationHeader w \<and> webp_frames w > 0"

definition inspectStickerWebP :: "string option \<Rightarrow> 64 word \<Rightarrow> sticker_metadata option" where
  "inspectStickerWebP reader bound =
     (case reader of
        None \<Rightarrow> None
      | Some bytes \<Rightarrow>
          if bound < 20 \<or> bound > MaxAnimatedStickerBytes then None
          else case readExactlyAt bytes 12 0 of
            None \<Rightarrow> None
          | Some riff \<Rightarrow>
              if \<not> riff_header riff bound then None
              else case inspect_chunks bytes 12 bound zero_webp of
                None \<Rightarrow> None
              | Some w \<Rightarrow>
                  let animated = webp_animated w
                  in if webp_width w \<noteq> StickerWidth \<or> webp_height w \<noteq> StickerHeight
                       \<or> animated \<noteq> (webp_animationHeader w \<or> webp_frames w > 0) \<or> animated = webp_topLevelImage w
                     then None
                     else let (metadata, valid) = NewStickerSendMetadata (webp_width w) (webp_height w) animated bound
                       in if valid then Some metadata else None)"

section \<open>A file is a sequence of chunks\<close>

text \<open>\<open>chunk_list bytes limit offset cs\<close>: the bytes from the offset to the limit are exactly the chunks \<open>cs\<close>.\<close>

inductive chunk_list :: "string \<Rightarrow> 64 word \<Rightarrow> 64 word \<Rightarrow> (string \<times> 64 word \<times> 64 word) list \<Rightarrow> bool" for bytes limit where
  finish: "chunk_list bytes limit limit []"
| chunk: "offset < limit \<Longrightarrow> webPChunk bytes offset limit = Some (t, payloadOffset, payloadSize, next) \<Longrightarrow>
    chunk_list bytes limit next cs \<Longrightarrow> chunk_list bytes limit offset ((t, payloadOffset, payloadSize) # cs)"

inductive_cases chunk_listE: "chunk_list bytes limit offset cs"

fun inspect_all :: "string \<Rightarrow> (string \<times> 64 word \<times> 64 word) list \<Rightarrow> webp \<Rightarrow> webp option" where
  "inspect_all bytes [] w = Some w"
| "inspect_all bytes ((t, payloadOffset, payloadSize) # cs) w =
     (case inspect_chunk bytes t payloadOffset payloadSize w of None \<Rightarrow> None | Some w' \<Rightarrow> inspect_all bytes cs w')"

lemma inspect_chunks_end: "inspect_chunks bytes limit limit w = Some w"
  by (simp add: inspect_chunks.simps)

lemma inspect_chunks_list:
  "inspect_chunks bytes offset limit w = Some w' \<Longrightarrow> offset \<le> limit \<Longrightarrow>
    \<exists>cs. chunk_list bytes limit offset cs \<and> inspect_all bytes cs w = Some w'"
proof (induction bytes offset limit w rule: inspect_chunks.induct)
  case (1 bytes offset limit w)
  show ?case
  proof (cases "offset < limit")
    case False
    then have "offset = limit" using "1.prems"(2) by simp
    then show ?thesis using "1.prems"(1) finish [of bytes limit] by (intro exI [of _ "[]"]) (simp add: inspect_chunks.simps)
  next
    case True
    obtain t po ps nxt where c: "webPChunk bytes offset limit = Some (t, po, ps, nxt)"
      using "1.prems"(1) True by (subst (asm) inspect_chunks.simps) (auto split: option.splits)
    obtain w1 where w1: "inspect_chunk bytes t po ps w = Some w1" "inspect_chunks bytes nxt limit w1 = Some w'"
      using "1.prems"(1) True c by (subst (asm) inspect_chunks.simps) (auto split: option.splits)
    have "nxt \<le> limit" using webPChunk_next [OF c] by (simp add: word_le_nat_alt)
    then obtain cs where "chunk_list bytes limit nxt cs" "inspect_all bytes cs w1 = Some w'"
      using "1.IH" [OF True c refl refl refl w1(1) w1(2)] by blast
    then show ?thesis using chunk [OF True c] w1(1) by (intro exI [of _ "(t, po, ps) # cs"]) simp
  qed
qed

lemma list_inspect_chunks:
  "chunk_list bytes limit offset cs \<Longrightarrow> inspect_all bytes cs w = inspect_chunks bytes offset limit w"
proof (induction arbitrary: w rule: chunk_list.induct)
  case finish
  show ?case by (simp add: inspect_chunks.simps)
next
  case (chunk offset t po ps nxt cs)
  show ?case
    by (subst inspect_chunks.simps) (use chunk in \<open>simp split: option.split\<close>)
qed

section \<open>What an inspection accumulates\<close>

lemma of_char_take_bit: "take_bit 8 (of_char c :: 32 word) = of_char c"
proof -
  have "take_bit 8 (of_nat (of_char c) :: 32 word) = of_nat (take_bit 8 (of_char c))" by (rule take_bit_of_nat)
  also have "take_bit 8 (of_char c :: nat) = of_char c" by (rule take_bit_nat_eq_self) simp
  finally show ?thesis by (simp only: of_nat_of_char)
qed

lemma of_char_bit: "bit (of_char c :: 32 word) n \<Longrightarrow> n < 8"
  using of_char_take_bit [of c] by (metis bit_take_bit_iff)

lemma littleEndian24_bit: "bit (littleEndian24 b) n \<Longrightarrow> n < 24"
  unfolding littleEndian24_def bit_or_iff bit_push_bit_iff using of_char_bit by fastforce

lemma littleEndian24_small: "unat (littleEndian24 b) < 2 ^ 24"
proof -
  have "take_bit 24 (littleEndian24 b) = littleEndian24 b"
    using littleEndian24_bit by (intro bit_eqI) (auto simp: bit_take_bit_iff)
  then have "unat (take_bit 24 (littleEndian24 b)) = unat (littleEndian24 b)" by (rule arg_cong)
  then have "take_bit 24 (unat (littleEndian24 b)) = unat (littleEndian24 b)" by (simp only: unsigned_take_bit_eq)
  then show ?thesis by (metis take_bit_nat_less_exp)
qed

lemma frame_duration_small: "inspectAnimationFrame bytes po ps cw ch = Some d \<Longrightarrow> unat d < 2 ^ 24"
  using littleEndian24_small by (auto simp: inspectAnimationFrame_def Let_def split: if_splits option.splits)

definition animation_frames :: "(string \<times> 64 word \<times> 64 word) list \<Rightarrow> int" where
  "animation_frames cs = len (filter (\<lambda>c. fst c = ''ANMF'') cs)"

text \<open>Frames are counted, each lasts at least eight milliseconds, and their sum stays within ten seconds.\<close>

definition webp_ok :: "webp \<Rightarrow> bool" where
  "webp_ok w \<longleftrightarrow> 0 \<le> webp_frames w \<and> 8 * webp_frames w \<le> uint (webp_totalDuration w) \<and> uint (webp_totalDuration w) \<le> 10000"

lemma webp_ok_zero: "webp_ok zero_webp"
  by (simp add: webp_ok_def zero_webp_def)

lemma add_duration:
  assumes "webp_ok w" "\<not> duration < minAnimatedFrameMillis" "\<not> webp_totalDuration w + duration > maxAnimatedDurationMillis"
    "unat duration < 2 ^ 24"
  shows "webp_ok (w\<lparr>webp_frames := webp_frames w + 1, webp_totalDuration := webp_totalDuration w + duration\<rparr>)"
proof -
  have d: "8 \<le> uint duration" using assms(2) by (simp add: minAnimatedFrameMillis_def word_less_def not_less)
  have "uint duration < 2 ^ 24" using assms(4) by (simp add: nat_less_iff flip: nat_uint_eq)
  then have "uint (webp_totalDuration w + duration) = uint (webp_totalDuration w) + uint duration"
    using assms(1) by (subst uint_add_lem [THEN iffD1]) (simp_all add: webp_ok_def)
  moreover have "uint (webp_totalDuration w + duration) \<le> 10000"
    using assms(3) by (simp add: maxAnimatedDurationMillis_def word_less_def not_less)
  ultimately show ?thesis using assms(1) d by (simp add: webp_ok_def)
qed

lemma top_level_image_fields:
  "top_level_image d w = Some w' \<Longrightarrow> webp_frames w' = webp_frames w \<and> webp_totalDuration w' = webp_totalDuration w"
  by (auto simp: top_level_image_def split: option.splits if_splits)

lemma inspect_chunk_ok:
  assumes "inspect_chunk bytes t po ps w = Some w'" "webp_ok w"
  shows "webp_ok w' \<and> webp_frames w' = webp_frames w + (if t = ''ANMF'' then 1 else 0)"
proof (cases "t = ''ANMF''")
  case True
  then show ?thesis
    using assms add_duration [OF assms(2)] frame_duration_small
    by (auto simp: inspect_chunk_def split: if_splits option.splits)
next
  case False
  then show ?thesis
    using assms top_level_image_fields [of "lossyWebPDimensions bytes po ps" w w'] top_level_image_fields [of "losslessWebPDimensions bytes po ps" w w']
    by (auto simp: inspect_chunk_def webp_ok_def split: if_splits option.splits)
qed

lemma inspect_all_ok:
  "inspect_all bytes cs w = Some w' \<Longrightarrow> webp_ok w \<Longrightarrow> webp_ok w' \<and> webp_frames w' = webp_frames w + animation_frames cs"
proof (induction bytes cs w rule: inspect_all.induct)
  case (2 bytes t po ps cs w)
  then obtain w1 where w1: "inspect_chunk bytes t po ps w = Some w1" "inspect_all bytes cs w1 = Some w'"
    by (auto split: option.splits)
  note one = inspect_chunk_ok [OF w1(1) "2.prems"(2)]
  then show ?case using "2.IH" [OF w1] by (simp add: animation_frames_def)
qed (simp add: animation_frames_def)

section \<open>Writing chunks\<close>

text \<open>The encoder the inspection is the inverse of: a length in four bytes, the payload, padding to an even size.\<close>

definition bytes32 :: "32 word \<Rightarrow> string" where
  "bytes32 w = [char_of (unat w), char_of (unat (drop_bit 8 w)), char_of (unat (drop_bit 16 w)), char_of (unat (drop_bit 24 w))]"

definition riff_chunk :: "string \<Rightarrow> string \<Rightarrow> string" where
  "riff_chunk t payload = t @ bytes32 (of_nat (length payload)) @ payload @ (if odd (length payload) then [CHR 0x00] else [])"

definition riff_file :: "string \<Rightarrow> string" where
  "riff_file body = ''RIFF'' @ bytes32 (of_nat (length body + 4)) @ ''WEBP'' @ body"

lemma of_char_bytes: "(of_char (char_of (unat (w :: 32 word))) :: 32 word) = take_bit 8 w"
proof -
  have "(of_char (char_of (unat w)) :: 32 word) = of_nat (of_char (char_of (unat w)))" by (simp only: of_nat_of_char)
  also have "\<dots> = of_nat (take_bit 8 (unat w))" by (simp add: take_bit_eq_mod)
  also have "\<dots> = take_bit 8 (of_nat (unat w))" by (simp only: take_bit_of_nat)
  finally show ?thesis by simp
qed

lemma le32_bytes32: "le32 (bytes32 w @ rest) = w"
proof (rule bit_word_eqI)
  fix n
  assume "n < LENGTH(32)"
  then consider "n < 8" | "8 \<le> n" "n < 16" | "16 \<le> n" "n < 24" | "24 \<le> n" "n < 32" by fastforce
  then show "bit (le32 (bytes32 w @ rest)) n = bit w n"
    by cases (simp_all add: le32_def bytes32_def of_char_bytes bit_or_iff bit_push_bit_iff bit_take_bit_iff bit_drop_bit_eq less_diff_conv2)
qed

lemma length_bytes32 [simp]: "length (bytes32 w) = 4"
  by (simp add: bytes32_def)

lemma length_riff_chunk: "length (riff_chunk t p) = length t + 4 + length p + length p mod 2"
  by (simp add: riff_chunk_def) presburger

lemma length_riff_file [simp]: "length (riff_file body) = 12 + length body"
  by (simp add: riff_file_def)

lemma readExactly_prefix:
  "drop (unat offset) bytes = p @ rest \<Longrightarrow> length p = n \<Longrightarrow> readExactlyAt bytes n offset = Some p"
  by (simp add: readExactlyAt_def)

lemma ucast_small: "n < 2 ^ 32 \<Longrightarrow> (ucast (of_nat n :: 32 word) :: 64 word) = of_nat n"
  by (simp add: unsigned_of_nat take_bit_nat_eq_self)

lemma webPChunk_written:
  assumes at: "drop (unat offset) bytes = riff_chunk t p @ tail" and t: "length t = 4" and p: "length p < 2 ^ 32"
    and limit: "unat offset + length (riff_chunk t p) \<le> unat limit"
  shows "webPChunk bytes offset limit = Some (t, offset + 8, of_nat (length p), offset + of_nat (length (riff_chunk t p)))"
proof -
  let ?n = "of_nat (length p) :: 64 word" and ?next = "offset + of_nat (length (riff_chunk t p)) :: 64 word"
  have len: "length (riff_chunk t p) = 8 + length p + length p mod 2" using t by (simp add: length_riff_chunk)
  have fits: "unat offset + length (riff_chunk t p) < 2 ^ 64" using limit unsigned_less [of limit, where ?'a = nat] by simp
  have small: "unat ?n = length p" using p by (simp add: unat_of_nat)
  have "unat (of_nat (length (riff_chunk t p)) :: 64 word) = length (riff_chunk t p)" using fits by (simp add: unat_of_nat)
  then have nxt: "unat ?next = unat offset + length (riff_chunk t p)"
    using fits by (subst unat_add_lem [THEN iffD1]) simp_all
  have start: "unat (offset + 8) = unat offset + 8"
    using fits len by (subst unat_add_lem [THEN iffD1]) simp_all
  have header: "readExactlyAt bytes 8 offset = Some (t @ bytes32 (of_nat (length p)))"
    by (rule readExactly_prefix [OF _ ]) (use at t in \<open>simp_all add: riff_chunk_def\<close>)
  have count: "(ucast (of_nat (length p) :: 32 word) :: 64 word) = ?n"
    by (rule ucast_small [OF p])
  have "?n mod 2 = of_nat (length p mod 2)"
    using p by (simp add: word_arith_nat_mod small unat_of_nat)
  then have sum: "offset + 8 + ?n + ?n mod 2 = ?next" by (simp add: len)
  have "\<not> offset > limit \<and> \<not> limit - offset < 8"
    using limit len by unat_arith
  moreover have "\<not> ?next < offset + 8" "\<not> ?next > limit"
    using nxt start limit len by (simp_all add: word_less_nat_alt)
  ultimately show ?thesis
    using t le32_bytes32 [of "of_nat (length p)" "[]"] by (simp add: webPChunk_def header Let_def count sum)
qed

section \<open>Properties\<close>


definition still_sticker :: "string \<Rightarrow> string" where
  "still_sticker pixels = riff_file (riff_chunk ''VP8L'' ([CHR 0x2F, CHR 0xFF, CHR 0xC1, CHR 0x7F, CHR 0x00] @ pixels))"

definition animated_sticker :: string where
  "animated_sticker = riff_file
     (riff_chunk ''VP8X'' ([CHR 0x02, CHR 0x00, CHR 0x00, CHR 0x00] @ [CHR 0xFF, CHR 0x01, CHR 0x00] @ [CHR 0xFF, CHR 0x01, CHR 0x00])
      @ riff_chunk ''ANIM'' (replicate 6 (CHR 0x00))
      @ riff_chunk ''ANMF'' (replicate 6 (CHR 0x00) @ [CHR 0xFF, CHR 0x01, CHR 0x00] @ [CHR 0xFF, CHR 0x01, CHR 0x00] @ [CHR 0x64, CHR 0x00, CHR 0x00, CHR 0x00]
          @ riff_chunk ''VP8L'' [CHR 0x2F, CHR 0xFF, CHR 0xC1, CHR 0x7F, CHR 0x00]))"


text \<open>Every still lossless file of the right dimensions that fits the limit is accepted, whatever its pixels are.\<close>

theorem still_sticker_accepted:
  assumes "length pixels \<le> 102374" "unat bound = length (still_sticker pixels)"
  shows "inspectStickerWebP (Some (still_sticker pixels)) bound
    = Some \<lparr>sticker_width = 512, sticker_height = 512, sticker_animated = False\<rparr>"
proof -
  let ?p = "[CHR 0x2F, CHR 0xFF, CHR 0xC1, CHR 0x7F, CHR 0x00] @ pixels"
  let ?c = "riff_chunk ''VP8L'' ?p"
  have size: "length ?c = 13 + length pixels + (5 + length pixels) mod 2"
    by (simp add: length_riff_chunk) presburger
  have bound: "unat bound = 12 + length ?c" using assms(2) by (simp add: still_sticker_def)
  have bound_word: "bound = of_nat (12 + length ?c)" unfolding bound [symmetric] by simp
  have body: "drop 12 (still_sticker pixels) = ?c" by (simp add: still_sticker_def riff_file_def bytes32_def)
  have at: "webPChunk (still_sticker pixels) 12 bound = Some (''VP8L'', 12 + 8, of_nat (length ?p), 12 + of_nat (length ?c))"
    by (rule webPChunk_written [where tail = "[]"]) (use assms(1) bound body in simp_all)
  have "drop 20 (still_sticker pixels) = drop 8 ?c" using arg_cong [OF body, of "drop 8"] by simp
  then have "drop (unat (20 :: 64 word)) (still_sticker pixels) = [CHR 0x2F, CHR 0xFF, CHR 0xC1, CHR 0x7F, CHR 0x00] @ drop 13 ?c"
    by (simp add: riff_chunk_def bytes32_def)
  then have header: "readExactlyAt (still_sticker pixels) 5 20 = Some [CHR 0x2F, CHR 0xFF, CHR 0xC1, CHR 0x7F, CHR 0x00]"
    by (rule readExactly_prefix) simp
  have dims: "losslessWebPDimensions (still_sticker pixels) 20 (of_nat (length ?p)) = Some (512, 512)"
  proof -
    have "le32 [CHR 0xFF, CHR 0xC1, CHR 0x7F, CHR 0x00] = 0x7FC1FF" by code_simp
    moreover have "\<not> (of_nat (length ?p) :: 64 word) < 5"
      unfolding word_less_nat_alt by (subst unat_of_nat) (use assms(1) in simp)
    ultimately show ?thesis by (simp add: losslessWebPDimensions_def header slice_def)
  qed
  have whole: "12 + of_nat (length ?c) = bound" by (simp add: bound_word)
  have "(12 :: 64 word) < bound" using bound size by (simp add: word_less_nat_alt)
  then have "inspect_chunks (still_sticker pixels) 12 bound zero_webp
      = Some (zero_webp\<lparr>webp_topLevelImage := True, webp_width := 512, webp_height := 512\<rparr>)"
    using at [unfolded whole] dims
    by (subst inspect_chunks.simps) (simp add: inspect_chunk_def top_level_image_def zero_webp_def inspect_chunks_end)
  moreover have "riff_header (take 12 (still_sticker pixels)) bound"
  proof -
    have "le32 (bytes32 (of_nat (4 + length ?c)) @ []) = of_nat (4 + length ?c)" by (rule le32_bytes32)
    moreover have "(ucast (of_nat (4 + length ?c) :: 32 word) :: 64 word) + 8 = bound"
    proof -
      have "(ucast (of_nat (4 + length ?c) :: 32 word) :: 64 word) = of_nat (4 + length ?c)"
        by (rule ucast_small) (use assms(1) size in simp)
      moreover have "(of_nat (4 + n) :: 64 word) + 8 = of_nat (12 + n)" for n by simp
      ultimately show ?thesis by (simp only: bound_word)
    qed
    ultimately show ?thesis by (simp add: riff_header_def still_sticker_def riff_file_def slice_def bytes32_def add.commute)
  qed
  moreover have "readExactlyAt (still_sticker pixels) 12 0 = Some (take 12 (still_sticker pixels))"
    by (simp add: readExactlyAt_def still_sticker_def)
  moreover have "\<not> bound < 20" "\<not> bound > MaxAnimatedStickerBytes" "bound \<le> MaxStaticStickerBytes" "bound \<noteq> 0"
    using assms(1) bound size
    by (auto simp: word_less_nat_alt word_le_nat_alt MaxAnimatedStickerBytes_def MaxStaticStickerBytes_def)
  ultimately show ?thesis
    by (simp add: inspectStickerWebP_def NewStickerSendMetadata_def sticker_ValidFor_def StickerWidth_def StickerHeight_def zero_webp_def webp_animated_def)
qed

theorem still_sticker_accepted_witness:
  "inspectStickerWebP (Some (still_sticker ''pixels'')) 32 = Some \<lparr>sticker_width = 512, sticker_height = 512, sticker_animated = False\<rparr>"
  by (rule still_sticker_accepted) (simp_all add: still_sticker_def length_riff_chunk)

definition disguised_sticker :: string where
  "disguised_sticker = riff_file (riff_chunk ''VP8L'' [CHR 0x2F, CHR 0x63, CHR 0xC0, CHR 0x18, CHR 0x00]
     @ riff_chunk ''VP8X'' ([CHR 0x00, CHR 0x00, CHR 0x00, CHR 0x00] @ [CHR 0xFF, CHR 0x01, CHR 0x00] @ [CHR 0xFF, CHR 0x01, CHR 0x00]))"


end
