(* ===== verification/Sending.thy ===== *)
theory Sending
  imports Service Sticker
begin

text \<open>
  Sending: \<open>internal/service/send.go\<close> and \<open>media_send.go\<close> on the core of theory \<open>Service\<close>. The transport is a parameter, a field
  of the core. The context is looked at before the slot is taken (look 0), after the reservation (1) and after a failed
  transport call (2 and 3); \<open>None\<close> is a nil context. While the transport works, the other goroutines may do anything to the
  core: that is the argument \<open>meanwhile\<close>. The deferred calls (freeing the slot, releasing a reservation that was not
  committed) are written at the exits they run at.
\<close>

abbreviation send_error :: "core_kind \<Rightarrow> core_error" where
  "send_error kind \<equiv> CoreError kind OperationSend NoCause"

section \<open>Requests\<close>

record send_text_request =
  str_chatID :: chat_id
  str_text :: string
  str_reply :: text_quote

definition cloneSendQuote :: "text_quote \<Rightarrow> model_error + text_quote" where
  "cloneSendQuote q =
     (let owned = (if media_kind (quote_media q) \<noteq> 0
            then NewMediaQuote (message_id_value (quote_id q)) (quote_text q) (quote_fromMe q) (quote_media q)
            else NewTextQuote (message_id_value (quote_id q)) (quote_text q) (quote_fromMe q))
      in if \<not> is_ok owned \<or> chat_id_value (quote_participantID q) = [] then owned
         else on_ok owned (\<lambda>o'. quote_WithParticipant o' (chat_id_value (quote_participantID q))))"

definition NewSendTextRequest :: "string \<Rightarrow> string \<Rightarrow> text_quote list \<Rightarrow> core_error + send_text_request" where
  "NewSendTextRequest cid text quotes =
     (case NewChatID cid of
        Inl _ \<Rightarrow> Inl (send_error CoreMalformed)
      | Inr ownedChatID \<Rightarrow>
          if text = [] \<or> \<not> valid_utf8 text \<or> len text > MaxRetainedTextBytes then Inl (send_error CoreMalformed)
          else
            (case quotes of
               [] \<Rightarrow> Inr \<lparr>str_chatID = ownedChatID, str_text = text, str_reply = zero_quote\<rparr>
             | [q] \<Rightarrow>
                 (case cloneSendQuote q of
                    Inl _ \<Rightarrow> Inl (send_error CoreMalformed)
                  | Inr reply \<Rightarrow> Inr \<lparr>str_chatID = ownedChatID, str_text = text, str_reply = reply\<rparr>)
             | _ \<Rightarrow> Inl (send_error CoreMalformed)))"

definition request_quotes :: "send_text_request \<Rightarrow> text_quote list" where
  "request_quotes r = (if message_id_value (quote_id (str_reply r)) = [] then [] else [str_reply r])"

definition MaxLocalMediaPathBytes :: int where "MaxLocalMediaPathBytes = 4096"
definition mediaSniffBytes :: nat where "mediaSniffBytes = 512"

datatype local_media_error = LocalMediaRejected | StickerRejected

record send_media_request =
  smr_chatID :: chat_id
  smr_path :: string
  smr_media :: media
  smr_size :: "64 word"
  smr_sticker :: sticker_metadata

definition starts_with :: "string \<Rightarrow> string \<Rightarrow> bool" where
  "starts_with s prefix \<longleftrightarrow> take (length prefix) s = prefix"

definition classifyOutgoingMedia :: "string \<Rightarrow> 8 word" where
  "classifyOutgoingMedia mimeType =
     (if starts_with mimeType ''image/'' then MediaImage
      else if starts_with mimeType ''video/'' then MediaVideo
      else if starts_with mimeType ''audio/'' then MediaAudio
      else MediaDocument)"

text \<open>
  A local file as \<open>os.Open\<close>, \<open>Stat\<close> and \<open>ReadAt\<close> show it; a path that cannot be opened has none. Reading and the size
  are of the same snapshot of the file. \<open>io.ReadFull\<close> on an empty file reports \<open>EOF\<close>, which is refused.
\<close>

record local_file =
  file_regular :: bool
  file_bytes :: string

text \<open>\<open>filepath.Base\<close> and \<open>filepath.Ext\<close> of a non-empty path, on a system whose separator is the slash.\<close>

definition filepath_Base :: "string \<Rightarrow> string" where
  "filepath_Base path =
     (let s = rev (dropWhile (\<lambda>c. c = CHR ''/'') (rev path));
          base = rev (takeWhile (\<lambda>c. c \<noteq> CHR ''/'') (rev s))
      in if path = [] then ''.'' else if base = [] then ''/'' else base)"

definition filepath_Ext :: "string \<Rightarrow> string" where
  "filepath_Ext path =
     (let tail = takeWhile (\<lambda>c. c \<noteq> CHR ''/'') (rev path); ext = takeWhile (\<lambda>c. c \<noteq> CHR ''.'') tail
      in if length ext < length tail then CHR ''.'' # rev ext else [])"

text \<open>\<open>strings.EqualFold\<close> with \<open>.webp\<close>, whose letters have no folding partner outside ASCII.\<close>

definition ascii_lower :: "char \<Rightarrow> char" where
  "ascii_lower c = (if 65 \<le> byte c \<and> byte c \<le> 90 then char_of (byte c + 32) else c)"

definition has_webp_suffix :: "string \<Rightarrow> bool" where
  "has_webp_suffix path \<longleftrightarrow> map ascii_lower (filepath_Ext path) = ''.webp''"

text \<open>\<open>sniff\<close> is \<open>http.DetectContentType\<close>, \<open>files\<close> the file system.\<close>

definition NewSendMediaRequest ::
  "(string \<Rightarrow> string) \<Rightarrow> (string \<Rightarrow> local_file option) \<Rightarrow> string \<Rightarrow> string \<Rightarrow> local_media_error + send_media_request" where
  "NewSendMediaRequest sniff files cid path =
     (case NewChatID cid of
        Inl _ \<Rightarrow> Inl LocalMediaRejected
      | Inr ownedChatID \<Rightarrow>
          if path = [] \<or> len path > MaxLocalMediaPathBytes \<or> \<not> valid_utf8 path \<or> CHR 0x00 \<in> set path then Inl LocalMediaRejected
          else
            (case files path of
               None \<Rightarrow> Inl LocalMediaRejected
             | Some f \<Rightarrow>
                 if \<not> file_regular f \<or> file_bytes f = [] \<or> len (file_bytes f) > MaxOutgoingMediaBytes then Inl LocalMediaRejected
                 else
                   let mimeType = sniff (take mediaSniffBytes (file_bytes f));
                       bound = of_nat (length (file_bytes f)) :: 64 word;
                       request = (\<lambda>kind sticker.
                         case NewMedia kind (filepath_Base path) mimeType of
                           Inl _ \<Rightarrow> Inl LocalMediaRejected
                         | Inr md \<Rightarrow> Inr \<lparr>smr_chatID = ownedChatID, smr_path = path, smr_media = md, smr_size = bound, smr_sticker = sticker\<rparr>)
                   in if mimeType = ''image/webp''
                      then (case inspectStickerWebP (Some (file_bytes f)) bound of
                          None \<Rightarrow> Inl StickerRejected
                        | Some sticker \<Rightarrow> request MediaSticker sticker)
                      else if has_webp_suffix path then Inl StickerRejected
                      else request (classifyOutgoingMedia mimeType) zero_sticker))"

definition cloneSendMediaRequest :: "send_media_request \<Rightarrow> core_error + send_media_request" where
  "cloneSendMediaRequest r =
     (case NewChatID (chat_id_value (smr_chatID r)) of
        Inl _ \<Rightarrow> Inl (send_error CoreMalformed)
      | Inr chatID \<Rightarrow>
          if smr_path r = [] \<or> len (smr_path r) > MaxLocalMediaPathBytes \<or> \<not> valid_utf8 (smr_path r)
            \<or> smr_size r = 0 \<or> uint (smr_size r) > MaxOutgoingMediaBytes
          then Inl (send_error CoreMalformed)
          else
            (case NewMedia (media_kind (smr_media r)) (media_name (smr_media r)) (media_mimeType (smr_media r)) of
               Inl _ \<Rightarrow> Inl (send_error CoreMalformed)
             | Inr md \<Rightarrow>
                 if media_kind md = MediaSticker \<and> \<not> sticker_ValidFor (smr_sticker r) (smr_size r)
                   \<or> media_kind md \<noteq> MediaSticker \<and> \<not> sticker_IsZero (smr_sticker r)
                 then Inl (send_error CoreMalformed)
                 else Inr \<lparr>smr_chatID = chatID, smr_path = smr_path r, smr_media = md, smr_size = smr_size r,
                   smr_sticker = smr_sticker r\<rparr>))"

section \<open>The steps of a send\<close>

definition reserve_error :: "service_error \<Rightarrow> core_error" where
  "reserve_error e =
     (if e = QueueFull then send_error CoreBusy
      else if e = QueueStopped then send_error CoreClosed
      else CoreError CoreInvariant OperationSend (QueueCause e))"

definition transport_failure :: "looks \<Rightarrow> transport_error \<Rightarrow> core_error" where
  "transport_failure ctx e =
     (if e = TransportCancelled \<or> e = TransportDeadline \<or> ctx 2 \<noteq> None
      then CoreError CoreCancelled OperationSend (case ctx 3 of Some c \<Rightarrow> ContextCause c | None \<Rightarrow> TransportCause e)
      else CoreError CoreDegraded OperationSend (TransportCause e))"

definition release_reserved :: "nat \<Rightarrow> core \<Rightarrow> core" where
  "release_reserved h core = core\<lparr>core_realtimeQ := fst (reservation_release (core_realtimeQ core) h)\<rparr>"

definition free_slot :: "core \<Rightarrow> core" where
  "free_slot core = core\<lparr>core_sendSlot := False\<rparr>"

text \<open>
  From the reservation to the commit, the part \<open>SendText\<close> and \<open>SendMedia\<close> share word for word: \<open>transport\<close> is the answer of the
  transport, \<open>accept\<close> the check of the event it returned.
\<close>

definition send_reserved ::
  "(core \<Rightarrow> core) \<Rightarrow> looks \<Rightarrow> transport_error + event \<Rightarrow> (event \<Rightarrow> event option) \<Rightarrow> core \<Rightarrow> core \<times> core_error option" where
  "send_reserved meanwhile ctx transport accept core =
     (case tryReserveCapacity (core_realtimeQ core) MaxNormalizedEventBytes of
        (q, Inl e) \<Rightarrow> (core\<lparr>core_realtimeQ := q\<rparr>, Some (reserve_error e))
      | (q, Inr h) \<Rightarrow>
          let core1 = core\<lparr>core_realtimeQ := q\<rparr> in
          case ctx 1 of
            Some c \<Rightarrow> (release_reserved h core1, Some (CoreError CoreCancelled OperationSend (ContextCause c)))
          | None \<Rightarrow>
              let core2 = meanwhile core1 in
              case transport of
                Inl e \<Rightarrow> (release_reserved h core2, Some (transport_failure ctx e))
              | Inr ev \<Rightarrow>
                  (case accept ev of
                     None \<Rightarrow> (release_reserved h core2, Some (send_error CoreMalformed))
                   | Some normalized \<Rightarrow>
                       (case reservation_commit weighEvent (core_realtimeQ core2) h normalized of
                          (q2, None) \<Rightarrow> (core2\<lparr>core_realtimeQ := q2\<rparr>, None)
                        | (q2, Some e) \<Rightarrow>
                            (release_reserved h (core2\<lparr>core_realtimeQ := q2\<rparr>), Some (CoreError CoreInvariant OperationSend (QueueCause e))))))"

text \<open>The slot admits one send at a time; it is held while \<open>body\<close> runs.\<close>

definition in_send_slot :: "(core \<Rightarrow> core \<times> core_error option) \<Rightarrow> core \<Rightarrow> core \<times> core_error option" where
  "in_send_slot body core =
     (if core_sendSlot core then (core, Some (send_error CoreBusy))
      else (let (core', err) = body (core\<lparr>core_sendSlot := True\<rparr>) in (free_slot core', err)))"

definition accept_text :: "send_text_request \<Rightarrow> event \<Rightarrow> event option" where
  "accept_text owned ev =
     (case NewEvent (message_WithQuote (event_message ev) (str_reply owned)) (event_receivedAt ev) of
        Inl _ \<Rightarrow> None
      | Inr normalized \<Rightarrow>
          let m = event_message normalized in
          if msg_chatID m \<noteq> str_chatID owned \<or> \<not> msg_fromMe m \<or> \<not> msg_bodyRetained m \<or> msg_text m \<noteq> str_text owned
          then None else Some normalized)"

definition SendText :: "(core \<Rightarrow> core) \<Rightarrow> looks option \<Rightarrow> send_text_request \<Rightarrow> core \<Rightarrow> core \<times> core_error option" where
  "SendText meanwhile context request core =
     (case context of
        None \<Rightarrow> (core, Some (send_error CoreClosed))
      | Some ctx \<Rightarrow>
          (case core_sender core of
             None \<Rightarrow> (core, Some (send_error CoreClosed))
           | Some sender \<Rightarrow>
               if \<not> core_acceptingSends core then (core, Some (send_error CoreClosed))
               else
                 (case NewSendTextRequest (chat_id_value (str_chatID request)) (str_text request) (request_quotes request) of
                    Inl e \<Rightarrow> (core, Some e)
                  | Inr owned \<Rightarrow>
                      (case ctx 0 of
                         Some c \<Rightarrow> (core, Some (CoreError CoreCancelled OperationSend (ContextCause c)))
                       | None \<Rightarrow>
                           in_send_slot (send_reserved meanwhile ctx
                             (sender (str_chatID owned) (str_text owned) (request_quotes owned)) (accept_text owned)) core))))"

definition accept_media :: "send_media_request \<Rightarrow> event \<Rightarrow> event option" where
  "accept_media owned ev =
     (case NewEvent (event_message ev) (event_receivedAt ev) of
        Inl _ \<Rightarrow> None
      | Inr normalized \<Rightarrow>
          let m = event_message normalized; md = msg_media m in
          if msg_chatID m \<noteq> smr_chatID owned \<or> \<not> msg_fromMe m \<or> msg_text m \<noteq> []
            \<or> media_kind md \<noteq> media_kind (smr_media owned) \<or> media_name md \<noteq> media_name (smr_media owned)
            \<or> media_mimeType md \<noteq> media_mimeType (smr_media owned)
            \<or> (case media_Download md of None \<Rightarrow> True | Some d \<Rightarrow> media_declaredBytes d \<noteq> smr_size owned)
          then None else Some normalized)"

definition SendMedia :: "(core \<Rightarrow> core) \<Rightarrow> looks option \<Rightarrow> send_media_request \<Rightarrow> core \<Rightarrow> core \<times> core_error option" where
  "SendMedia meanwhile context request core =
     (case context of
        None \<Rightarrow> (core, Some (send_error CoreClosed))
      | Some ctx \<Rightarrow>
          (case core_mediaSender core of
             None \<Rightarrow> (core, Some (send_error CoreClosed))
           | Some sender \<Rightarrow>
               if \<not> core_acceptingSends core then (core, Some (send_error CoreClosed))
               else
                 (case cloneSendMediaRequest request of
                    Inl e \<Rightarrow> (core, Some e)
                  | Inr owned \<Rightarrow>
                      (case ctx 0 of
                         Some c \<Rightarrow> (core, Some (CoreError CoreCancelled OperationSend (ContextCause c)))
                       | None \<Rightarrow>
                           in_send_slot (send_reserved meanwhile ctx
                             (sender (smr_chatID owned) (smr_path owned) (smr_media owned) (smr_size owned) (smr_sticker owned))
                             (accept_media owned)) core))))"

section \<open>A reservation survives the other goroutines\<close>

text \<open>\<open>pledged q h w\<close>: reservation \<open>h\<close> is still open and its permit still pays for \<open>w\<close> bytes.\<close>

definition pledged :: "'a bqueue \<Rightarrow> nat \<Rightarrow> int \<Rightarrow> bool" where
  "pledged q h w \<longleftrightarrow> usable q h \<and> live (q_budget q) (the (res_permit (q_handles q ! h))) = Some w"

definition touches :: "nat \<Rightarrow> 'a queue_op \<Rightarrow> bool" where
  "touches h op \<longleftrightarrow> (case op of OpCommit i v \<Rightarrow> i = h | OpCancel i \<Rightarrow> i = h | _ \<Rightarrow> False)"

lemma active_permit_member:
  "h < length rs \<Longrightarrow> res_active (rs ! h) \<Longrightarrow> res_permit (rs ! h) = Some r \<Longrightarrow> r \<in> set (active_permits rs)"
  unfolding active_permits_def
  by (induction rs arbitrary: h) (auto simp: map_filter_simps nth_Cons split: nat.splits option.splits)

lemma usable_permits_differ:
  assumes wf: "wf_queue weigh q" and u: "usable q h" "usable q i" "h \<noteq> i"
  shows "res_permit (q_handles q ! h) \<noteq> res_permit (q_handles q ! i)"
proof -
  obtain r us vs where r: "res_permit (q_handles q ! i) = Some r" "active_permits (q_handles q) = us @ r # vs"
    "active_permits ((q_handles q)[i := spent]) = us @ vs"
    using usable_permit [OF wf u(2)] by metis
  have "distinct (active_permits (q_handles q))" using wf by (simp add: wf_queue_def held_def)
  then have "r \<notin> set (active_permits ((q_handles q)[i := spent]))" unfolding r by auto
  then show ?thesis
    using active_permit_member [of h "(q_handles q)[i := spent]" r] u r(1) by (auto simp: usable_def)
qed

lemma pledged_same: "pledged q h w \<Longrightarrow> q_handles q' = q_handles q \<Longrightarrow>
    live (q_budget q') (the (res_permit (q_handles q ! h))) = live (q_budget q) (the (res_permit (q_handles q ! h))) \<Longrightarrow>
    pledged q' h w"
  by (simp add: pledged_def usable_def)

lemma pledged_spend:
  assumes wf: "wf_queue weigh q" and p: "pledged q h w" and u: "usable q i" "h \<noteq> i"
    and q': "q_handles q' = (q_handles q)[i := spent]"
    and live: "\<And>r. res_permit (q_handles q ! i) \<noteq> Some r \<Longrightarrow> live (q_budget q) r \<noteq> None \<Longrightarrow> live (q_budget q') r = live (q_budget q) r"
  shows "pledged q' h w"
proof -
  have "usable q h" using p by (simp add: pledged_def)
  then have "res_permit (q_handles q ! h) \<noteq> res_permit (q_handles q ! i)" by (rule usable_permits_differ [OF wf _ u])
  then show ?thesis using p u q' live [of "the (res_permit (q_handles q ! h))"] by (auto simp: pledged_def usable_def)
qed

lemma step_keeps_pledge:
  assumes ok: "system_ok weigh (q, ls)" and p: "pledged q h w" and t: "\<not> touches h op"
  shows "pledged (fst (queue_step weigh op (q, ls))) h w"
proof -
  have wf: "wf_queue weigh q" using ok by (simp add: system_ok_def)
  then have wfb: "wf_budget (q_budget q)" by (simp add: wf_queue_def)
  let ?r = "the (res_permit (q_handles q ! h))"
  have lv: "live (q_budget q) ?r = Some w" and u: "usable q h" using p by (simp_all add: pledged_def)
  have mem: "?r \<in> set (held q)" using active_permit_member u by (auto simp: held_def usable_def)
  show ?thesis
  proof (cases op)
    case (OpPut v)
    have "q_handles (fst (TryPut weigh q v)) = q_handles q
      \<and> live (q_budget (fst (TryPut weigh q v))) ?r = live (q_budget q) ?r"
      using TryPut_cases [OF wf, of v] lv by (cases "admits weigh q v") (auto simp: same_queue_def)
    then show ?thesis using pledged_same [OF p, of "fst (TryPut weigh q v)"] by (simp add: OpPut)
  next
    case OpTake
    show ?thesis
    proof (cases "q_count q = 0")
      case True
      then show ?thesis using p by (simp add: OpTake TryTake_def)
    next
      case False
      then obtain q1 v r where "TryTake q = (q1, Some (Cell v r))" "q_budget q1 = q_budget q" "q_handles q1 = q_handles q"
        using TryTake_cases [OF wf] by blast
      then show ?thesis using pledged_same [OF p, of q1] by (simp add: OpTake)
    qed
  next
    case (OpReserve n)
    show ?thesis
    proof (cases "tryReserveCapacity q n")
      case (Pair q1 res)
      show ?thesis
      proof (cases res)
        case (Inl e)
        then have "q1 = q" using reserve_fails Pair by blast
        then show ?thesis using p Pair by (simp add: OpReserve)
      next
        case (Inr i)
        obtain r where "q_handles q1 = q_handles q @ [\<lparr>res_permit = Some r, res_active = True\<rparr>]"
          using Pair [unfolded Inr] by (auto simp: tryReserveCapacity_def split: if_splits prod.splits sum.splits)
        moreover from tryReserveCapacity_ok [OF wf Pair [unfolded Inr]] obtain s where "live (q_budget q) s = None"
          "live (q_budget q1) = (live (q_budget q))(s \<mapsto> n)" by blast
        ultimately show ?thesis using p lv Pair by (auto simp: OpReserve pledged_def usable_def nth_append)
      qed
    qed
  next
    case (OpCommit i v)
    consider e where "reservation_commit weigh q i v = (q, Some e)"
      | n b r' where "usable q i" "weigh v = Some n" "0 < n" "budget_replace (q_budget q) (res_permit (q_handles q ! i)) n = (b, Inr r')"
      using commit_cases [OF wf, of i v] by blast
    then show ?thesis
    proof cases
      case 1
      then show ?thesis using p by (simp add: OpCommit)
    next
      case 2
      note rep = replace_ok [OF wfb 2(4)]
      obtain q1 where c: "reservation_commit weigh q i v = (q1, None)" using commit_step [OF wf 2] by blast
      then have q1: "q_handles q1 = (q_handles q)[i := spent]" "q_budget q1 = b"
        using 2 by (auto simp: reservation_commit_def split: if_splits)
      have "pledged q1 h w"
        by (rule pledged_spend [OF wf p 2(1) _ q1(1)]) (use t rep q1(2) OpCommit in \<open>auto simp: touches_def\<close>)
      then show ?thesis using c by (simp add: OpCommit)
    qed
  next
    case (OpCancel i)
    show ?thesis
    proof (cases "usable q i")
      case True
      obtain q1 where c: "reservation_release q i = (q1, None)"
        "live (q_budget q1) = (live (q_budget q))(the (res_permit (q_handles q ! i)) := None)"
        using release_reservation_ok [OF wf True] by blast
      then have q1: "q_handles q1 = (q_handles q)[i := spent]"
        using True by (auto simp: reservation_release_def split: if_splits prod.splits)
      have "pledged q1 h w"
        by (rule pledged_spend [OF wf p True _ q1]) (use t c(2) True OpCancel in \<open>auto simp: touches_def usable_def\<close>)
      then show ?thesis using c by (simp add: OpCancel)
    next
      case False
      then show ?thesis using p by (simp add: OpCancel reservation_release_def)
    qed
  next
    case OpClose
    show ?thesis using pledged_same [OF p, of "queue_Close q"] by (simp add: OpClose queue_Close_def)
  next
    case (OpDone i)
    show ?thesis
    proof (cases "i < length ls")
      case True
      then have out: "outside q (ls ! i)" using ok by (simp add: system_ok_def)
      then have "ls ! i \<noteq> ?r" using mem by (auto simp: outside_def)
      then have "live (q_budget (q\<lparr>q_budget := fst (permit_Release (q_budget q) (Some (ls ! i)))\<rparr>)) ?r = live (q_budget q) ?r"
        using lease_Release_ok(3) [OF wf, of "ls ! i"] out by (simp add: outside_def)
      from pledged_same [OF p _ this] show ?thesis using True by (simp add: OpDone)
    next
      case False
      then show ?thesis using p by (simp add: OpDone)
    qed
  qed
qed

lemma steps_keep_pledge:
  assumes "system_ok weigh s" "pledged (fst s) h w" "\<forall>op \<in> set ops. \<not> touches h op"
  shows "system_ok weigh (fold (queue_step weigh) ops s) \<and> pledged (fst (fold (queue_step weigh) ops s)) h w"
  using assms
proof (induction ops arbitrary: s)
  case (Cons op ops)
  have "system_ok weigh (queue_step weigh op s)" by (rule bounded_fifo.step_ok [OF Cons.prems(1)])
  moreover have "pledged (fst (queue_step weigh op s)) h w"
    using step_keeps_pledge [of weigh "fst s" "snd s"] Cons.prems by simp
  ultimately show ?case using Cons.IH Cons.prems(3) by simp
qed simp

lemma pledge_reserved:
  assumes ok: "system_ok weigh (q, ls)" and r: "tryReserveCapacity q w = (q1, Inr h)"
  shows "h = length (q_handles q)" "system_ok weigh (q1, ls)" "pledged q1 h w" "queue_values q1 = queue_values q"
proof -
  have wf: "wf_queue weigh q" using ok by (simp add: system_ok_def)
  note t = tryReserveCapacity_ok [OF wf r]
  then show "h = length (q_handles q)" by blast
  show "system_ok weigh (q1, ls)" using t system_spares [OF ok] by blast
  show "queue_values q1 = queue_values q" using t queue_values_same by blast
  show "pledged q1 h w" using t by (auto simp: pledged_def)
qed

lemma pledge_released:
  assumes wf: "wf_queue weigh q" and p: "pledged q h w"
  shows "wf_queue weigh (fst (reservation_release q h))" "\<not> usable (fst (reservation_release q h)) h"
    "queue_values (fst (reservation_release q h)) = queue_values q"
proof -
  have "usable q h" using p by (simp add: pledged_def)
  then obtain q1 where "reservation_release q h = (q1, None)" "wf_queue weigh q1" "contents q1 = contents q" "\<not> usable q1 h"
    using release_reservation_ok [OF wf] by blast
  then show "wf_queue weigh (fst (reservation_release q h))" "\<not> usable (fst (reservation_release q h)) h"
    "queue_values (fst (reservation_release q h)) = queue_values q" using queue_values_same by auto
qed

lemma pledge_committed:
  assumes wf: "wf_queue weigh q" and p: "pledged q h w" and v: "weigh v = Some n" "0 < n" "n \<le> w"
  obtains q1 where "reservation_commit weigh q h v = (q1, None)" "wf_queue weigh q1" "\<not> usable q1 h"
    "queue_values q1 = queue_values q @ [v]"
  using commit_ok [OF wf _ v(1,2) _ v(3)] p queue_values_snoc by (metis pledged_def)

section \<open>What a send does to the queue\<close>

text \<open>The other goroutines run any queue operations while the transport is busy, but the reservation is not theirs.\<close>

definition others :: "event queue_op list \<Rightarrow> permit_ref list \<Rightarrow> core \<Rightarrow> core" where
  "others ops ls core = core\<lparr>core_realtimeQ := fst (fold (queue_step weighEvent) ops (core_realtimeQ core, ls))\<rparr>"

text \<open>The queue after the reservation and the operations of the others.\<close>

definition meanwhile_queue :: "event queue_op list \<Rightarrow> permit_ref list \<Rightarrow> event bqueue \<Rightarrow> event bqueue" where
  "meanwhile_queue ops ls q = fst (fold (queue_step weighEvent) ops (fst (tryReserveCapacity q MaxNormalizedEventBytes), ls))"

definition has_room :: "event bqueue \<Rightarrow> bool" where
  "has_room q \<longleftrightarrow> \<not> q_stopped q \<and> q_count q + q_reservations q < length (q_storage q)
     \<and> bud_used (q_budget q) + MaxNormalizedEventBytes \<le> bud_capacity (q_budget q)"

lemma MaxNormalizedEventBytes_pos: "0 < MaxNormalizedEventBytes"
  by (simp add: MaxNormalizedEventBytes_def)

lemma reserve_succeeds:
  assumes wf: "wf_queue weigh q"
  shows "(\<exists>q1 h. tryReserveCapacity q MaxNormalizedEventBytes = (q1, Inr h)) \<longleftrightarrow> has_room q"
proof -
  have wfb: "wf_budget (q_budget q)" and le: "q_count q + q_reservations q \<le> length (q_storage q)"
    using wf by (simp_all add: wf_queue_def)
  show ?thesis
  proof (cases "tryAcquire (q_budget q) MaxNormalizedEventBytes")
    case (Pair b r)
    then show ?thesis
      using tryAcquire_succeeds [OF wfb, of MaxNormalizedEventBytes] le MaxNormalizedEventBytes_pos
      by (cases r) (auto simp: tryReserveCapacity_def has_room_def)
  qed
qed

lemma others_simps [simp]:
  "core_sendSlot (others ops ls core) = core_sendSlot core" "core_sendSlot (release_reserved h core) = core_sendSlot core"
  "core_realtimeQ (release_reserved h core) = fst (reservation_release (core_realtimeQ core) h)"
  by (simp_all add: others_def release_reserved_def)

text \<open>What both senders leave behind, error or not.\<close>

definition settled :: "event bqueue \<Rightarrow> event bqueue \<Rightarrow> event bqueue \<Rightarrow> core_error option \<Rightarrow> event option \<Rightarrow> bool" where
  "settled q after q' err accepted \<longleftrightarrow> wf_queue weighEvent q' \<and> \<not> usable q' (length (q_handles q))
     \<and> (if err = None then \<exists>n. accepted = Some n \<and> queue_values q' = queue_values after @ [n]
        else queue_values q' = queue_values q \<or> queue_values q' = queue_values after)"

definition transport_accepted :: "transport_error + event \<Rightarrow> (event \<Rightarrow> event option) \<Rightarrow> event option" where
  "transport_accepted transport accept = (case transport of Inl _ \<Rightarrow> None | Inr ev \<Rightarrow> accept ev)"

lemma send_reserved_outcome:
  assumes ok: "system_ok weighEvent (core_realtimeQ core, ls)"
    and quiet: "\<forall>op \<in> set ops. \<not> touches (length (q_handles (core_realtimeQ core))) op"
    and accept: "\<And>ev n. accept ev = Some n \<Longrightarrow> \<exists>m t. NewEvent m t = Inr n"
    and run: "send_reserved (others ops ls) ctx transport accept core = (core', err)"
  shows "core_sendSlot core' = core_sendSlot core
    \<and> settled (core_realtimeQ core) (meanwhile_queue ops ls (core_realtimeQ core)) (core_realtimeQ core') err (transport_accepted transport accept)
    \<and> (err = None \<longleftrightarrow> has_room (core_realtimeQ core) \<and> ctx 1 = None \<and> transport_accepted transport accept \<noteq> None)"
proof -
  let ?q = "core_realtimeQ core"
  have wf: "wf_queue weighEvent ?q" using ok by (simp add: system_ok_def)
  have unused: "\<not> usable ?q (length (q_handles ?q))" by (simp add: usable_def)
  show ?thesis
  proof (cases "tryReserveCapacity ?q MaxNormalizedEventBytes")
    case (Pair q1 res)
    show ?thesis
    proof (cases res)
      case (Inl e)
      then have "\<not> has_room ?q" "q1 = ?q" using reserve_succeeds [OF wf] reserve_fails Pair by auto
      then show ?thesis using run Pair Inl wf unused by (auto simp: send_reserved_def settled_def)
    next
      case (Inr h)
      note res = pledge_reserved [OF ok Pair [unfolded Inr]]
      have room: "has_room ?q" using reserve_succeeds [OF wf] Pair Inr by auto
      have wf1: "wf_queue weighEvent q1" using res(2) by (simp add: system_ok_def)
      let ?core1 = "core\<lparr>core_realtimeQ := q1\<rparr>"
      let ?after = "meanwhile_queue ops ls ?q"
      have after: "core_realtimeQ (others ops ls ?core1) = ?after"
        by (simp add: others_def meanwhile_queue_def Pair)
      have "system_ok weighEvent (fold (queue_step weighEvent) ops (q1, ls)) \<and> pledged ?after h MaxNormalizedEventBytes"
        using steps_keep_pledge [of weighEvent "(q1, ls)" h MaxNormalizedEventBytes ops] res quiet
        by (simp add: meanwhile_queue_def Pair)
      then have wf2: "wf_queue weighEvent ?after" and p2: "pledged ?after h MaxNormalizedEventBytes"
        by (simp_all add: system_ok_def meanwhile_queue_def Pair)
      note rel1 = pledge_released [OF wf1 res(3)] and rel2 = pledge_released [OF wf2 p2]
      show ?thesis
      proof (cases "ctx 1 = None \<and> transport_accepted transport accept \<noteq> None")
        case True
        then obtain ev n where n: "transport = Inr ev" "accept ev = Some n"
          by (cases transport) (auto simp: transport_accepted_def)
        then obtain m t where "NewEvent m t = Inr n" using accept by blast
        note w = weighEvent_normalized [OF this]
        obtain q2 where "reservation_commit weighEvent ?after h n = (q2, None)" "wf_queue weighEvent q2" "\<not> usable q2 h"
          "queue_values q2 = queue_values ?after @ [n]"
          using pledge_committed [OF wf2 p2 w] by blast
        then show ?thesis using run Pair Inr True n after res(1) room
          by (auto simp: send_reserved_def Let_def settled_def transport_accepted_def)
      next
        case False
        then have err: "err \<noteq> None" and
          core': "core' = release_reserved h ?core1 \<or> core' = release_reserved h (others ops ls ?core1)"
          using run Pair Inr
          by (auto simp: send_reserved_def Let_def transport_accepted_def split: option.splits sum.splits)
        then have slot: "core_sendSlot core' = core_sendSlot core" by auto
        have q': "core_realtimeQ core' = fst (reservation_release q1 h)
            \<or> core_realtimeQ core' = fst (reservation_release ?after h)"
          using core' after by auto
        then have "wf_queue weighEvent (core_realtimeQ core')" "\<not> usable (core_realtimeQ core') h"
          "queue_values (core_realtimeQ core') = queue_values ?q \<or> queue_values (core_realtimeQ core') = queue_values ?after"
          using rel1 rel2 res(4) by auto
        then show ?thesis using err slot False res(1) by (auto simp: settled_def)
      qed
    qed
  qed
qed

lemma in_send_slot_outcome:
  assumes ok: "system_ok weighEvent (core_realtimeQ core, ls)"
    and quiet: "\<forall>op \<in> set ops. \<not> touches (length (q_handles (core_realtimeQ core))) op"
    and accept: "\<And>ev n. accept ev = Some n \<Longrightarrow> \<exists>m t. NewEvent m t = Inr n"
    and run: "in_send_slot (send_reserved (others ops ls) ctx transport accept) core = (core', err)"
  shows "core_sendSlot core' = core_sendSlot core
    \<and> settled (core_realtimeQ core) (meanwhile_queue ops ls (core_realtimeQ core)) (core_realtimeQ core') err (transport_accepted transport accept)
    \<and> (err = None \<longleftrightarrow> \<not> core_sendSlot core \<and> has_room (core_realtimeQ core) \<and> ctx 1 = None \<and> transport_accepted transport accept \<noteq> None)"
proof (cases "core_sendSlot core")
  case True
  have "wf_queue weighEvent (core_realtimeQ core)" using ok by (simp add: system_ok_def)
  then show ?thesis using run True by (auto simp: in_send_slot_def settled_def usable_def)
next
  case False
  obtain core1 where r: "send_reserved (others ops ls) ctx transport accept (core\<lparr>core_sendSlot := True\<rparr>) = (core1, err)"
    "core' = free_slot core1"
    using run False by (auto simp: in_send_slot_def split: prod.splits)
  have "core_realtimeQ core' = core_realtimeQ core1" "\<not> core_sendSlot core'" using r(2) by (simp_all add: free_slot_def)
  moreover have "core_realtimeQ (core\<lparr>core_sendSlot := True\<rparr>) = core_realtimeQ core" by simp
  ultimately show ?thesis
    using send_reserved_outcome [of "core\<lparr>core_sendSlot := True\<rparr>" ls ops accept ctx transport core1 err] r(1) ok quiet accept False
    by auto
qed

lemma accept_text_normalized: "accept_text owned ev = Some n \<Longrightarrow> \<exists>m t. NewEvent m t = Inr n"
  by (auto simp: accept_text_def Let_def split: sum.splits if_splits)

lemma accept_media_normalized: "accept_media owned ev = Some n \<Longrightarrow> \<exists>m t. NewEvent m t = Inr n"
  by (auto simp: accept_media_def Let_def split: sum.splits if_splits)

section \<open>Properties\<close>

text \<open>The normalised event a send of \<open>request\<close> puts on the queue, if the transport delivers and its answer is accepted.\<close>

definition text_delivery :: "core \<Rightarrow> send_text_request \<Rightarrow> event option" where
  "text_delivery core request =
     (case core_sender core of
        None \<Rightarrow> None
      | Some sender \<Rightarrow>
          (case NewSendTextRequest (chat_id_value (str_chatID request)) (str_text request) (request_quotes request) of
             Inl _ \<Rightarrow> None
           | Inr owned \<Rightarrow>
               transport_accepted (sender (str_chatID owned) (str_text owned) (request_quotes owned)) (accept_text owned)))"

lemma NewSendTextRequest_keeps:
  "NewSendTextRequest cid text quotes = Inr r \<Longrightarrow> chat_id_value (str_chatID r) = cid \<and> str_text r = text"
  by (auto simp: NewSendTextRequest_def new_id_ok split: sum.splits list.splits if_splits)

lemma text_delivery_content:
  assumes "text_delivery core request = Some n"
  shows "msg_text (event_message n) = str_text request \<and> msg_chatID (event_message n) = str_chatID request
    \<and> msg_fromMe (event_message n) \<and> msg_bodyRetained (event_message n)"
proof -
  obtain owned ev where o: "NewSendTextRequest (chat_id_value (str_chatID request)) (str_text request) (request_quotes request) = Inr owned"
    "accept_text owned ev = Some n"
    using assms by (auto simp: text_delivery_def transport_accepted_def split: option.splits sum.splits)
  have "str_chatID owned = str_chatID request" "str_text owned = str_text request"
    using NewSendTextRequest_keeps [OF o(1)] by (simp_all add: chat_id.expand)
  then show ?thesis using o(2) by (auto simp: accept_text_def Let_def split: sum.splits if_splits)
qed

lemma settled_untouched: "wf_queue weighEvent q \<Longrightarrow> err \<noteq> None \<Longrightarrow> settled q after q err accepted"
  by (auto simp: settled_def usable_def)

text \<open>C18: Sending a text succeeds exactly when sends are admitted, nobody else is sending, the queue has room for one event of any
  size, the context lives through the two checks and the transport's event matches the request - whatever puts, takes,
  reservations, cancellations or closes happen while the transport works. Then exactly one event with the text and chat of
  the request is appended. Otherwise the queue holds what the others left in it. Either way the slot is as it was and
  the send keeps no reservation.\<close>

theorem send_text_exact:
  assumes "system_ok weighEvent (core_realtimeQ core, ls)"
    and "\<forall>op \<in> set ops. \<not> touches (length (q_handles (core_realtimeQ core))) op"
    and "SendText (others ops ls) (Some ctx) request core = (core', err)"
  shows "core_sendSlot core' = core_sendSlot core
    \<and> settled (core_realtimeQ core) (meanwhile_queue ops ls (core_realtimeQ core)) (core_realtimeQ core') err (text_delivery core request)
    \<and> (err = None \<longleftrightarrow> core_acceptingSends core \<and> \<not> core_sendSlot core \<and> has_room (core_realtimeQ core)
         \<and> ctx 0 = None \<and> ctx 1 = None \<and> text_delivery core request \<noteq> None)
    \<and> (\<forall>n. text_delivery core request = Some n \<longrightarrow> msg_text (event_message n) = str_text request
         \<and> msg_chatID (event_message n) = str_chatID request \<and> msg_fromMe (event_message n))"
proof -
  have wf: "wf_queue weighEvent (core_realtimeQ core)" using assms(1) by (simp add: system_ok_def)
  show ?thesis
  proof (cases "core_acceptingSends core \<and> core_sender core \<noteq> None \<and> ctx 0 = None \<and>
      is_ok (NewSendTextRequest (chat_id_value (str_chatID request)) (str_text request) (request_quotes request))")
    case True
    then obtain sender owned where s: "core_sender core = Some sender"
      "NewSendTextRequest (chat_id_value (str_chatID request)) (str_text request) (request_quotes request) = Inr owned"
      by (auto simp: is_ok_iff)
    let ?answer = "sender (str_chatID owned) (str_text owned) (request_quotes owned)"
    have run: "in_send_slot (send_reserved (others ops ls) ctx ?answer (accept_text owned)) core = (core', err)"
      using assms(3) True s by (simp add: SendText_def)
    have del: "text_delivery core request = transport_accepted ?answer (accept_text owned)"
      using s by (simp add: text_delivery_def)
    show ?thesis
      using in_send_slot_outcome [OF assms(1,2) accept_text_normalized run] True text_delivery_content [of core request] del by auto
  next
    case False
    then have "core' = core" "err \<noteq> None" "\<not> (core_acceptingSends core \<and> ctx 0 = None \<and> text_delivery core request \<noteq> None)"
      using assms(3) by (auto simp: SendText_def text_delivery_def is_ok_iff split: option.splits sum.splits if_splits)
    then show ?thesis using settled_untouched [OF wf] text_delivery_content by auto
  qed
qed

text \<open>The same for media: the event must carry a downloadable descriptor of the file that was sent.\<close>

definition media_delivery :: "core \<Rightarrow> send_media_request \<Rightarrow> event option" where
  "media_delivery core request =
     (case core_mediaSender core of
        None \<Rightarrow> None
      | Some sender \<Rightarrow>
          (case cloneSendMediaRequest request of
             Inl _ \<Rightarrow> None
           | Inr owned \<Rightarrow>
               transport_accepted (sender (smr_chatID owned) (smr_path owned) (smr_media owned) (smr_size owned) (smr_sticker owned))
                 (accept_media owned)))"

lemma cloneSendMediaRequest_keeps:
  "cloneSendMediaRequest r = Inr owned \<Longrightarrow> smr_chatID owned = smr_chatID r \<and> smr_size owned = smr_size r
     \<and> media_kind (smr_media owned) = media_kind (smr_media r)"
  by (auto simp: cloneSendMediaRequest_def new_id_ok chat_id.expand NewMedia_eq_Inr split: sum.splits if_splits)

lemma media_delivery_content:
  assumes "media_delivery core request = Some n"
  shows "msg_chatID (event_message n) = smr_chatID request \<and> msg_fromMe (event_message n)
    \<and> media_kind (msg_media (event_message n)) = media_kind (smr_media request)
    \<and> media_declaredBytes (msg_media (event_message n)) = smr_size request \<and> media_directPath (msg_media (event_message n)) \<noteq> []"
proof -
  obtain owned ev where o: "cloneSendMediaRequest request = Inr owned" "accept_media owned ev = Some n"
    using assms by (auto simp: media_delivery_def transport_accepted_def split: option.splits sum.splits)
  note keeps = cloneSendMediaRequest_keeps [OF o(1)]
  show ?thesis
    using o(2) keeps by (auto simp: accept_media_def Let_def media_Download_def split: sum.splits if_splits)
qed


lemma inspected_valid: "inspectStickerWebP (Some bytes) bound = Some md \<Longrightarrow> sticker_ValidFor md bound"
  by (auto simp: inspectStickerWebP_def NewStickerSendMetadata_def Let_def split: option.splits if_splits)

lemma classified_kind: "classifyOutgoingMedia mimeType \<noteq> MediaSticker"
  by (simp add: classifyOutgoingMedia_def media_kinds)

lemma media_request_built:
  assumes "NewSendMediaRequest sniff files cid path = Inr r"
  obtains f where "files path = Some f" "file_regular f" "file_bytes f \<noteq> []" "unat (smr_size r) = length (file_bytes f)"
    "cloneSendMediaRequest r = Inr r"
    "if sniff (take mediaSniffBytes (file_bytes f)) = ''image/webp''
     then media_kind (smr_media r) = MediaSticker \<and> sticker_ValidFor (smr_sticker r) (smr_size r)
     else \<not> has_webp_suffix path \<and> media_kind (smr_media r) \<noteq> MediaSticker"
proof -
  obtain f where f: "files path = Some f" "file_regular f" "file_bytes f \<noteq> []" "len (file_bytes f) \<le> MaxOutgoingMediaBytes"
    and p: "path \<noteq> []" "len path \<le> MaxLocalMediaPathBytes" "valid_utf8 path" and c: "NewChatID cid = Inr (ChatID cid)"
    using assms by (auto simp: NewSendMediaRequest_def new_id_ok split: sum.splits option.splits if_splits)
  let ?mime = "sniff (take mediaSniffBytes (file_bytes f))" and ?n = "of_nat (length (file_bytes f)) :: 64 word"
  have "length (file_bytes f) < 2 ^ 64" using f(4) by (simp add: MaxOutgoingMediaBytes_def)
  then have un: "unat ?n = length (file_bytes f)" by (simp add: unsigned_of_nat take_bit_nat_eq_self)
  then have n: "uint ?n = len (file_bytes f)" "?n \<noteq> 0" using f(3) by (auto simp: uint_nat)
  obtain kind md sticker where m: "NewMedia kind (filepath_Base path) ?mime = Inr md"
    "r = \<lparr>smr_chatID = ChatID cid, smr_path = path, smr_media = md, smr_size = ?n, smr_sticker = sticker\<rparr>"
    "if ?mime = ''image/webp'' then kind = MediaSticker \<and> sticker_ValidFor sticker ?n
     else \<not> has_webp_suffix path \<and> kind = classifyOutgoingMedia ?mime \<and> sticker = zero_sticker"
    using assms f c p
    by (auto simp: NewSendMediaRequest_def Let_def dest: inspected_valid split: sum.splits option.splits if_splits)
  have k: "media_kind md = kind" using NewMedia_fields(9) [OF m(1)] .
  have "cloneSendMediaRequest r = Inr r"
    using c p f(4) n m(3) NewMedia_accessors [OF NewMedia_plain [OF m(1)]] k classified_kind [of ?mime]
    by (auto simp: cloneSendMediaRequest_def m(2) sticker_IsZero_def new_id_ok split: if_splits)
  then show thesis
    using un f m(2,3) k classified_kind [of ?mime] by (intro that [of f]) (auto split: if_splits)
qed


section \<open>A concrete core\<close>

text \<open>A core with room for two events whose transports answer as they should.\<close>

definition sent_message :: "string \<Rightarrow> string \<Rightarrow> media \<Rightarrow> message" where
  "sent_message cid text md =
     seal (built_message ((sample_input cid ''m'' 5)\<lparr>in_FromMe := True, in_Text := text, in_Media := md\<rparr>) zero_quote)"

definition downloadable :: "media \<Rightarrow> 64 word \<Rightarrow> media" where
  "downloadable md n = md\<lparr>media_directPath := ''/p'', media_mediaKey := ''k'', media_fileSHA256 := ''h'', media_fileEncSHA256 := ''e'',
     media_declaredBytes := n\<rparr>"

definition sample_text_sender :: text_sender where
  "sample_text_sender cid text quotes = Inr \<lparr>event_message = sent_message (chat_id_value cid) text zero_media,
     event_receivedAt = 7, event_byteSize = 0\<rparr>"

definition sample_media_sender :: media_sender where
  "sample_media_sender cid path md n sticker = Inr \<lparr>event_message = sent_message (chat_id_value cid) [] (downloadable md n),
     event_receivedAt = 7, event_byteSize = 0\<rparr>"

definition sample_core :: core where
  "sample_core = (case NewWithTextSender smallest_options all_parts (Some (sample_text_sender, Some sample_media_sender)) of
     Inr core \<Rightarrow> core\<lparr>core_acceptingSends := True\<rparr>)"

lemma sample_core_ok: "system_ok weighEvent (core_realtimeQ sample_core, [])" "has_room (core_realtimeQ sample_core)"
  "queue_values (core_realtimeQ sample_core) = []" "core_acceptingSends sample_core" "\<not> core_sendSlot sample_core"
  "core_sender sample_core = Some sample_text_sender" "core_mediaSender sample_core = Some sample_media_sender"
proof -
  obtain core where c: "newCore smallest_options all_parts (Some sample_text_sender) (Some sample_media_sender) = Inr core"
    "fresh_core smallest_options core" "core_sender core = Some sample_text_sender" "core_mediaSender core = Some sample_media_sender"
    using newCore_ok [OF smallest_options_ok] by blast
  then have s: "sample_core = core\<lparr>core_acceptingSends := True\<rparr>" by (simp add: sample_core_def NewWithTextSender_def)
  let ?q = "core_realtimeQ core"
  have q: "wf_queue weighEvent ?q" "contents ?q = []" "length (q_storage ?q) = 1" "bud_capacity (q_budget ?q) = MaxNormalizedEventBytes"
    "dom (live (q_budget ?q)) = {}" "\<not> q_stopped ?q" "q_handles ?q = []"
    using c(2) by (auto simp: fresh_core_def fresh_queue_def smallest_options_def)
  then have "wf_budget (q_budget ?q)" "q_reservations ?q = 0" by (auto simp: wf_queue_def active_permits_def map_filter_simps)
  then have "bud_used (q_budget ?q) = 0" using byte_budget.idle_is_empty q(5) by blast
  then show "has_room (core_realtimeQ sample_core)" using q \<open>q_reservations ?q = 0\<close> by (simp add: s has_room_def)
  show "system_ok weighEvent (core_realtimeQ sample_core, [])" using q by (simp add: s system_ok_def)
  show "queue_values (core_realtimeQ sample_core) = []" using q by (simp add: s queue_values_Nil)
  show "core_acceptingSends sample_core" "\<not> core_sendSlot sample_core" "core_sender sample_core = Some sample_text_sender"
    "core_mediaSender sample_core = Some sample_media_sender"
    using c by (simp_all add: s fresh_core_def)
qed

lemma sent_message_parts_ok:
  assumes "valid_identifier cid" "validateMedia md = None"
  shows "message_parts_ok (sent_message cid text md)"
proof -
  have "message_input_ok ((sample_input cid ''m'' 5)\<lparr>in_FromMe := True, in_Text := text, in_Media := md\<rparr>)"
    using assms ascii_clean [of "''m''" MaxIdentifierBytes]
    by (simp add: message_input_ok_def sample_input_def valid_sender_def ascii_eval)
  then show ?thesis unfolding sent_message_def parts_ok_seal by (rule built_message_parts_ok) (simp add: sample_input_def)
qed

text \<open>The queue is closed while the transport works; the reservation still holds.\<close>

lemma close_meanwhile:
  assumes ok: "system_ok weighEvent (q, [])"
  shows "queue_values (meanwhile_queue [OpClose] [] q) = queue_values q"
proof (cases "tryReserveCapacity q MaxNormalizedEventBytes")
  case (Pair q1 res)
  have wf: "wf_queue weighEvent q" using ok by (simp add: system_ok_def)
  have "wf_queue weighEvent q1 \<and> contents q1 = contents q"
  proof (cases res)
    case (Inl e)
    then have "q1 = q" using reserve_fails Pair by blast
    then show ?thesis using wf by simp
  next
    case (Inr h)
    then show ?thesis using tryReserveCapacity_ok [OF wf] Pair by blast
  qed
  then show ?thesis using Close_ok [of weighEvent q1] queue_values_same [of "queue_Close q1" q] by (simp add: meanwhile_queue_def Pair)
qed

theorem send_text_exact_witness:
  "\<exists>core' n. SendText (others [OpClose] []) (Some (\<lambda>_. None)) \<lparr>str_chatID = ChatID ''c'', str_text = ''hello'', str_reply = zero_quote\<rparr>
     sample_core = (core', None) \<and> queue_values (core_realtimeQ core') = [n] \<and> msg_text (event_message n) = ''hello''"
proof -
  let ?r = "\<lparr>str_chatID = ChatID ''c'', str_text = ''hello'', str_reply = zero_quote\<rparr>"
  have c: "valid_identifier ''c''" "valid_utf8 ''hello''"
    by (rule ascii_clean ascii_valid; simp add: ascii_eval)+
  have t: "NormalizeText ''hello'' = (''hello'', False)"
    by (rule NormalizeText_id [OF c(2)]) (simp add: MaxRetainedTextBytes_def)
  have owned: "NewSendTextRequest ''c'' ''hello'' [] = Inr ?r"
    using c by (simp add: NewSendTextRequest_def new_id_ok MaxRetainedTextBytes_def)
  let ?m = "sent_message ''c'' ''hello'' zero_media"
  have ok: "message_parts_ok ?m" by (rule sent_message_parts_ok [OF c(1)]) simp
  have "msg_quote ?m = zero_quote" by (simp add: sent_message_def seal_def built_message_def)
  then have upd: "?m\<lparr>msg_quote := zero_quote\<rparr> = ?m" by (cases ?m) simp
  have "seal ?m = ?m" unfolding sent_message_def seal_def payload_bytes_update by simp
  then have m: "message_WithQuote ?m zero_quote = ?m" using message_WithQuote_eq [OF ok, of zero_quote] upd by simp
  have "accept_text ?r \<lparr>event_message = ?m, event_receivedAt = 7, event_byteSize = 0\<rparr> \<noteq> None"
    using NewEvent_parts_ok [OF ok, of 7] m t
    by (simp add: accept_text_def Let_def) (simp add: sent_message_def seal_def built_message_def sample_input_def)
  then have del: "text_delivery sample_core ?r \<noteq> None"
    using owned by (simp add: text_delivery_def sample_core_ok(6,7) sample_text_sender_def sample_media_sender_def request_quotes_def transport_accepted_def)
  obtain core' err where run: "SendText (others [OpClose] []) (Some (\<lambda>_. None)) ?r sample_core = (core', err)"
    by (cases "SendText (others [OpClose] []) (Some (\<lambda>_. None)) ?r sample_core") simp
  note sent = send_text_exact [OF sample_core_ok(1) _ run]
  have quiet: "\<forall>op \<in> set [OpClose]. \<not> touches (length (q_handles (core_realtimeQ sample_core))) (op :: event queue_op)"
    by (simp add: touches_def)
  then have "err = None" using sent del sample_core_ok by simp
  moreover from this obtain n where "text_delivery sample_core ?r = Some n" "queue_values (core_realtimeQ core') = [n]"
    using sent [OF quiet] close_meanwhile [OF sample_core_ok(1)] sample_core_ok(3) by (auto simp: settled_def)
  moreover from this have "msg_text (event_message n) = ''hello''" using sent [OF quiet] by simp
  ultimately show ?thesis using run by blast
qed

lemma animated_sticker_bytes: "length animated_sticker = 82" "animated_sticker \<noteq> []"
  "inspectStickerWebP (Some animated_sticker) 82 = Some \<lparr>sticker_width = 512, sticker_height = 512, sticker_animated = True\<rparr>"
  by code_simp+

definition sticker_files :: "string \<Rightarrow> local_file option" where
  "sticker_files path = (if path = ''/t/a.webp'' then Some \<lparr>file_regular = True, file_bytes = animated_sticker\<rparr> else None)"

lemma sample_media_request:
  obtains r where "NewSendMediaRequest (\<lambda>_. ''image/webp'') sticker_files ''c'' ''/t/a.webp'' = Inr r"
    "smr_chatID r = ChatID ''c''" "plain_media (smr_media r)"
proof -
  have c: "valid_identifier ''c''" "valid_utf8 ''/t/a.webp''"
    by (rule ascii_clean ascii_valid; simp add: ascii_eval)+
  obtain md where "NewMedia MediaSticker (filepath_Base ''/t/a.webp'') ''image/webp'' = Inr md"
    by (simp add: NewMedia_def validMediaKind_def media_kinds)
  with c show thesis
    by (intro that) (auto simp: NewSendMediaRequest_def new_id_ok MaxLocalMediaPathBytes_def sticker_files_def Let_def
        animated_sticker_bytes MaxOutgoingMediaBytes_def intro: NewMedia_plain)
qed



end
