(* ===== verification/Publisher.thy ===== *)
theory Publisher
  imports Service
begin

text \<open>
  The publisher of \<open>internal/service/service.go\<close> (\<open>runPublisher\<close>) as a state machine: it takes the latest pending update out of
  the mailbox, holds at most one, decides at startup whether it may be shown, and sends it into the channel of the
  interface. The other goroutines act in between: they publish updates, close the mailbox, abort the startup, stop
  admitting sends, and the interface receives. \<open>pub_sent\<close> and \<open>pub_received\<close> are what went into and came out of the
  channel \<open>core.updates\<close>, whose capacity is one. \<open>finish\<close> is the deferred function.
\<close>

datatype startup_state = StartupWaiting | StartupCommitted | StartupAborted

record publisher =
  pub_mailbox :: "(view_slot, update) mailbox"
  pub_pending :: "(update \<times> permit_ref option) option"
  pub_startup :: startup_state
  pub_accepting :: bool
  pub_ready :: bool
  pub_sent :: "update list"
  pub_received :: "update list"
  pub_closed :: bool

definition updates_capacity :: nat where "updates_capacity = 1"

definition channel_room :: "publisher \<Rightarrow> bool" where
  "channel_room p \<longleftrightarrow> length (pub_sent p) - length (pub_received p) < updates_capacity"

definition release_pending :: "publisher \<Rightarrow> publisher" where
  "release_pending p =
     (case pub_pending p of
        None \<Rightarrow> p
      | Some (u, r) \<Rightarrow>
          p\<lparr>pub_pending := None,
            pub_mailbox := (pub_mailbox p)\<lparr>mb_budget := fst (permit_Release (mb_budget (pub_mailbox p)) r)\<rparr>\<rparr>)"

text \<open>The deferred function: a last send that does not wait, the release, the drain of the mailbox and the close of the channel.\<close>

definition finish :: "publisher \<Rightarrow> publisher" where
  "finish p =
     (let p1 = (case pub_pending p of
            None \<Rightarrow> p
          | Some (u, r) \<Rightarrow> release_pending (if channel_room p then p\<lparr>pub_sent := pub_sent p @ [u]\<rparr> else p))
      in p1\<lparr>pub_mailbox := fst (mailbox_drainAndRelease (pub_mailbox p1)), pub_closed := True\<rparr>)"

text \<open>One turn without a pending update: \<open>TakeDirty\<close>, or the end when the mailbox was stopped.\<close>

definition take_turn :: "publisher \<Rightarrow> publisher" where
  "take_turn p =
     (case mailbox_TakeDirty (pub_mailbox p) of
        (mb, Some (key, v, r, version)) \<Rightarrow> p\<lparr>pub_mailbox := mb, pub_pending := map_option (\<lambda>u. (u, r)) v\<rparr>
      | (mb, None) \<Rightarrow> if mb_stopped mb then finish p else p)"

text \<open>
  The gate in front of a pending update: \<open>Inl\<close> when the turn ends with the update dropped, \<open>Inr\<close> when it may be sent. The load
  of the state and the compare-and-swap are one step: if the startup is aborted between them, the swap fails and the
  update is dropped, as when the load had already seen the abort.
\<close>

definition startup_gate :: "update \<Rightarrow> publisher \<Rightarrow> publisher + publisher" where
  "startup_gate u p =
     (if update_kind u = UpdateReady \<and> pub_startup p = StartupWaiting
      then Inr (p\<lparr>pub_startup := StartupCommitted, pub_accepting := True\<rparr>)
      else if pub_startup p \<noteq> StartupCommitted then Inl (release_pending p)
      else Inr p)"

definition send_pending :: "update \<Rightarrow> publisher \<Rightarrow> publisher" where
  "send_pending u p =
     release_pending (p\<lparr>pub_sent := pub_sent p @ [u], pub_ready := (pub_ready p \<or> update_kind u = UpdateReady)\<rparr>)"

text \<open>
  The turns of the publisher and what the other goroutines do between them. Between the gate and the send the publisher may
  find the mailbox stopped, and finishes; or nothing is ready and it starts the next turn with the update still pending.
  The context of the publisher ends only after \<open>Run\<close> closed the mailbox, so its end is the same step.
\<close>

inductive publisher_step :: "publisher \<Rightarrow> publisher \<Rightarrow> bool" where
  step_take: "\<not> pub_closed p \<Longrightarrow> pub_pending p = None \<Longrightarrow> publisher_step p (take_turn p)"
| step_drop: "\<not> pub_closed p \<Longrightarrow> pub_pending p = Some (u, r) \<Longrightarrow> startup_gate u p = Inl p' \<Longrightarrow> publisher_step p p'"
| step_retry: "\<not> pub_closed p \<Longrightarrow> pub_pending p = Some (u, r) \<Longrightarrow> startup_gate u p = Inr p' \<Longrightarrow> publisher_step p p'"
| step_stop: "\<not> pub_closed p \<Longrightarrow> pub_pending p = Some (u, r) \<Longrightarrow> startup_gate u p = Inr p' \<Longrightarrow> mb_stopped (pub_mailbox p') \<Longrightarrow>
    publisher_step p (finish p')"
| step_send: "\<not> pub_closed p \<Longrightarrow> pub_pending p = Some (u, r) \<Longrightarrow> startup_gate u p = Inr p' \<Longrightarrow> channel_room p' \<Longrightarrow>
    publisher_step p (send_pending u p')"
| env_replace: "publisher_step p (p\<lparr>pub_mailbox := fst (mailbox_Replace weighUpdate (pub_mailbox p) k u)\<rparr>)"
| env_close: "publisher_step p (p\<lparr>pub_mailbox := mailbox_Close (pub_mailbox p)\<rparr>)"
| env_abort: "pub_startup p = StartupWaiting \<Longrightarrow> publisher_step p (p\<lparr>pub_startup := StartupAborted\<rparr>)"
| env_stop_sends: "publisher_step p (p\<lparr>pub_accepting := False\<rparr>)"
| env_receive: "pub_received p = take n (pub_sent p) \<Longrightarrow> n < length (pub_sent p) \<Longrightarrow>
    publisher_step p (p\<lparr>pub_received := take (Suc n) (pub_sent p)\<rparr>)"

definition start_publisher :: "(view_slot, update) mailbox \<Rightarrow> publisher" where
  "start_publisher mb = \<lparr>pub_mailbox = mb, pub_pending = None, pub_startup = StartupWaiting, pub_accepting = False,
     pub_ready = False, pub_sent = [], pub_received = [], pub_closed = False\<rparr>"

inductive reachable_publisher :: "publisher \<Rightarrow> publisher \<Rightarrow> bool" for p0 where
  "reachable_publisher p0 p0"
| "reachable_publisher p0 p \<Longrightarrow> publisher_step p p' \<Longrightarrow> reachable_publisher p0 p'"

section \<open>The accounts of the mailbox\<close>

text \<open>The live permits are those of the filled slots and the leases \<open>L\<close> handed out.\<close>

definition accounted :: "('k, 'v) mailbox \<Rightarrow> permit_ref set \<Rightarrow> bool" where
  "accounted mb L \<longleftrightarrow> dom (live (mb_budget mb)) = set (slot_permits (mb_slots mb)) \<union> L
     \<and> set (slot_permits (mb_slots mb)) \<inter> L = {}"

lemma slot_permits_at:
  assumes "p < length ss"
  shows "set (slot_permits ss) = set (slot_permits (take p ss) @ slot_permits (drop (Suc p) ss)) \<union> set_option (slot_permit (ss ! p))"
proof -
  have "slot_permits ss = slot_permits (take p ss) @ (case slot_permit (ss ! p) of None \<Rightarrow> [] | Some r \<Rightarrow> [r]) @ slot_permits (drop (Suc p) ss)"
    using slot_permits_split [OF assms, of "ss ! p"] unfolding list_update_id .
  then have "set (slot_permits ss) = set (slot_permits (take p ss) @ (case slot_permit (ss ! p) of None \<Rightarrow> [] | Some r \<Rightarrow> [r]) @ slot_permits (drop (Suc p) ss))"
    by (rule arg_cong)
  then show ?thesis by (cases "slot_permit (ss ! p)") auto
qed

lemma Replace_accounted:
  assumes wf: "wf_mailbox weigh mb" and acc: "accounted mb L"
  shows "accounted (fst (mailbox_Replace weigh mb k v)) L"
proof (cases "mailbox_Replace weigh mb k v")
  case (Pair mb1 res)
  show ?thesis
  proof (cases res)
    case (Some e)
    then show ?thesis using Replace_fails Pair acc by fastforce
  next
    case None
    obtain p w b r where p: "mb_index mb k = Some p"
      and step: "(if slot_permit (mb_slots mb ! p) = None then tryAcquire (mb_budget mb) w
        else budget_replace (mb_budget mb) (slot_permit (mb_slots mb ! p)) w) = (b, Inr r)"
      and mb1: "mb1 = mb\<lparr>mb_budget := b, mb_wake := True, mb_slots := (mb_slots mb)[p := \<lparr>slot_value = Some v,
          slot_permit = Some r, slot_version = next_version (slot_version (mb_slots mb ! p)), slot_dirty = True\<rparr>]\<rparr>"
      using Pair None by (fastforce simp: mailbox_Replace_def Let_def split: option.splits if_splits prod.splits sum.splits)
    let ?rest = "set (slot_permits (take p (mb_slots mb)) @ slot_permits (drop (Suc p) (mb_slots mb)))"
    have pk: "p < length (mb_keys mb)" using index_key [OF wf p] by blast
    then have pl: "p < length (mb_slots mb)" using wf by (simp add: wf_mailbox_def)
    have wfb: "wf_budget (mb_budget mb)" using wf by (simp add: wf_mailbox_def)
    have new: "set (slot_permits (mb_slots mb1)) = insert r ?rest"
      using slot_permits_split [OF pl] by (simp add: mb1)
    show ?thesis
    proof (cases "slot_permit (mb_slots mb ! p)")
      case None
      then have "tryAcquire (mb_budget mb) w = (b, Inr r)" using step by simp
      then have "live (mb_budget mb) r = None" "live b = (live (mb_budget mb))(r \<mapsto> w)" using tryAcquire_ok [OF wfb] by blast+
      then show ?thesis using acc slot_permits_at [OF pl] None new Pair by (auto simp: accounted_def mb1)
    next
      case (Some old)
      then have "budget_replace (mb_budget mb) (Some old) w = (b, Inr r)" using step by simp
      from replace_ok [OF wfb this] have lv: "live (mb_budget mb) r = None" "r \<noteq> old" "live b = (live (mb_budget mb))(old := None, r \<mapsto> w)"
        by simp_all
      have "old \<notin> ?rest" by (rule slot_permit_unique [OF wf pk Some])
      moreover have "dom (live b) = insert r (dom (live (mb_budget mb)) - {old})" using lv by auto
      moreover have "r \<notin> dom (live (mb_budget mb))" using lv(1) by blast
      ultimately show ?thesis using acc slot_permits_at [OF pl] Some new Pair by (auto simp: accounted_def mb1)
    qed
  qed
qed

lemma TakeDirty_accounted:
  assumes wf: "wf_mailbox weigh mb" and acc: "accounted mb {}" and take: "mailbox_TakeDirty mb = (mb', Some (k, v, r, n))"
  shows "\<exists>r'. r = Some r' \<and> accounted mb' {r'}"
proof -
  obtain p where p: "first_ready 0 (mb_slots mb) = Some p" and mb': "mb' = mb\<lparr>mb_slots := (mb_slots mb)[p := emptied (mb_slots mb ! p)]\<rparr>"
    and r: "r = slot_permit (mb_slots mb ! p)"
    using take by (auto simp: mailbox_TakeDirty_def Let_def split: option.splits)
  obtain i where pl: "p < length (mb_slots mb)" "ready_slot (mb_slots mb ! p)" using first_ready_Some [OF p] by auto
  then obtain r' where r': "slot_permit (mb_slots mb ! p) = Some r'" by (auto simp: ready_slot_def)
  have pk: "p < length (mb_keys mb)" using pl wf by (simp add: wf_mailbox_def)
  have "set (slot_permits (mb_slots mb')) = set (slot_permits (take p (mb_slots mb)) @ slot_permits (drop (Suc p) (mb_slots mb)))"
    using slot_permits_split [OF pl(1)] by (simp add: mb' emptied_def)
  then have "accounted mb' {r'}"
    using acc slot_permits_at [OF pl(1)] r' slot_permit_unique [OF wf pk r'] by (auto simp: accounted_def mb')
  then show ?thesis using r r' by simp
qed

lemma lease_Release:
  assumes wf: "wf_mailbox weigh mb" and acc: "accounted mb {r}"
  defines "mb' \<equiv> mb\<lparr>mb_budget := fst (permit_Release (mb_budget mb) (Some r))\<rparr>"
  shows "wf_mailbox weigh mb'" "accounted mb' {}"
proof -
  have wfb: "wf_budget (mb_budget mb)" using wf by (simp add: wf_mailbox_def)
  have r: "live (mb_budget mb) r \<noteq> None" "r \<notin> set (slot_permits (mb_slots mb))"
    using acc by (auto simp: accounted_def)
  then obtain b where rel: "permit_Release (mb_budget mb) (Some r) = (b, None)"
    using Release_live [OF wfb, of r] by (cases "permit_Release (mb_budget mb) (Some r)") auto
  note ok = Release_ok [OF wfb rel]
  have "wf_slot weigh b s" if "s \<in> set (mb_slots mb)" for s
  proof (rule wf_slot_budget)
    show "wf_slot weigh (mb_budget mb) s" using wf that by (simp add: wf_mailbox_def)
    show "live b t = live (mb_budget mb) t" if "slot_permit s = Some t" for t
      using slot_permit_in [OF \<open>s \<in> set (mb_slots mb)\<close> that] r(2) ok by auto
  qed
  then show "wf_mailbox weigh mb'" using wf ok rel by (simp add: wf_mailbox_def mb'_def)
  show "accounted mb' {}" using acc ok rel r by (auto simp: accounted_def mb'_def)
qed

section \<open>The invariant\<close>

definition lease_of :: "publisher \<Rightarrow> permit_ref set" where
  "lease_of p = (case pub_pending p of None \<Rightarrow> {} | Some (u, r) \<Rightarrow> set_option r)"

definition mail_ok :: "publisher \<Rightarrow> bool" where
  "mail_ok p \<longleftrightarrow> wf_mailbox weighUpdate (pub_mailbox p) \<and> accounted (pub_mailbox p) (lease_of p)
     \<and> (\<forall>u r. pub_pending p = Some (u, r) \<longrightarrow> r \<noteq> None)
     \<and> (pub_closed p \<longrightarrow> mb_stopped (pub_mailbox p) \<and> pub_pending p = None \<and> dom (live (mb_budget (pub_mailbox p))) = {})"

definition channel_ok :: "publisher \<Rightarrow> bool" where
  "channel_ok p \<longleftrightarrow> pub_received p = take (length (pub_received p)) (pub_sent p)
     \<and> length (pub_received p) \<le> length (pub_sent p) \<and> length (pub_sent p) \<le> length (pub_received p) + 1"

definition startup_ok :: "publisher \<Rightarrow> bool" where
  "startup_ok p \<longleftrightarrow>
     (if pub_startup p = StartupCommitted
      then (if pub_sent p = [] then \<not> pub_closed p \<and> (\<exists>u r. pub_pending p = Some (u, r) \<and> update_kind u = UpdateReady)
            else update_kind (hd (pub_sent p)) = UpdateReady)
      else pub_sent p = [] \<and> \<not> pub_accepting p) \<and> (pub_ready p \<longrightarrow> pub_sent p \<noteq> [])"

lemma release_pending_simps [simp]:
  "pub_pending (release_pending p) = None" "pub_startup (release_pending p) = pub_startup p"
  "pub_accepting (release_pending p) = pub_accepting p" "pub_ready (release_pending p) = pub_ready p"
  "pub_sent (release_pending p) = pub_sent p" "pub_received (release_pending p) = pub_received p"
  "pub_closed (release_pending p) = pub_closed p" "mb_stopped (pub_mailbox (release_pending p)) = mb_stopped (pub_mailbox p)"
  by (simp_all add: release_pending_def split: option.split)

lemma release_pending_mail:
  assumes "mail_ok p" "\<not> pub_closed p"
  shows "mail_ok (release_pending p)"
proof (cases "pub_pending p")
  case None
  then have "release_pending p = p" by (simp add: release_pending_def)
  then show ?thesis using assms by simp
next
  case (Some ur)
  then obtain u r where ur: "pub_pending p = Some (u, Some r)" using assms(1) by (cases ur) (auto simp: mail_ok_def)
  then have "wf_mailbox weighUpdate (pub_mailbox p)" "accounted (pub_mailbox p) {r}"
    using assms(1) by (auto simp: mail_ok_def lease_of_def)
  from lease_Release [OF this] show ?thesis using ur assms by (simp add: mail_ok_def lease_of_def release_pending_def)
qed

lemma mail_ok_cong:
  "pub_mailbox p' = pub_mailbox p \<Longrightarrow> pub_pending p' = pub_pending p \<Longrightarrow> pub_closed p' = pub_closed p \<Longrightarrow> mail_ok p' = mail_ok p"
  by (simp add: mail_ok_def lease_of_def)

lemma finish_mail:
  assumes "mail_ok p" "\<not> pub_closed p" "mb_stopped (pub_mailbox p)"
  shows "mail_ok (finish p)"
proof -
  define p0 where "p0 = (if pub_pending p \<noteq> None \<and> channel_room p then p\<lparr>pub_sent := pub_sent p @ [fst (the (pub_pending p))]\<rparr> else p)"
  have p0: "mail_ok p0" "\<not> pub_closed p0" "mb_stopped (pub_mailbox p0)"
    using assms mail_ok_cong [of p0 p] by (auto simp: p0_def)
  let ?p1 = "release_pending p0"
  have fin: "finish p = ?p1\<lparr>pub_mailbox := fst (mailbox_drainAndRelease (pub_mailbox ?p1)), pub_closed := True\<rparr>"
    by (auto simp: finish_def p0_def Let_def release_pending_def split: option.splits prod.splits)
  have p1: "wf_mailbox weighUpdate (pub_mailbox ?p1)" "accounted (pub_mailbox ?p1) {}" "mb_stopped (pub_mailbox ?p1)"
    using release_pending_mail [OF p0(1,2)] p0(3) by (auto simp: mail_ok_def lease_of_def)
  obtain mb n where d: "mailbox_drainAndRelease (pub_mailbox ?p1) = (mb, n)" by (cases "mailbox_drainAndRelease (pub_mailbox ?p1)")
  note dr = mailbox_drain_releases_all [OF p1(1) d]
  have "mb_stopped mb" using d p1(3) by (auto simp: mailbox_drainAndRelease_def split: prod.splits)
  moreover have "dom (live (mb_budget mb)) = {}" using dr p1(2) by (auto simp: accounted_def)
  ultimately show ?thesis using dr unfolding fin d by (auto simp: mail_ok_def lease_of_def accounted_def)
qed

lemma take_turn_mail:
  assumes "mail_ok p" "\<not> pub_closed p" "pub_pending p = None"
  shows "mail_ok (take_turn p)"
proof (cases "mailbox_TakeDirty (pub_mailbox p)")
  case (Pair mb res)
  have p: "wf_mailbox weighUpdate (pub_mailbox p)" "accounted (pub_mailbox p) {}"
    using assms by (simp_all add: mail_ok_def lease_of_def)
  show ?thesis
  proof (cases res)
    case None
    then have "mb = pub_mailbox p" using TakeDirty_None [OF p(1)] Pair by blast
    then show ?thesis using assms Pair None finish_mail by (simp add: take_turn_def)
  next
    case (Some x)
    obtain k v r n where x: "x = (k, v, r, n)" by (metis prod_cases4)
    note t = TakeDirty_Some [OF p(1) Pair [unfolded Some x]]
    obtain r' where r': "r = Some r'" "accounted mb {r'}" using TakeDirty_accounted [OF p Pair [unfolded Some x]] by blast
    then show ?thesis using t assms Pair Some x by (auto simp: take_turn_def mail_ok_def lease_of_def)
  qed
qed

lemma gate_Inr:
  "startup_gate u p = Inr p' \<Longrightarrow> pub_mailbox p' = pub_mailbox p \<and> pub_pending p' = pub_pending p \<and> pub_closed p' = pub_closed p
    \<and> pub_sent p' = pub_sent p \<and> pub_received p' = pub_received p \<and> pub_ready p' = pub_ready p \<and> pub_startup p' = StartupCommitted
    \<and> (pub_startup p = StartupCommitted \<or> update_kind u = UpdateReady)"
  by (auto simp: startup_gate_def split: if_splits)

lemma gate_Inl: "startup_gate u p = Inl p' \<Longrightarrow> p' = release_pending p \<and> pub_startup p \<noteq> StartupCommitted"
  by (auto simp: startup_gate_def split: if_splits)

lemma finish_simps:
  "pub_startup (finish p) = pub_startup p" "pub_accepting (finish p) = pub_accepting p" "pub_ready (finish p) = pub_ready p"
  "pub_received (finish p) = pub_received p" "pub_closed (finish p)"
  "pub_sent (finish p) = (case pub_pending p of None \<Rightarrow> pub_sent p | Some (u, r) \<Rightarrow> if channel_room p then pub_sent p @ [u] else pub_sent p)"
  by (auto simp: finish_def Let_def split: option.split prod.split)

lemma take_turn_simps:
  "\<not> pub_closed p \<Longrightarrow> pub_pending p = None \<Longrightarrow>
     pub_startup (take_turn p) = pub_startup p \<and> pub_accepting (take_turn p) = pub_accepting p \<and> pub_ready (take_turn p) = pub_ready p
     \<and> pub_received (take_turn p) = pub_received p \<and> pub_sent (take_turn p) = pub_sent p"
  by (auto simp: take_turn_def finish_simps split: prod.split option.split)

lemma startup_ok_idle: "startup_ok p \<Longrightarrow> pub_pending p = None \<Longrightarrow> pub_startup p = StartupCommitted \<Longrightarrow> pub_sent p \<noteq> []"
  by (auto simp: startup_ok_def split: if_splits)

lemma startup_ok_after_gate:
  assumes "startup_ok p" "pub_pending p = Some (u, r)" "startup_gate u p = Inr p'"
  shows "startup_ok p' \<or> pub_closed p" "pub_sent p \<noteq> [] \<or> update_kind u = UpdateReady"
proof -
  note g = gate_Inr [OF assms(3)]
  show ready: "pub_sent p \<noteq> [] \<or> update_kind u = UpdateReady" using assms(1,2) g by (auto simp: startup_ok_def split: if_splits)
  show "startup_ok p' \<or> pub_closed p" using assms(1,2) g ready by (auto simp: startup_ok_def split: if_splits)
qed

lemma hd_snoc: "xs \<noteq> [] \<Longrightarrow> hd (xs @ ys) = hd xs"
  by simp

lemma step_startup:
  assumes step: "publisher_step p p'" and ok: "startup_ok p" "channel_ok p"
  shows "startup_ok p'"
  using step
proof cases
  case step_take
  then show ?thesis using ok(1) startup_ok_idle [OF ok(1)] take_turn_simps [of p] by (auto simp: startup_ok_def split: if_splits)
next
  case (step_drop u r)
  then show ?thesis using ok(1) gate_Inl [OF step_drop(3)] by (auto simp: startup_ok_def)
next
  case (step_retry u r)
  then show ?thesis using startup_ok_after_gate [OF ok(1)] by blast
next
  case (step_stop u r q)
  note g = gate_Inr [OF step_stop(4)] and after = startup_ok_after_gate [OF ok(1) step_stop(3,4)]
  have "pub_sent p = [] \<Longrightarrow> channel_room q" using g by (simp add: channel_room_def updates_capacity_def)
  then have "pub_sent (finish q) \<noteq> []" "update_kind (hd (pub_sent (finish q))) = UpdateReady"
    using g after step_stop ok(1) by (auto simp: finish_simps startup_ok_def hd_append split: if_splits)
  then show ?thesis using g by (simp add: step_stop(1) startup_ok_def finish_simps)
next
  case (step_send u r q)
  note g = gate_Inr [OF step_send(4)] and after = startup_ok_after_gate [OF ok(1) step_send(3,4)]
  have "update_kind (hd (pub_sent p @ [u])) = UpdateReady" using g after step_send ok(1) by (auto simp: startup_ok_def hd_append split: if_splits)
  then show ?thesis using g by (simp add: step_send(1) startup_ok_def send_pending_def)
next
  case (env_abort)
  then show ?thesis using ok(1) by (auto simp: startup_ok_def)
qed (use ok(1) in \<open>auto simp: startup_ok_def split: if_splits\<close>)

lemma channel_room_le: "channel_ok p \<Longrightarrow> channel_room p \<Longrightarrow> length (pub_sent p) \<le> length (pub_received p)"
  by (simp add: channel_room_def updates_capacity_def channel_ok_def)

lemma channel_ok_send:
  "channel_ok p \<Longrightarrow> channel_room p \<Longrightarrow> pub_sent p' = pub_sent p @ [u] \<Longrightarrow> pub_received p' = pub_received p \<Longrightarrow> channel_ok p'"
  using channel_room_le [of p] by (auto simp: channel_ok_def)

lemma channel_ok_same: "channel_ok p \<Longrightarrow> pub_sent p' = pub_sent p \<Longrightarrow> pub_received p' = pub_received p \<Longrightarrow> channel_ok p'"
  by (simp add: channel_ok_def)

lemma channel_ok_finish: "channel_ok p \<Longrightarrow> channel_ok (finish p)"
proof (cases "pub_pending p \<noteq> None \<and> channel_room p")
  case True
  then obtain u r where "pub_pending p = Some (u, r)" by auto
  then show "channel_ok p \<Longrightarrow> channel_ok (finish p)" using True channel_ok_send [of p "finish p" u] by (simp add: finish_simps)
next
  case False
  then show "channel_ok p \<Longrightarrow> channel_ok (finish p)" using channel_ok_same [of p "finish p"] by (auto simp: finish_simps split: option.splits)
qed

lemma step_channel:
  assumes step: "publisher_step p p'" and ok: "channel_ok p"
  shows "channel_ok p'"
  using step
proof cases
  case step_take
  then show ?thesis using channel_ok_same [OF ok] take_turn_simps [of p] by blast
next
  case (step_drop u r)
  then show ?thesis using channel_ok_same [OF ok] gate_Inl [OF step_drop(3)] by simp
next
  case (step_retry u r)
  then show ?thesis using channel_ok_same [OF ok] gate_Inr by metis
next
  case (step_stop u r q)
  have "channel_ok q" using channel_ok_same [OF ok] gate_Inr [OF step_stop(4)] by simp
  then show ?thesis using channel_ok_finish step_stop(1) by blast
next
  case (step_send u r q)
  have "channel_ok q" using channel_ok_same [OF ok] gate_Inr [OF step_send(4)] by simp
  then show ?thesis using channel_ok_send [of q _ u] step_send(1,5) by (simp add: send_pending_def)
next
  case (env_receive n)
  then have "n = length (pub_received p)" by simp
  then show ?thesis using env_receive ok by (auto simp: channel_ok_def)
qed (rule channel_ok_same [OF ok]; simp)+

lemma step_mail:
  assumes step: "publisher_step p p'" and ok: "mail_ok p"
  shows "mail_ok p'"
  using step
proof cases
  case step_take
  then show ?thesis using take_turn_mail [OF ok] by blast
next
  case (step_drop u r)
  then show ?thesis using release_pending_mail [OF ok] gate_Inl [OF step_drop(3)] by simp
next
  case (step_retry u r)
  then show ?thesis using mail_ok_cong [of p' p] gate_Inr [OF step_retry(3)] ok by simp
next
  case (step_stop u r q)
  have "mail_ok q" "\<not> pub_closed q" using mail_ok_cong [of q p] gate_Inr [OF step_stop(4)] ok step_stop(2) by simp_all
  then show ?thesis using finish_mail step_stop(1,5) by blast
next
  case (step_send u r q)
  let ?q = "q\<lparr>pub_sent := pub_sent q @ [u], pub_ready := (pub_ready q \<or> update_kind u = UpdateReady)\<rparr>"
  have "mail_ok ?q" "\<not> pub_closed ?q" using mail_ok_cong [of ?q p] gate_Inr [OF step_send(4)] ok step_send(2) by simp_all
  then show ?thesis using release_pending_mail step_send(1) by (simp add: send_pending_def)
next
  case (env_replace k u)
  have wf: "wf_mailbox weighUpdate (pub_mailbox p)" "accounted (pub_mailbox p) (lease_of p)" using ok by (simp_all add: mail_ok_def)
  show ?thesis
  proof (cases "mailbox_Replace weighUpdate (pub_mailbox p) k u")
    case (Pair mb res)
    show ?thesis
    proof (cases res)
      case (Some e)
      then have "p' = p" using Replace_fails Pair env_replace(1) by fastforce
      then show ?thesis using ok by simp
    next
      case None
      then have "\<not> mb_stopped (pub_mailbox p)" using Pair by (auto simp: mailbox_Replace_def split: option.splits if_splits)
      then show ?thesis using ok Replace_accounted [OF wf, of k u] Replace_ok [OF wf(1) Pair [unfolded None]] Pair
        by (auto simp: env_replace(1) mail_ok_def lease_of_def)
    qed
  qed
next
  case env_close
  then show ?thesis using ok mailbox_Close_ok [of weighUpdate "pub_mailbox p"]
    by (auto simp: mail_ok_def lease_of_def accounted_def mailbox_Close_def)
qed (use ok mail_ok_cong [of p' p] in simp_all)

lemma start_ok:
  assumes "newByteBudget i n = Inr b" "newFixedMailbox keys b = Inr mb"
  shows "mail_ok (start_publisher mb) \<and> channel_ok (start_publisher mb) \<and> startup_ok (start_publisher mb)"
proof -
  note b = newByteBudget_wf [OF assms(1)]
  have mb: "wf_mailbox weighUpdate mb" "mb_budget mb = b" using newFixedMailbox_wf [OF _ assms(2)] b by blast+
  have "mb_slots mb = replicate (length keys) zero_slot" using assms(2) by (auto simp: newFixedMailbox_def split: if_splits)
  then have "accounted mb {}" using b mb(2) by (simp add: accounted_def slot_permits_Nil)
  then show ?thesis using mb(1) by (simp add: mail_ok_def channel_ok_def startup_ok_def start_publisher_def lease_of_def)
qed

lemma reachable_ok:
  "reachable_publisher p0 p \<Longrightarrow> mail_ok p0 \<and> channel_ok p0 \<and> startup_ok p0 \<Longrightarrow> mail_ok p \<and> channel_ok p \<and> startup_ok p"
  by (induction rule: reachable_publisher.induct) (use step_mail step_channel step_startup in blast)+

section \<open>Properties\<close>

text \<open>C39: Whatever the other goroutines do, the interface receives the updates in the order they were sent, at most one waits in
  the channel, and nothing is sent before the startup is committed: the first update ever sent is the ready update, sends
  are admitted only after the commit, and after an aborted startup nothing is ever shown and no send is admitted.\<close>

theorem publisher_starts_with_ready:
  assumes "newByteBudget i n = Inr b" "newFixedMailbox keys b = Inr mb" "reachable_publisher (start_publisher mb) p"
  shows "(\<exists>waiting. pub_sent p = pub_received p @ waiting \<and> length waiting \<le> 1)
    \<and> (pub_sent p \<noteq> [] \<longrightarrow> pub_startup p = StartupCommitted \<and> update_kind (hd (pub_sent p)) = UpdateReady)
    \<and> (pub_accepting p \<or> pub_ready p \<longrightarrow> pub_startup p = StartupCommitted)
    \<and> (pub_ready p \<or> pub_closed p \<and> pub_startup p = StartupCommitted \<longrightarrow> pub_sent p \<noteq> [])"
proof -
  have ok: "channel_ok p" "startup_ok p" using reachable_ok [OF assms(3)] start_ok [OF assms(1,2)] by blast+
  have "pub_sent p = pub_received p @ drop (length (pub_received p)) (pub_sent p)"
    using ok(1) append_take_drop_id [of "length (pub_received p)" "pub_sent p"] by (simp add: channel_ok_def)
  moreover have "length (drop (length (pub_received p)) (pub_sent p)) \<le> 1" using ok(1) unfolding channel_ok_def length_drop by linarith
  moreover have "(pub_sent p \<noteq> [] \<longrightarrow> pub_startup p = StartupCommitted \<and> update_kind (hd (pub_sent p)) = UpdateReady)
    \<and> (pub_accepting p \<or> pub_ready p \<longrightarrow> pub_startup p = StartupCommitted)
    \<and> (pub_ready p \<or> pub_closed p \<and> pub_startup p = StartupCommitted \<longrightarrow> pub_sent p \<noteq> [])"
    using ok(2) by (auto simp: startup_ok_def split: if_splits)
  ultimately show ?thesis by blast
qed

text \<open>C40: The publisher leaks no bytes: at any time the budget of the mailbox holds the updates in its slots and the one the
  publisher has taken, and once the publisher has ended nothing of it is in use.\<close>

theorem publisher_returns_bytes:
  assumes "newByteBudget i n = Inr b" "newFixedMailbox keys b = Inr mb" "reachable_publisher (start_publisher mb) p"
  shows "dom (live (mb_budget (pub_mailbox p))) = set (slot_permits (mb_slots (pub_mailbox p))) \<union> lease_of p
    \<and> bud_used (mb_budget (pub_mailbox p)) \<le> bud_capacity (mb_budget (pub_mailbox p))
    \<and> (pub_closed p \<longrightarrow> bud_used (mb_budget (pub_mailbox p)) = 0)"
proof -
  have ok: "mail_ok p" using reachable_ok [OF assms(3)] start_ok [OF assms(1,2)] by blast
  then have "wf_budget (mb_budget (pub_mailbox p))" by (simp add: mail_ok_def wf_mailbox_def)
  then show ?thesis using ok byte_budget.idle_is_empty byte_budget.bounds(1) by (auto simp: mail_ok_def accounted_def)
qed

text \<open>A run: the ready update is published, taken, admitted, sent and received, and the mailbox is closed.\<close>

definition ready_update :: update where
  "ready_update = (case NewUpdate (simple_input UpdateReady) of Inr u \<Rightarrow> u)"

definition sample_budget :: budget where
  "sample_budget = (case newByteBudget 0 1000 of Inr b \<Rightarrow> b)"

definition sample_view_mailbox :: "(view_slot, update) mailbox" where
  "sample_view_mailbox = (case newFixedMailbox [0, 1] sample_budget of Inr mb \<Rightarrow> mb)"

definition published :: publisher where
  "published = (start_publisher sample_view_mailbox)\<lparr>pub_mailbox := publishSimple UpdateReady sample_view_mailbox\<rparr>"

definition delivered :: publisher where
  "delivered = send_pending ready_update ((take_turn published)\<lparr>pub_startup := StartupCommitted, pub_accepting := True\<rparr>)"

lemma sample_mailbox_built: "newByteBudget 0 1000 = Inr sample_budget" "newFixedMailbox [0, 1] sample_budget = Inr sample_view_mailbox"
  by (simp_all add: sample_budget_def newByteBudget_def sample_view_mailbox_def newFixedMailbox_def)

lemma published_evaluates:
  "pub_pending (take_turn published) = Some (ready_update, Some (PermitRef 0 0))" "pub_startup (take_turn published) = StartupWaiting"
  "\<not> pub_closed published" "pub_pending published = None" "\<not> pub_closed (take_turn published)" "update_kind ready_update = UpdateReady"
  "channel_room ((take_turn published)\<lparr>pub_startup := StartupCommitted, pub_accepting := True\<rparr>)"
  "pub_sent delivered = [ready_update]" "pub_received delivered = []"
  by code_simp+

lemma delivered_reachable: "reachable_publisher (start_publisher sample_view_mailbox) delivered"
proof -
  have ready: "NewUpdate (simple_input UpdateReady) = Inr ready_update" "updateSlot UpdateReady = (0, True)" by code_simp+
  have "published = (start_publisher sample_view_mailbox)\<lparr>pub_mailbox :=
      fst (mailbox_Replace weighUpdate (pub_mailbox (start_publisher sample_view_mailbox)) 0 ready_update)\<rparr>"
    by (simp add: published_def publishSimple_def ready start_publisher_def)
  then have "publisher_step (start_publisher sample_view_mailbox) published" using env_replace by metis
  then have "reachable_publisher (start_publisher sample_view_mailbox) published"
    using reachable_publisher.intros by metis
  moreover have "publisher_step published (take_turn published)" by (rule step_take) (simp_all add: published_evaluates)
  ultimately have r: "reachable_publisher (start_publisher sample_view_mailbox) (take_turn published)"
    using reachable_publisher.intros(2) by metis
  have gate: "startup_gate ready_update (take_turn published) = Inr ((take_turn published)\<lparr>pub_startup := StartupCommitted, pub_accepting := True\<rparr>)"
    by (simp add: startup_gate_def published_evaluates)
  have "publisher_step (take_turn published) delivered"
    unfolding delivered_def by (rule step_send [OF published_evaluates(5,1) gate published_evaluates(7)])
  then show ?thesis using r reachable_publisher.intros(2) by metis
qed

theorem publisher_starts_with_ready_witness:
  "\<exists>p. reachable_publisher (start_publisher sample_view_mailbox) p \<and> pub_sent p = [ready_update] \<and> pub_startup p = StartupCommitted"
  using publisher_starts_with_ready [OF sample_mailbox_built delivered_reachable] delivered_reachable published_evaluates(8) by auto

theorem publisher_returns_bytes_witness:
  "bud_used (mb_budget (pub_mailbox delivered)) = 0 \<and> bud_used (mb_budget (pub_mailbox delivered)) \<le> bud_capacity (mb_budget (pub_mailbox delivered))"
proof -
  have "bud_used (mb_budget (pub_mailbox delivered)) = 0" by code_simp
  then show ?thesis using publisher_returns_bytes [OF sample_mailbox_built delivered_reachable] by simp
qed

end
