(* ===== verification/Decisions.thy ===== *)
theory Decisions
  imports Service StoreContract Policy
begin

text \<open>
  What the goroutines of the service do with the message store and the retention policy (\<open>interfaces.go\<close>). The interfaces
  \<open>MessageStore\<close> and \<open>RetentionPolicy\<close> are records of functions. A goroutine that uses them runs against an environment: at each
  tick - a look at its context, a call of the store, a reading of the clock - the other goroutines may have changed the
  store. The locale \<open>message_store_contract\<close> states what the service relies on; the in-memory store provides it. The decision
  on one message, which the writer, the coordinator and the history ingester share, is here too.
\<close>

section \<open>The interfaces\<close>

record ('s, 'e) message_store =
  ms_Write :: "context_state \<Rightarrow> write_batch \<Rightarrow> 's \<Rightarrow> 's \<times> 'e option"
  ms_WriteRealtime :: "context_state \<Rightarrow> write_batch \<Rightarrow> 's \<Rightarrow> 's \<times> ('e + live_event list)"
  ms_RetentionSnapshot :: "context_state \<Rightarrow> chat_id \<Rightarrow> 's \<Rightarrow> 'e + snapshot"
  ms_ApplyPrune :: "context_state \<Rightarrow> prune_plan \<Rightarrow> 's \<Rightarrow> 's \<times> ('e + prune_result)"
  ms_Usage :: "context_state \<Rightarrow> 's \<Rightarrow> 'e + cache_usage"

record retention_policy =
  rp_Decide :: "message \<Rightarrow> retention_state \<Rightarrow> model_error + decision"
  rp_PlanPrune :: "snapshot \<Rightarrow> retention_state \<Rightarrow> model_error + prune_plan"

definition memory_store :: "(memory, store_error + model_error) message_store" where
  "memory_store =
     \<lparr>ms_Write = (\<lambda>ctx b mem. case store_Write ctx b mem of (mem', e) \<Rightarrow> (mem', map_option Inl e)),
      ms_WriteRealtime = (\<lambda>ctx b mem. case store_WriteRealtime ctx b mem of
        (mem', Inl e) \<Rightarrow> (mem', Inl (Inl e)) | (mem', Inr events) \<Rightarrow> (mem', Inr events)),
      ms_RetentionSnapshot = store_RetentionSnapshot, ms_ApplyPrune = store_ApplyPrune, ms_Usage = store_Usage\<rparr>"

definition real_policy :: "policy \<Rightarrow> retention_policy" where
  "real_policy q = \<lparr>rp_Decide = policy_Decide (Some q), rp_PlanPrune = policy_PlanPrune (Some q)\<rparr>"

datatype 'e task_error =
    TaskContext context_error | TaskStore 'e | TaskModel model_error | TaskQueue service_error

section \<open>The environment of a goroutine\<close>

record 's environment =
  env_ctx :: looks
  env_now :: "nat \<Rightarrow> instant"
  env_others :: "nat \<Rightarrow> 's \<Rightarrow> 's"

record 's world =
  w_tick :: nat
  w_store :: 's

definition ticked :: "'s environment \<Rightarrow> (context_error option \<Rightarrow> 's \<Rightarrow> 's \<times> 'r) \<Rightarrow> 's world \<Rightarrow> 's world \<times> 'r" where
  "ticked env call w =
     (case call (env_ctx env (w_tick w)) (env_others env (w_tick w) (w_store w)) of
        (s, r) \<Rightarrow> (\<lparr>w_tick = Suc (w_tick w), w_store = s\<rparr>, r))"

definition seen :: "context_error option \<Rightarrow> context_state" where
  "seen c = (case c of None \<Rightarrow> LiveContext | Some _ \<Rightarrow> DoneContext)"

definition look_context :: "'s environment \<Rightarrow> 's world \<Rightarrow> 's world \<times> context_error option" where
  "look_context env = ticked env (\<lambda>c s. (s, c))"

definition read_clock :: "'s environment \<Rightarrow> 's world \<Rightarrow> 's world \<times> instant" where
  "read_clock env w = ticked env (\<lambda>c s. (s, env_now env (w_tick w))) w"

definition take_snapshot :: "('s, 'e) message_store \<Rightarrow> 's environment \<Rightarrow> chat_id \<Rightarrow> 's world \<Rightarrow> 's world \<times> ('e + snapshot)" where
  "take_snapshot ms env cid = ticked env (\<lambda>c s. (s, ms_RetentionSnapshot ms (seen c) cid s))"

definition take_usage :: "('s, 'e) message_store \<Rightarrow> 's environment \<Rightarrow> 's world \<Rightarrow> 's world \<times> ('e + cache_usage)" where
  "take_usage ms env = ticked env (\<lambda>c s. (s, ms_Usage ms (seen c) s))"

section \<open>The decision on one message\<close>

definition newer_body :: "message \<Rightarrow> summary \<Rightarrow> bool" where
  "newer_body candidate s \<longleftrightarrow> sum_bodyRetained s \<and>
     (sum_sentAt s > msg_sentAt candidate
      \<or> sum_sentAt s = msg_sentAt candidate \<and> message_id_value (sum_messageID s) > message_id_value (msg_messageID candidate))"

definition countNewerBodies :: "snapshot \<Rightarrow> message \<Rightarrow> int" where
  "countNewerBodies p candidate = foldl (\<lambda>n s. if newer_body candidate s then n + 1 else n) 0 (snap_summaries p)"

text \<open>\<open>limit\<close> is the writer's bound on a snapshot; the other two goroutines have none.\<close>

definition over_limit :: "int option \<Rightarrow> snapshot \<Rightarrow> bool" where
  "over_limit limit p = (case limit of None \<Rightarrow> False | Some n \<Rightarrow> len (snap_summaries p) > n)"

definition decide_message :: "('s, 'e) message_store \<Rightarrow> retention_policy \<Rightarrow> int option \<Rightarrow> 8 word \<Rightarrow> 's environment \<Rightarrow> message
    \<Rightarrow> 's world \<Rightarrow> 's world \<times> ('e task_error + decision)" where
  "decide_message ms rp limit origin env m w =
     (case take_snapshot ms env (msg_chatID m) w of
        (w1, Inl e) \<Rightarrow> (w1, Inl (TaskStore e))
      | (w1, Inr p) \<Rightarrow>
          if over_limit limit p then (w1, Inl (TaskQueue QueueInvariant))
          else
            case take_usage ms env w1 of
              (w2, Inl e) \<Rightarrow> (w2, Inl (TaskStore e))
            | (w2, Inr u) \<Rightarrow>
                (case read_clock env w2 of
                   (w3, now) \<Rightarrow>
                     (w3, case rp_Decide rp m \<lparr>rst_Now = now, rst_NewerBodies = countNewerBodies p m, rst_Usage = u, rst_Origin = origin\<rparr> of
                        Inl e \<Rightarrow> Inl (TaskModel e)
                      | Inr d \<Rightarrow> Inr d)))"

text \<open>What a decision makes of the message: nothing, its metadata or all of it; any other action is refused.\<close>

definition downstream :: "decision \<Rightarrow> message \<Rightarrow> message option option" where
  "downstream d m =
     (if dec_action d = KeepBody then Some (Some m)
      else if dec_action d = KeepMetadata then Some (Some (message_WithoutBody m))
      else if dec_action d = Discard then Some None
      else None)"

section \<open>What the service relies on\<close>

text \<open>\<open>ok\<close> is the store's invariant and \<open>msgs\<close> the stored messages by chat and identifier.\<close>

locale message_store_contract =
  fixes ms :: "('s, 'e) message_store" and ok :: "'s \<Rightarrow> bool" and msgs :: "'s \<Rightarrow> message_view"
  assumes write_commits: "ok s \<Longrightarrow> wf_batch b \<Longrightarrow> batch_messages b \<noteq> [] \<Longrightarrow> ms_Write ms c b s = (s', None) \<Longrightarrow>
      ok s' \<and> (\<exists>V. apply_messages (msgs s) (batch_messages b) = Some V \<and> msgs s' = cleared V)"
    and realtime_commits: "ok s \<Longrightarrow> wf_batch b \<Longrightarrow> batch_messages b \<noteq> [] \<Longrightarrow> ms_WriteRealtime ms c b s = (s', Inr events) \<Longrightarrow>
      ok s' \<and> (\<exists>V. apply_messages (msgs s) (batch_messages b) = Some V \<and> msgs s' = cleared V)
      \<and> map (\<lambda>e. place (live_message e)) events = map place (newly_inserted (msgs s) (batch_messages b))"
    and failed_writes: "ms_Write ms c b s = (s', Some e) \<Longrightarrow> s' = s" "ms_WriteRealtime ms c b s = (s', Inl e) \<Longrightarrow> s' = s"
    and snapshot_counts: "ok s \<Longrightarrow> wf_message m \<Longrightarrow> ms_RetentionSnapshot ms c (msg_chatID m) s = Inr p \<Longrightarrow>
      countNewerBodies p m = int (card {n \<in> ran (msgs s (chat_key m)). msg_bodyRetained n \<and> store_newer n m})
      \<and> len (snap_summaries p) = int (card (dom (msgs s (chat_key m))))"
    and snapshot_plans: "ok s \<Longrightarrow> valid_identifier (chat_id_value cid) \<Longrightarrow> wf_policy q \<Longrightarrow>
      ms_RetentionSnapshot ms c cid s = Inr p \<Longrightarrow> policy_PlanPrune (Some q) p st = Inr plan \<Longrightarrow>
      wf_plan plan \<and> plan_chatID plan = cid \<and> msgs s (chat_id_value cid) |` (- listed plan)
        = msgs s (chat_id_value cid) |` retained_keys q (rst_Now st) (msgs s (chat_id_value cid))"
    and prune_applies: "ok s \<Longrightarrow> wf_plan plan \<Longrightarrow> ms_ApplyPrune ms c plan s = (s', Inr r) \<Longrightarrow>
      ok s' \<and> msgs s' = (msgs s)(chat_id_value (plan_chatID plan) := msgs s (chat_id_value (plan_chatID plan)) |` (- listed plan))"
    and failed_prune: "ok s \<Longrightarrow> wf_plan plan \<Longrightarrow> ms_ApplyPrune ms c plan s = (s', Inl e) \<Longrightarrow> s' = s"
    and pruned_size: "ok s \<Longrightarrow> wf_policy q \<Longrightarrow> int (card (dom (msgs s k |` retained_keys q now (msgs s k)))) \<le> pol_messagesPerChat q"

text \<open>A store that answers as long as the context is alive.\<close>

locale responsive_store = message_store_contract +
  assumes snapshot_answers: "ok s \<Longrightarrow> valid_identifier (chat_id_value cid) \<Longrightarrow>
      \<exists>p. ms_RetentionSnapshot ms LiveContext cid s = Inr p \<and> wf_snapshot p
        \<and> len (snap_summaries p) = int (card (dom (msgs s (chat_id_value cid))))"
    and usage_answers: "ok s \<Longrightarrow> \<exists>u. ms_Usage ms LiveContext s = Inr u \<and> wf_usage u"
    and plan_answers: "ok s \<Longrightarrow> valid_identifier (chat_id_value cid) \<Longrightarrow> wf_policy q \<Longrightarrow> wf_state st \<Longrightarrow>
      ms_RetentionSnapshot ms LiveContext cid s = Inr p \<Longrightarrow> \<exists>plan. policy_PlanPrune (Some q) p st = Inr plan"
    and prune_answers: "ok s \<Longrightarrow> wf_plan plan \<Longrightarrow> \<exists>s' r. ms_ApplyPrune ms LiveContext plan s = (s', Inr r)"

section \<open>The in-memory store keeps the contract\<close>

lemma write_live: "store_writeBatch ctx b emit mem = (mem', Inr ev) \<Longrightarrow> ctx = LiveContext"
  by (cases ctx) (simp_all add: store_writeBatch_def checkContext_def)

lemma snapshot_live: "store_RetentionSnapshot ctx cid mem = Inr p \<Longrightarrow> ctx = LiveContext"
  by (cases ctx) (simp_all add: store_RetentionSnapshot_def checkContext_def)

lemma prune_live: "store_ApplyPrune ctx plan mem = (mem', Inr r) \<Longrightarrow> ctx = LiveContext"
  by (cases ctx) (simp_all add: store_ApplyPrune_def checkContext_def)

lemma count_newer: "foldl (\<lambda>n s. if P s then n + 1 else n) (i::int) xs = i + len (filter P xs)"
  by (induction xs arbitrary: i) auto

lemma snapshot_rows:
  assumes wf: "wf_memory mem" and cid: "valid_identifier (chat_id_value cid)" and p: "store_RetentionSnapshot ctx cid mem = Inr p"
  shows "wf_snapshot p" "snap_chatID p = cid" "snap_summaries p = row_summaries mem (chat_id_value cid)"
  using RetentionSnapshot_eq [OF wf cid] p snapshot_live [OF p] by auto

lemma rows_distinct: "wf_memory mem \<Longrightarrow> distinct (rows mem ck)"
  using rows_sorted [of mem ck] by (metis newest_first_rows_def strict_sorted_iff distinct_map)

lemma rows_count: "wf_memory mem \<Longrightarrow> len (rows mem ck) = int (card (dom (view mem ck)))"
proof -
  assume wf: "wf_memory mem"
  have "dom (view mem ck) = message_key ` set (rows mem ck)"
  proof (intro set_eqI iffI)
    fix k
    assume "k \<in> dom (view mem ck)"
    then obtain m where m: "view mem ck k = Some m" by blast
    then have "m \<in> set (rows mem ck)" by (auto simp: rows_set [OF wf] ran_def)
    then show "k \<in> message_key ` set (rows mem ck)" using view_wf [OF wf m] by auto
  next
    fix k
    assume "k \<in> message_key ` set (rows mem ck)"
    then show "k \<in> dom (view mem ck)" using rows_wf [OF wf] by auto
  qed
  moreover have "inj_on message_key (set (rows mem ck))"
  proof (rule inj_onI)
    fix m n
    assume "m \<in> set (rows mem ck)" "n \<in> set (rows mem ck)" "message_key m = message_key n"
    then have "view mem ck (message_key m) = Some m" "view mem ck (message_key m) = Some n" using rows_wf [OF wf] by metis+
    then show "m = n" by simp
  qed
  ultimately show ?thesis by (simp add: card_image distinct_card [OF rows_distinct [OF wf]])
qed

lemma newer_body_row: "wf_message n \<Longrightarrow> newer_body m (NewMessageSummary n) \<longleftrightarrow> msg_bodyRetained n \<and> store_newer n m"
  by (auto simp: newer_body_def store_newer_def NewMessageSummary_simps)

lemma memory_counts:
  assumes wf: "wf_memory mem" and m: "wf_message m" and p: "store_RetentionSnapshot ctx (msg_chatID m) mem = Inr p"
  shows "countNewerBodies p m = int (card {n \<in> ran (view mem (chat_key m)). msg_bodyRetained n \<and> store_newer n m})"
    "len (snap_summaries p) = int (card (dom (view mem (chat_key m))))"
proof -
  have cid: "valid_identifier (chat_id_value (msg_chatID m))" using m by (simp add: wf_message_def message_parts_ok_def)
  note snap = snapshot_rows [OF wf cid p]
  have "filter (newer_body m) (snap_summaries p)
      = map NewMessageSummary (filter (\<lambda>n. msg_bodyRetained n \<and> store_newer n m) (rows mem (chat_key m)))"
    using newer_body_row rows_wf [OF wf] by (auto simp: snap(3) row_summaries_def filter_map comp_def cong: filter_cong)
  moreover have "length (filter (\<lambda>n. msg_bodyRetained n \<and> store_newer n m) (rows mem (chat_key m)))
      = card {n \<in> ran (view mem (chat_key m)). msg_bodyRetained n \<and> store_newer n m}"
    by (simp add: distinct_length_filter [OF rows_distinct [OF wf]] rows_set [OF wf] Int_def conj_commute)
  ultimately show "countNewerBodies p m = int (card {n \<in> ran (view mem (chat_key m)). msg_bodyRetained n \<and> store_newer n m})"
    unfolding countNewerBodies_def count_newer by simp
  show "len (snap_summaries p) = int (card (dom (view mem (chat_key m))))"
    using rows_count [OF wf] by (simp add: snap(3) row_summaries_def)
qed

lemma memory_prune:
  assumes wf: "wf_memory mem" and plan: "wf_plan plan"
  shows "store_ApplyPrune ctx plan mem = (mem', Inr r) \<Longrightarrow> wf_memory mem'
      \<and> view mem' = (view mem)(chat_id_value (plan_chatID plan) := view mem (chat_id_value (plan_chatID plan)) |` (- listed plan))"
    "store_ApplyPrune ctx plan mem = (mem', Inl e) \<Longrightarrow> mem' = mem"
proof -
  obtain mem1 r1 where live: "store_ApplyPrune LiveContext plan mem = (mem1, Inr r1)" "prune_post mem plan mem1 r1"
    using ApplyPrune_ok [OF wf plan] by blast
  show "store_ApplyPrune ctx plan mem = (mem', Inr r) \<Longrightarrow> wf_memory mem'
      \<and> view mem' = (view mem)(chat_id_value (plan_chatID plan) := view mem (chat_id_value (plan_chatID plan)) |` (- listed plan))"
  proof -
    assume applied: "store_ApplyPrune ctx plan mem = (mem', Inr r)"
    then have "ctx = LiveContext" by (rule prune_live)
    then have "mem' = mem1" using applied live(1) by simp
    then show ?thesis using live(2) by (simp add: prune_post_def Let_def)
  qed
  show "store_ApplyPrune ctx plan mem = (mem', Inl e) \<Longrightarrow> mem' = mem"
    using live(1) by (cases ctx) (auto simp: store_ApplyPrune_def checkContext_def)
qed

lemma batch_post:
  assumes wf: "wf_memory s" "wf_batch b" "batch_messages b \<noteq> []" and w: "store_writeBatch LiveContext b emit s = (s', Inr ev)"
  shows "wf_memory s' \<and> (\<exists>V. apply_messages (view s) (batch_messages b) = Some V \<and> view s' = cleared V)"
proof (cases "apply_messages (view s) (batch_messages b)")
  case None
  then show ?thesis using writeBatch_cases [OF wf, of emit] w by simp
next
  case (Some V)
  then show ?thesis using writeBatch_cases [OF wf, of emit] w by (auto simp: write_post_def Let_def split: if_splits)
qed

interpretation mem_store: responsive_store memory_store wf_memory view
proof (unfold_locales, goal_cases)
  case (1 s b c s')
  then obtain ev where w: "store_writeBatch c b False s = (s', Inr ev)"
    by (auto simp: memory_store_def store_Write_def split: prod.splits sum.splits)
  then have "c = LiveContext" by (rule write_live)
  then show ?case using batch_post [OF 1(1-3)] w by metis
next
  case (2 s b c s' events)
  then have w: "store_WriteRealtime c b s = (s', Inr events)" by (auto simp: memory_store_def split: prod.splits sum.splits)
  then have "c = LiveContext" by (auto simp: store_WriteRealtime_def split: if_splits dest: write_live)
  then have "store_WriteRealtime LiveContext b s = (s', Inr events)" using w by simp
  from realtime_post [OF 2(1-3) this] obtain V where "apply_messages (view s) (batch_messages b) = Some V" "wf_memory s'"
    "view s' = cleared V" "map (\<lambda>e. place (live_message e)) events = map place (newly_inserted (view s) (batch_messages b))"
    by blast
  then show ?case by blast
next
  case (3 c b s s' e)
  then show ?case by (auto simp: memory_store_def store_Write_def dest: writeBatch_failed split: prod.splits sum.splits)
next
  case (4 c b s s' e)
  then show ?case
    by (auto simp: memory_store_def store_WriteRealtime_def dest: writeBatch_failed split: prod.splits sum.splits if_splits)
next
  case (5 s m c p)
  then show ?case using memory_counts by (simp add: memory_store_def)
next
  case (6 s cid q c p st plan)
  then have "store_RetentionSnapshot LiveContext cid s = Inr p" using snapshot_live [of c cid s p] by (simp add: memory_store_def)
  then show ?case using planned_deletions [OF 6(1-3) _ 6(5)] by simp
next
  case (7 s plan c s' r)
  then show ?case using memory_prune(1) by (simp add: memory_store_def)
next
  case (8 s plan c s' e)
  then show ?case using memory_prune(2) by (simp add: memory_store_def)
next
  case (9 s q k now)
  then show ?case by (rule retained_count)
next
  case (10 s cid)
  then show ?case using RetentionSnapshot_eq [OF 10] rows_count [OF 10(1)] by (auto simp: memory_store_def row_summaries_def)
next
  case (11 s)
  then show ?case using Usage_eq by (auto simp: memory_store_def)
next
  case (12 s cid q st p)
  then show ?case using plan_exists by (simp add: memory_store_def)
next
  case (13 s plan)
  then show ?case using ApplyPrune_ok by (fastforce simp: memory_store_def)
qed

end
