(* ===== verification/Waiting.thy ===== *)
theory Waiting
  imports Service
begin

text \<open>
  The operations that wait: \<open>Put\<close> and \<open>Take\<close> of \<open>queue.go\<close>, \<open>acquire\<close> of \<open>budget.go\<close>. They repeat the steps of the theories
  \<open>Queue\<close> and \<open>Budget\<close> and wait in a \<open>select\<close> between two attempts. A wait is a \<open>round\<close>: what the other goroutines do to the
  queue and its leases before the waiter runs again, and the branch of the \<open>select\<close> that wakes it. The list of rounds is the
  schedule; with no round left the waiter is still waiting, which is the result \<open>None\<close>. Contexts are looked at before every
  attempt. A queue allows one waiting producer; the code between two waits is one step.
\<close>

datatype wake = WakeContext context_error | WakeSignal | WakeStopped

datatype 'a round = Round (round_ops: "'a queue_op list") (round_wake: wake)

datatype wait_error = WaitContext context_error | WaitQueue service_error

definition run_round :: "('a \<Rightarrow> int option) \<Rightarrow> 'a round \<Rightarrow> 'a queue_system \<Rightarrow> 'a queue_system" where
  "run_round weigh r s = fold (queue_step weigh) (round_ops r) s"

definition release_lease :: "permit_ref \<Rightarrow> 'a bqueue \<Rightarrow> 'a bqueue" where
  "release_lease r q = q\<lparr>q_budget := fst (permit_Release (q_budget q) (Some r))\<rparr>"

text \<open>A call that waits ends in a state, at a look of the context, or is still waiting.\<close>

type_synonym ('a, 'r) waited = "('a queue_system \<times> nat \<times> (wait_error + 'r)) option"

section \<open>The waiting producer\<close>

definition registerPutWaiter :: "bool \<Rightarrow> 'a bqueue \<Rightarrow> 'a bqueue \<times> bool" where
  "registerPutWaiter entry q =
     (if q_putWaiter q then (q, False)
      else
        let q1 = q\<lparr>q_putWaiter := True\<rparr>;
            q2 = (if entry then q1\<lparr>q_entryWaiters := 1\<rparr> else q1\<lparr>q_byteWaiters := 1\<rparr>)
        in (q2\<lparr>q_stateWake := True\<rparr>, True))"

definition switchPutWaiterToEntry :: "'a bqueue \<Rightarrow> 'a bqueue" where
  "switchPutWaiterToEntry q = q\<lparr>q_byteWaiters := 0, q_entryWaiters := 1, q_stateWake := True\<rparr>"

definition clearPutWaiter :: "bool \<Rightarrow> 'a bqueue \<Rightarrow> 'a bqueue" where
  "clearPutWaiter entry q =
     (let q1 = q\<lparr>q_putWaiter := False\<rparr>
      in (if entry then q1\<lparr>q_entryWaiters := 0\<rparr> else q1\<lparr>q_byteWaiters := 0\<rparr>)\<lparr>q_stateWake := True\<rparr>)"

text \<open>What a producer does before it waits; \<open>registered\<close> and \<open>waitingForEntry\<close> are the locals of \<open>Put\<close>.\<close>

definition wait_for_bytes :: "bool \<Rightarrow> 'a bqueue \<Rightarrow> 'a bqueue \<times> bool" where
  "wait_for_bytes registered q = (if registered then (q, True) else registerPutWaiter False q)"

definition wait_for_entry :: "bool \<Rightarrow> bool \<Rightarrow> 'a bqueue \<Rightarrow> 'a bqueue \<times> bool" where
  "wait_for_entry registered waitingForEntry q =
     (if \<not> registered then registerPutWaiter True q
      else if \<not> waitingForEntry then (switchPutWaiterToEntry q, True)
      else (q, True))"

definition deferred_clear :: "bool \<Rightarrow> bool \<Rightarrow> 'a queue_system \<Rightarrow> 'a queue_system" where
  "deferred_clear registered waitingForEntry s =
     (if registered then (clearPutWaiter waitingForEntry (fst s), snd s) else s)"

record queue_stats =
  stat_Entries :: nat
  stat_Reservations :: nat
  stat_UsedBytes :: int
  stat_EntryWaiters :: nat
  stat_ByteWaiters :: nat
  stat_Stopped :: bool

definition queue_Stats :: "'a bqueue \<Rightarrow> queue_stats" where
  "queue_Stats q = \<lparr>stat_Entries = q_count q, stat_Reservations = q_reservations q, stat_UsedBytes = bud_used (q_budget q),
     stat_EntryWaiters = q_entryWaiters q, stat_ByteWaiters = q_byteWaiters q, stat_Stopped = q_stopped q\<rparr>"

section \<open>Put\<close>

text \<open>The first loop: the bytes. \<open>look\<close> counts the looks at the context; the remaining rounds are handed on.\<close>

fun put_acquire :: "('a \<Rightarrow> int option) \<Rightarrow> looks \<Rightarrow> int \<Rightarrow> nat \<Rightarrow> 'a round list \<Rightarrow> bool \<Rightarrow> 'a queue_system
    \<Rightarrow> ('a queue_system \<times> nat \<times> 'a round list \<times> bool \<times> (wait_error + permit_ref)) option" where
  "put_acquire weigh ctx w look rounds registered (q, ls) =
     (case ctx look of
        Some c \<Rightarrow> Some ((q, ls), Suc look, rounds, registered, Inl (WaitContext c))
      | None \<Rightarrow>
          if q_stopped q then Some ((q, ls), Suc look, rounds, registered, Inl (WaitQueue QueueStopped))
          else
            case tryAcquire (q_budget q) w of
              (b, Inr r) \<Rightarrow> Some ((q\<lparr>q_budget := b\<rparr>, ls), Suc look, rounds, registered, Inr r)
            | (b, Inl e) \<Rightarrow>
                if e \<noteq> QueueFull then Some ((q, ls), Suc look, rounds, registered, Inl (WaitQueue e))
                else
                  case wait_for_bytes registered q of
                    (q1, False) \<Rightarrow> Some ((q1, ls), Suc look, rounds, registered, Inl (WaitQueue QueueInvariant))
                  | (q1, True) \<Rightarrow>
                      (case rounds of
                         [] \<Rightarrow> None
                       | round # rest \<Rightarrow>
                           let s = run_round weigh round (q1, ls) in
                           case round_wake round of
                             WakeContext c \<Rightarrow> Some (s, Suc look, rest, True, Inl (WaitContext c))
                           | WakeStopped \<Rightarrow> Some (s, Suc look, rest, True, Inl (WaitQueue QueueStopped))
                           | WakeSignal \<Rightarrow> put_acquire weigh ctx w (Suc look) rest True s))"

text \<open>The second loop: an entry. The permit is the waiter's own until it is in the queue or released.\<close>

fun put_entry :: "('a \<Rightarrow> int option) \<Rightarrow> looks \<Rightarrow> 'a \<Rightarrow> permit_ref \<Rightarrow> nat \<Rightarrow> 'a round list \<Rightarrow> bool \<Rightarrow> bool \<Rightarrow> 'a queue_system
    \<Rightarrow> ('a queue_system \<times> nat \<times> bool \<times> bool \<times> (wait_error + unit)) option" where
  "put_entry weigh ctx v r look rounds registered waitingForEntry (q, ls) =
     (case ctx look of
        Some c \<Rightarrow> Some ((release_lease r q, ls), Suc look, registered, waitingForEntry, Inl (WaitContext c))
      | None \<Rightarrow>
          case putReserved weigh q v (Some r) of
            (q1, None) \<Rightarrow> Some ((q1, ls), Suc look, registered, waitingForEntry, Inr ())
          | (q1, Some e) \<Rightarrow>
              if e \<noteq> QueueFull then Some ((release_lease r q1, ls), Suc look, registered, waitingForEntry, Inl (WaitQueue e))
              else
                case wait_for_entry registered waitingForEntry q1 of
                  (q2, False) \<Rightarrow>
                    Some ((release_lease r q2, ls), Suc look, registered, waitingForEntry, Inl (WaitQueue QueueInvariant))
                | (q2, True) \<Rightarrow>
                    (case rounds of
                       [] \<Rightarrow> None
                     | round # rest \<Rightarrow>
                         let (q3, ls3) = run_round weigh round (q2, ls) in
                         case round_wake round of
                           WakeContext c \<Rightarrow> Some ((release_lease r q3, ls3), Suc look, True, True, Inl (WaitContext c))
                         | WakeStopped \<Rightarrow> Some ((release_lease r q3, ls3), Suc look, True, True, Inl (WaitQueue QueueStopped))
                         | WakeSignal \<Rightarrow> put_entry weigh ctx v r (Suc look) rest True True (q3, ls3)))"

definition blocking_Put :: "('a \<Rightarrow> int option) \<Rightarrow> looks option \<Rightarrow> 'a \<Rightarrow> 'a round list \<Rightarrow> 'a queue_system \<Rightarrow> ('a, unit) waited" where
  "blocking_Put weigh context v rounds s =
     (case context of
        None \<Rightarrow> Some (s, 0, Inl (WaitQueue QueueStopped))
      | Some ctx \<Rightarrow>
          (case weigh v of
             None \<Rightarrow> Some (s, 0, Inl (WaitQueue InvalidWeight))
           | Some w \<Rightarrow>
               if w \<le> 0 \<or> w > bud_capacity (q_budget (fst s)) then Some (s, 0, Inl (WaitQueue InvalidWeight))
               else
                 case put_acquire weigh ctx w 0 rounds False s of
                   None \<Rightarrow> None
                 | Some (s1, look, rest, registered, Inl e) \<Rightarrow> Some (deferred_clear registered False s1, look, Inl e)
                 | Some (s1, look, rest, registered, Inr r) \<Rightarrow>
                     (case put_entry weigh ctx v r look rest registered False s1 of
                        None \<Rightarrow> None
                      | Some (s2, look2, registered2, waiting2, res) \<Rightarrow>
                          Some (deferred_clear registered2 waiting2 s2, look2, res))))"

section \<open>Take\<close>

text \<open>A taken entry is a lease of the taker: it joins the leases of the system.\<close>

fun take_loop :: "('a \<Rightarrow> int option) \<Rightarrow> looks \<Rightarrow> nat \<Rightarrow> 'a round list \<Rightarrow> 'a queue_system \<Rightarrow> ('a, 'a cell) waited" where
  "take_loop weigh ctx look rounds (q, ls) =
     (case ctx look of
        Some c \<Rightarrow> Some ((q, ls), Suc look, Inl (WaitContext c))
      | None \<Rightarrow>
          case TryTake q of
            (q1, Some c) \<Rightarrow> Some ((q1, case cell_permit c of None \<Rightarrow> ls | Some r \<Rightarrow> r # ls), Suc look, Inr c)
          | (q1, None) \<Rightarrow>
              if q_stopped q1 \<and> q_count q1 = 0 then Some ((q1, ls), Suc look, Inl (WaitQueue QueueStopped))
              else
                case rounds of
                  [] \<Rightarrow> None
                | round # rest \<Rightarrow>
                    let s = run_round weigh round (q1, ls) in
                    case round_wake round of
                      WakeContext c \<Rightarrow> Some (s, Suc look, Inl (WaitContext c))
                    | _ \<Rightarrow> take_loop weigh ctx (Suc look) rest s)"

definition blocking_Take :: "('a \<Rightarrow> int option) \<Rightarrow> looks option \<Rightarrow> 'a round list \<Rightarrow> 'a queue_system \<Rightarrow> ('a, 'a cell) waited" where
  "blocking_Take weigh context rounds s =
     (case context of
        None \<Rightarrow> Some (s, 0, Inl (WaitQueue QueueStopped))
      | Some ctx \<Rightarrow> take_loop weigh ctx 0 rounds s)"

declare put_acquire.simps [simp del] put_entry.simps [simp del] take_loop.simps [simp del]

section \<open>Waiting for a budget\<close>

datatype budget_op = BudAcquire int | BudReplace permit_ref int | BudRelease permit_ref

fun budget_step :: "budget_op \<Rightarrow> budget \<Rightarrow> budget" where
  "budget_step (BudAcquire w) b = fst (tryAcquire b w)"
| "budget_step (BudReplace r w) b = fst (budget_replace b (Some r) w)"
| "budget_step (BudRelease r) b = fst (permit_Release b (Some r))"

definition budget_run :: "budget_op list \<Rightarrow> budget \<Rightarrow> budget" where
  "budget_run ops b = fold budget_step ops b"

text \<open>A round of a budget: what the others do and how the waiter is woken, by its context or by the wake channel.\<close>

type_synonym budget_round = "budget_op list \<times> context_error option"

fun acquire_loop :: "looks \<Rightarrow> int \<Rightarrow> nat \<Rightarrow> budget_round list \<Rightarrow> budget \<Rightarrow> (budget \<times> (wait_error + permit_ref)) option" where
  "acquire_loop ctx w look rounds b =
     (case ctx look of
        Some c \<Rightarrow> Some (b, Inl (WaitContext c))
      | None \<Rightarrow>
          case tryAcquire b w of
            (b1, Inr r) \<Rightarrow> Some (b1, Inr r)
          | (b1, Inl e) \<Rightarrow>
              if e \<noteq> QueueFull then Some (b1, Inl (WaitQueue e))
              else
                case rounds of
                  [] \<Rightarrow> None
                | (ops, woken) # rest \<Rightarrow>
                    (case woken of
                       Some c \<Rightarrow> Some (budget_run ops b1, Inl (WaitContext c))
                     | None \<Rightarrow> acquire_loop ctx w (Suc look) rest (budget_run ops b1)))"

text \<open>\<open>gap\<close> is what the others do between the first attempt and the lock under which the second one is made.\<close>

definition budget_acquire :: "looks option \<Rightarrow> int \<Rightarrow> budget_op list \<Rightarrow> budget_round list \<Rightarrow> budget
    \<Rightarrow> (budget \<times> (wait_error + permit_ref)) option" where
  "budget_acquire context w gap rounds b =
     (case context of
        None \<Rightarrow> Some (b, Inl (WaitQueue QueueStopped))
      | Some ctx \<Rightarrow>
          if w \<le> 0 \<or> w > bud_capacity b then Some (b, Inl (WaitQueue InvalidWeight))
          else
            case tryAcquire b w of
              (b1, Inr r) \<Rightarrow> Some (b1, Inr r)
            | (b1, Inl e) \<Rightarrow>
                if e \<noteq> QueueFull then Some (b1, Inl (WaitQueue e))
                else
                  let b2 = budget_run gap b1 in
                  if bud_used b2 \<le> bud_capacity b2 - w then
                    (case issue w (b2\<lparr>bud_used := bud_used b2 + w\<rparr>) of
                       (b3, Inr r) \<Rightarrow> Some (b3, Inr r)
                     | (b3, Inl e) \<Rightarrow> Some (b3, Inl (WaitQueue e)))
                  else if bud_waiter b2 then Some (b2, Inl (WaitQueue QueueInvariant))
                  else
                    map_option (\<lambda>(b4, res). (b4\<lparr>bud_waiter := False, bud_stateWake := True\<rparr>, res))
                      (acquire_loop ctx w 0 rounds (b2\<lparr>bud_waiter := True, bud_stateWake := True\<rparr>)))"

declare acquire_loop.simps [simp del]

lemma tryAcquire_any:
  "wf_budget b \<Longrightarrow> tryAcquire b w = (b', Inl e) \<Longrightarrow> b' = b"
  "wf_budget b \<Longrightarrow> tryAcquire b w = (b', Inr r) \<Longrightarrow> wf_budget b' \<and> live b' r = Some w \<and> bud_capacity b' = bud_capacity b"
  by (erule tryAcquire_fails) (simp add: tryAcquire_ok)

lemma budget_step_wf: "wf_budget b \<Longrightarrow> wf_budget (budget_step op b) \<and> bud_capacity (budget_step op b) = bud_capacity b"
proof (cases op)
  case (BudAcquire w)
  assume wf: "wf_budget b"
  obtain b' r where t: "tryAcquire b w = (b', r)" by (cases "tryAcquire b w")
  then show ?thesis using wf BudAcquire tryAcquire_any [OF wf, of w b'] by (cases r) auto
next
  case (BudReplace old w)
  assume wf: "wf_budget b"
  obtain b' r where t: "budget_replace b (Some old) w = (b', r)" by (cases "budget_replace b (Some old) w")
  then show ?thesis using wf BudReplace replace_ok [OF wf, of "Some old" w b'] replace_fails [of b "Some old" w b'] by (cases r) auto
next
  case (BudRelease r)
  assume wf: "wf_budget b"
  obtain b' e where t: "permit_Release b (Some r) = (b', e)" by (cases "permit_Release b (Some r)")
  show ?thesis
  proof (cases "live b r")
    case None
    then show ?thesis using wf BudRelease byte_budget.release_dead [OF wf] by simp
  next
    case (Some w)
    then have "e = None" using byte_budget.release_live [OF wf, of r] t by simp
    then show ?thesis using BudRelease Release_ok [OF wf, of "Some r" b'] t by simp
  qed
qed

lemma budget_run_wf: "wf_budget b \<Longrightarrow> wf_budget (budget_run ops b) \<and> bud_capacity (budget_run ops b) = bud_capacity b"
  unfolding budget_run_def by (induction ops arbitrary: b) (simp_all add: budget_step_wf)

lemma acquire_loop_ok:
  "wf_budget b \<Longrightarrow> acquire_loop ctx w look rounds b = Some (b', res) \<Longrightarrow>
     wf_budget b' \<and> (\<forall>r. res = Inr r \<longrightarrow> live b' r = Some w)"
proof (induction rounds arbitrary: b look)
  case Nil
  obtain b1 r where t: "tryAcquire b w = (b1, r)" by (cases "tryAcquire b w")
  show ?case using Nil t tryAcquire_any [OF Nil.prems(1), of w b1]
    by (subst (asm) acquire_loop.simps) (auto split: option.splits sum.splits if_splits)
next
  case (Cons round rest)
  obtain ops woken where round: "round = (ops, woken)" by (cases round)
  have own: "wf_budget (budget_run ops b)" using budget_run_wf [OF Cons.prems(1)] by blast
  obtain b1 r where t: "tryAcquire b w = (b1, r)" by (cases "tryAcquire b w")
  show ?case
    using Cons.prems own Cons.IH [OF own] t tryAcquire_any [OF Cons.prems(1), of w b1]
    by (subst (asm) acquire_loop.simps) (auto simp: round split: option.splits sum.splits if_splits)
qed

lemma wf_budget_waiter [simp]:
  "wf_budget (b\<lparr>bud_waiter := x, bud_stateWake := y\<rparr>) = wf_budget b" "live (b\<lparr>bud_waiter := x, bud_stateWake := y\<rparr>) = live b"
  by (simp_all add: wf_budget_def live_def owns_ref_def permit_at_def fun_eq_iff)

text \<open>A granted permit is live at the weight asked for, and the books stay right whatever the outcome.\<close>

lemma budget_acquire_ok:
  assumes wf: "wf_budget b" and acq: "budget_acquire context w gap rounds b = Some (b', res)"
  shows "wf_budget b' \<and> (\<forall>r. res = Inr r \<longrightarrow> live b' r = Some w)"
proof (cases "\<exists>ctx. context = Some ctx \<and> \<not> (w \<le> 0 \<or> w > bud_capacity b)")
  case False
  then show ?thesis using acq wf by (auto simp: budget_acquire_def split: option.splits if_splits)
next
  case True
  then obtain ctx where ctx: "context = Some ctx" "0 < w" "w \<le> bud_capacity b" by auto
  obtain b1 r1 where t: "tryAcquire b w = (b1, r1)" by (cases "tryAcquire b w")
  show ?thesis
  proof (cases "r1 = Inl QueueFull")
    case False
    have "b1 = b" if "r1 = Inl e" for e using tryAcquire_any(1) [OF wf] t that by blast
    moreover have "wf_budget b1 \<and> live b1 r = Some w" if "r1 = Inr r" for r using tryAcquire_any(2) [OF wf] t that by blast
    ultimately show ?thesis using False acq t ctx wf by (cases r1) (simp_all add: budget_acquire_def, auto)
  next
    case True
    then have b1: "b1 = b" using t tryAcquire_fails by blast
    let ?b2 = "budget_run gap b"
    have wf2: "wf_budget ?b2" "bud_capacity ?b2 = bud_capacity b" using budget_run_wf [OF wf] by simp_all
    show ?thesis
    proof (cases "bud_used ?b2 \<le> bud_capacity ?b2 - w")
      case fits: True
      obtain b3 r3 where issue: "issue w (?b2\<lparr>bud_used := bud_used ?b2 + w\<rparr>) = (b3, Inr r3)" by (simp add: issue_def)
      then have "tryAcquire ?b2 w = (b3, Inr r3)" using fits ctx wf2(2) by (simp add: tryAcquire_def)
      then have "wf_budget b3" "live b3 r3 = Some w" using tryAcquire_any(2) [OF wf2(1)] by blast+
      moreover have "budget_acquire context w gap rounds b = Some (b3, Inr r3)"
        using t True b1 ctx fits issue by (simp add: budget_acquire_def Let_def)
      ultimately show ?thesis using acq by simp
    next
      case full: False
      let ?waiting = "?b2\<lparr>bud_waiter := True, bud_stateWake := True\<rparr>"
      have eq: "budget_acquire context w gap rounds b = (if bud_waiter ?b2 then Some (?b2, Inl (WaitQueue QueueInvariant))
          else map_option (\<lambda>(b4, res). (b4\<lparr>bud_waiter := False, bud_stateWake := True\<rparr>, res)) (acquire_loop ctx w 0 rounds ?waiting))"
        using t True b1 ctx full by (simp add: budget_acquire_def Let_def)
      show ?thesis
      proof (cases "bud_waiter ?b2")
        case False
        then obtain b4 where b4: "acquire_loop ctx w 0 rounds ?waiting = Some (b4, res)"
          "b' = b4\<lparr>bud_waiter := False, bud_stateWake := True\<rparr>"
          using acq unfolding eq by (auto simp: map_option_case split: option.splits)
        have "wf_budget ?waiting" using wf2(1) by simp
        from acquire_loop_ok [OF this b4(1)] show ?thesis by (simp add: b4(2))
      qed (use acq eq wf2(1) in auto)
    qed
  qed
qed

section \<open>The books of a queue\<close>

text \<open>Every live permit of the budget pays for an entry, an open reservation or a lease that a consumer still holds.\<close>

definition balanced :: "'a queue_system \<Rightarrow> bool" where
  "balanced s \<longleftrightarrow> dom (live (q_budget (fst s))) = set (held (fst s)) \<union> set (snd s)"

definition orderly :: "('a \<Rightarrow> int option) \<Rightarrow> 'a queue_system \<Rightarrow> bool" where
  "orderly weigh s \<longleftrightarrow> system_ok weigh s \<and> balanced s"

lemma held_snoc: "contents q' = contents q @ [Cell v r] \<Longrightarrow> q_handles q' = q_handles q \<Longrightarrow> set (held q') = insert r (set (held q))"
  by (auto simp: held_def entry_permits_def map_filter_append map_filter_simps cell_permit_def)

lemma TryPut_balanced:
  assumes wf: "wf_queue weigh q" and bal: "balanced (q, ls)"
  shows "balanced (fst (TryPut weigh q v), ls)"
proof (cases "admits weigh q v")
  case True
  then obtain q' r w where t: "TryPut weigh q v = (q', None)" "contents q' = contents q @ [Cell v r]"
    "live (q_budget q') = (live (q_budget q))(r \<mapsto> w)" "q_handles q' = q_handles q"
    using TryPut_cases [OF wf, of v] by auto
  then show ?thesis using bal held_snoc [OF t(2,4)] by (simp add: balanced_def)
next
  case False
  then obtain q' e where t: "TryPut weigh q v = (q', Some e)" "same_queue q q'" using TryPut_cases [OF wf, of v] by auto
  then have "held q' = held q" by (simp add: same_queue_def held_def entry_permits_def)
  then show ?thesis using bal t by (simp add: balanced_def same_queue_def)
qed

lemma reserve_balanced:
  assumes wf: "wf_queue weigh q" and bal: "balanced (q, ls)"
  shows "balanced (fst (tryReserveCapacity q w), ls)"
proof (cases "tryReserveCapacity q w")
  case (Pair q' res)
  show ?thesis
  proof (cases res)
    case (Inl e)
    then have "q' = q" using reserve_fails Pair by blast
    then show ?thesis using bal Pair by simp
  next
    case (Inr h)
    obtain r b where h: "tryAcquire (q_budget q) w = (b, Inr r)" "q_budget q' = b" "contents q' = contents q"
      "q_handles q' = q_handles q @ [\<lparr>res_permit = Some r, res_active = True\<rparr>]"
      using Pair [unfolded Inr] by (auto simp: tryReserveCapacity_def split: if_splits prod.splits sum.splits)
    then have "live b = (live (q_budget q))(r \<mapsto> w)" using tryAcquire_ok(3) wf by (auto simp: wf_queue_def)
    moreover have "set (held q') = insert r (set (held q))"
      using h(3,4) by (auto simp: held_def entry_permits_def active_permits_def map_filter_append map_filter_simps)
    ultimately show ?thesis using bal Pair h(2) by (simp add: balanced_def)
  qed
qed

lemma spend_held:
  assumes wf: "wf_queue weigh q" and u: "usable q h" and q': "contents q' = contents q" "q_handles q' = (q_handles q)[h := spent]"
  shows "set (held q') = set (held q) - {the (res_permit (q_handles q ! h))}" "the (res_permit (q_handles q ! h)) \<in> set (held q)"
proof -
  obtain r us vs where r: "res_permit (q_handles q ! h) = Some r" "r \<in> set (held q)"
    "active_permits (q_handles q) = us @ r # vs" "active_permits ((q_handles q)[h := spent]) = us @ vs"
    using usable_permit [OF wf u] by metis
  have "distinct (held q)" using wf by (simp add: wf_queue_def)
  then show "set (held q') = set (held q) - {the (res_permit (q_handles q ! h))}"
    using r q' by (auto simp: held_def entry_permits_def)
  from r(1,2) show "the (res_permit (q_handles q ! h)) \<in> set (held q)" by simp
qed

lemma step_orderly:
  assumes ok: "orderly weigh (q, ls)"
  shows "orderly weigh (queue_step weigh op (q, ls))"
proof -
  have sys: "system_ok weigh (q, ls)" and bal: "balanced (q, ls)" using ok by (simp_all add: orderly_def)
  have wf: "wf_queue weigh q" using sys by (simp add: system_ok_def)
  then have wfb: "wf_budget (q_budget q)" by (simp add: wf_queue_def)
  have out: "set (held q) \<inter> set ls = {}" using sys by (auto simp: system_ok_def outside_def)
  have "balanced (queue_step weigh op (q, ls))"
  proof (cases op)
    case (OpPut v)
    then show ?thesis using TryPut_balanced [OF wf bal] by simp
  next
    case OpTake
    show ?thesis
    proof (cases "q_count q = 0")
      case True
      then show ?thesis using bal by (simp add: OpTake TryTake_def)
    next
      case False
      then obtain q1 v r where "TryTake q = (q1, Some (Cell v r))" "q_budget q1 = q_budget q" "set (held q) = insert r (set (held q1))"
        using TryTake_cases [OF wf] by blast
      then show ?thesis using bal by (simp add: OpTake balanced_def)
    qed
  next
    case (OpReserve n)
    then show ?thesis using reserve_balanced [OF wf bal] by simp
  next
    case (OpCommit h v)
    consider e where "reservation_commit weigh q h v = (q, Some e)"
      | n b r' where "usable q h" "weigh v = Some n" "0 < n" "budget_replace (q_budget q) (res_permit (q_handles q ! h)) n = (b, Inr r')"
      using commit_cases [OF wf, of h v] by blast
    then show ?thesis
    proof cases
      case 1
      then show ?thesis using bal by (simp add: OpCommit)
    next
      case 2
      let ?old = "the (res_permit (q_handles q ! h))"
      let ?q = "q\<lparr>q_budget := b, q_reservations := q_reservations q - 1, q_handles := (q_handles q)[h := spent]\<rparr>"
      note rep = replace_ok [OF wfb 2(4)]
      obtain q1 where c: "reservation_commit weigh q h v = (q1, None)" "contents q1 = contents q @ [Cell v r']"
        using commit_step [OF wf 2] by blast
      then have q1: "q_handles q1 = (q_handles q)[h := spent]" "q_budget q1 = b"
        using 2 by (auto simp: reservation_commit_def split: if_splits)
      have held: "set (held ?q) = set (held q) - {?old}" "?old \<in> set (held q)"
        using spend_held [OF wf 2(1), of ?q] by simp_all
      have "set (held q1) = insert r' (set (held ?q))" by (rule held_snoc) (simp_all add: c(2) q1(1))
      moreover have "?old \<notin> set ls" using held(2) out by blast
      ultimately show ?thesis using bal rep held c(1) q1(2) by (auto simp: OpCommit balanced_def)
    qed
  next
    case (OpCancel h)
    show ?thesis
    proof (cases "usable q h")
      case True
      let ?old = "the (res_permit (q_handles q ! h))"
      obtain q1 where c: "reservation_release q h = (q1, None)" "contents q1 = contents q"
        "live (q_budget q1) = (live (q_budget q))(?old := None)"
        using release_reservation_ok [OF wf True] by blast
      then have q1: "q_handles q1 = (q_handles q)[h := spent]"
        using True by (auto simp: reservation_release_def split: if_splits prod.splits)
      have held: "set (held q1) = set (held q) - {?old}" "?old \<in> set (held q)"
        using spend_held [OF wf True c(2) q1] by simp_all
      then have "?old \<notin> set ls" using out by blast
      then show ?thesis using bal held c by (auto simp: OpCancel balanced_def)
    next
      case False
      then show ?thesis using bal by (simp add: OpCancel reservation_release_def)
    qed
  next
    case OpClose
    then show ?thesis using bal Close_ok [OF wf] by (simp add: balanced_def held_def entry_permits_def queue_Close_def)
  next
    case (OpDone i)
    show ?thesis
    proof (cases "i < length ls")
      case True
      let ?r = "ls ! i"
      have r: "outside q ?r" using sys True by (simp add: system_ok_def)
      have split: "ls = take i ls @ ?r # drop (Suc i) ls" by (rule id_take_nth_drop [OF True])
      have "distinct ls" using sys by (simp add: system_ok_def)
      then have "distinct (take i ls @ ?r # drop (Suc i) ls)" using split by metis
      moreover have "set ls = set (take i ls @ ?r # drop (Suc i) ls)" using split by metis
      ultimately have "set (take i ls @ drop (Suc i) ls) = set ls - {?r}" by (simp only: distinct_append set_append) auto
      moreover have "live (q_budget (q\<lparr>q_budget := fst (permit_Release (q_budget q) (Some ?r))\<rparr>)) = (live (q_budget q))(?r := None)"
        by (rule lease_Release_ok(3) [OF wf]) (use r in \<open>auto simp: outside_def\<close>)
      ultimately show ?thesis using bal r True by (auto simp: OpDone balanced_def outside_def)
    next
      case False
      then show ?thesis using bal by (simp add: OpDone)
    qed
  qed
  moreover have "system_ok weigh (queue_step weigh op (q, ls))" by (rule bounded_fifo.step_ok [OF sys])
  ultimately show ?thesis by (simp add: orderly_def)
qed

lemma orderly_permute: "orderly weigh (q, ls) \<Longrightarrow> mset ls' = mset ls \<Longrightarrow> orderly weigh (q, ls')"
  by (metis orderly_def balanced_def system_ok_def fst_conv snd_conv mset_eq_setD mset_eq_imp_distinct_iff)

text \<open>A lease outside the list of the others is left alone by everything they do.\<close>

lemma step_own_lease:
  assumes ok: "orderly weigh (q, r # ls)" and s': "queue_step weigh op (q, ls) = (q', ls')"
  shows "orderly weigh (q', r # ls')"
proof -
  let ?op = "case op of OpDone i \<Rightarrow> OpDone (Suc i) | _ \<Rightarrow> op"
  have "\<exists>ls2. queue_step weigh ?op (q, r # ls) = (q', ls2) \<and> mset ls2 = mset (r # ls')"
    using s' by (cases op) (auto split: option.splits cell.splits prod.splits if_splits)
  then obtain ls2 where "queue_step weigh ?op (q, r # ls) = (q', ls2)" "mset (r # ls') = mset ls2" by auto
  then show ?thesis using step_orderly [OF ok, of ?op] orderly_permute by metis
qed

lemma steps_own_lease:
  "orderly weigh (q, r # ls) \<Longrightarrow> fold (queue_step weigh) ops (q, ls) = (q', ls') \<Longrightarrow> orderly weigh (q', r # ls')"
proof (induction ops arbitrary: q ls)
  case (Cons op ops)
  obtain q1 ls1 where s1: "queue_step weigh op (q, ls) = (q1, ls1)" by (cases "queue_step weigh op (q, ls)")
  then show ?case using Cons.IH [OF step_own_lease [OF Cons.prems(1) s1]] Cons.prems(2) by simp
qed simp

lemma step_orderly_system: "orderly weigh s \<Longrightarrow> orderly weigh (queue_step weigh op s)"
  by (cases s) (simp add: step_orderly del: queue_step.simps)

lemma steps_orderly: "orderly weigh s \<Longrightarrow> orderly weigh (fold (queue_step weigh) ops s)"
  by (induction ops arbitrary: s) (simp_all add: step_orderly_system)

lemma release_orderly:
  assumes "orderly weigh (q, r # ls)"
  shows "orderly weigh (release_lease r q, ls)"
  using step_orderly [OF assms, of "OpDone 0"] by (simp add: release_lease_def)

section \<open>What a waiting call leaves\<close>

lemma acquire_orderly:
  assumes ok: "orderly weigh (q, ls)" and acq: "tryAcquire (q_budget q) w = (b, Inr r)"
  shows "orderly weigh (q\<lparr>q_budget := b\<rparr>, r # ls)"
proof -
  have sys: "system_ok weigh (q, ls)" "wf_queue weigh q" using ok by (simp_all add: orderly_def system_ok_def)
  note ready = wf_after_acquire [OF sys(2) acq]
  have "live (q_budget q) r = None" using tryAcquire_ok(2) acq sys(2) by (auto simp: wf_queue_def)
  then have "r \<notin> set ls" "system_ok weigh (q\<lparr>q_budget := b\<rparr>, r # ls)"
    using sys(1) ready by (auto simp: system_ok_def outside_def)
  then show ?thesis using ok ready(3) by (auto simp: orderly_def balanced_def)
qed

lemma putReserved_cases:
  "putReserved weigh q v (Some r) = (q1, res) \<Longrightarrow> res \<noteq> None \<and> q1 = q \<or>
     res = None \<and> q1 = enqueue v r q \<and> \<not> q_stopped q \<and> q_count q + q_reservations q \<noteq> length (q_storage q)
     \<and> weigh v = Some (permit_weight (permit_at (q_budget q) r)) \<and> owns_ref (q_budget q) r \<and> \<not> permit_released (permit_at (q_budget q) r)"
  by (auto simp: putReserved_def split: if_splits option.splits)

lemma putReserved_orderly:
  assumes ok: "orderly weigh (q, r # ls)" and put: "putReserved weigh q v (Some r) = (q1, None)"
  shows "orderly weigh (q1, ls)" "queue_values q1 = queue_values q @ [v]"
proof -
  have q1: "q1 = enqueue v r q" "q_count q + q_reservations q \<noteq> length (q_storage q)"
    "weigh v = Some (permit_weight (permit_at (q_budget q) r))" "live (q_budget q) r = Some (permit_weight (permit_at (q_budget q) r))"
    using putReserved_cases [OF put] by (auto simp: live_iff)
  have wf: "wf_queue weigh q" and out: "r \<notin> set (held q)" and sys: "system_ok weigh (q, r # ls)"
    using ok by (auto simp: orderly_def system_ok_def outside_def)
  have room: "q_count q + q_reservations q < length (q_storage q)" using wf q1(2) by (simp add: wf_queue_def)
  have wf1: "wf_queue weigh q1" unfolding q1(1) by (rule wf_queue_enqueue [OF wf room q1(3,4) out])
  have con: "contents q1 = contents q @ [Cell v r]" using contents_enqueue [OF wf] room q1(1) by simp
  then show "queue_values q1 = queue_values q @ [v]" by (rule queue_values_snoc)
  have "set (held q1) = insert r (set (held q))" by (rule held_snoc [OF con]) (simp add: q1(1))
  then show "orderly weigh (q1, ls)"
    using wf1 sys ok by (auto simp: orderly_def system_ok_def outside_def balanced_def q1(1))
qed

text \<open>Registering and clearing a waiter concerns nobody else.\<close>

definition same_books :: "'a bqueue \<Rightarrow> 'a bqueue \<Rightarrow> bool" where
  "same_books q q' \<longleftrightarrow> q_storage q' = q_storage q \<and> q_head q' = q_head q \<and> q_tail q' = q_tail q \<and> q_count q' = q_count q
     \<and> q_reservations q' = q_reservations q \<and> q_stopped q' = q_stopped q \<and> q_budget q' = q_budget q \<and> q_handles q' = q_handles q"

lemma same_books_orderly: "same_books q q' \<Longrightarrow> orderly weigh (q', ls) = orderly weigh (q, ls) \<and> queue_values q' = queue_values q"
  by (simp add: same_books_def orderly_def system_ok_def balanced_def wf_queue_def held_def entry_permits_def outside_def
      contents_def queue_values_def)

lemma registering: "wait_for_bytes reg q = (q', ok) \<Longrightarrow> same_books q q'" "wait_for_entry reg entry q = (q', ok) \<Longrightarrow> same_books q q'"
  by (auto simp: wait_for_bytes_def wait_for_entry_def registerPutWaiter_def switchPutWaiterToEntry_def same_books_def Let_def
      split: if_splits)

lemma deferred_clear_same: "same_books q (fst (deferred_clear reg entry (q, ls)))" "snd (deferred_clear reg entry (q, ls)) = ls"
  by (simp_all add: deferred_clear_def clearPutWaiter_def same_books_def Let_def)

lemma put_entry_ok:
  "orderly weigh (q, r # ls) \<Longrightarrow> put_entry weigh ctx v r look rounds reg entry (q, ls) = Some ((q', ls'), n, reg', entry', res) \<Longrightarrow>
     orderly weigh (q', ls') \<and> (res = Inr () \<longrightarrow> (\<exists>vs. queue_values q' = vs @ [v]))"
proof (induction rounds arbitrary: q ls look reg entry)
  case Nil
  obtain q1 e where put: "putReserved weigh q v (Some r) = (q1, e)" by (cases "putReserved weigh q v (Some r)")
  obtain q2 ok where reg: "wait_for_entry reg entry q1 = (q2, ok)" by (cases "wait_for_entry reg entry q1")
  have own: "orderly weigh (q2, r # ls)" if "e \<noteq> None"
    using that Nil.prems(1) putReserved_cases [OF put] same_books_orderly [OF registering(2) [OF reg]] by auto
  show ?case
    using Nil release_orderly [OF Nil.prems(1)] release_orderly [OF own] putReserved_cases [OF put] putReserved_orderly [OF Nil.prems(1)] put reg
    by (subst (asm) put_entry.simps) (auto split: option.splits if_splits bool.splits)
next
  case (Cons round rest)
  obtain q1 e where put: "putReserved weigh q v (Some r) = (q1, e)" by (cases "putReserved weigh q v (Some r)")
  obtain q2 ok where reg: "wait_for_entry reg entry q1 = (q2, ok)" by (cases "wait_for_entry reg entry q1")
  have own: "orderly weigh (q2, r # ls)" if "e \<noteq> None"
    using that Cons.prems(1) putReserved_cases [OF put] same_books_orderly [OF registering(2) [OF reg]] by auto
  obtain q3 ls3 where r3: "run_round weigh round (q2, ls) = (q3, ls3)" by (cases "run_round weigh round (q2, ls)")
  show ?case
  proof (cases "ctx look = None \<and> e = Some QueueFull \<and> ok")
    case True
    then have own3: "orderly weigh (q3, r # ls3)" using steps_own_lease [OF own] r3 by (simp add: run_round_def)
    show ?thesis
      using Cons.prems(2) Cons.IH [OF own3] release_orderly [OF own3] True put reg r3
      by (subst (asm) put_entry.simps) (auto split: wake.splits)
  next
    case False
    then show ?thesis
      using Cons.prems release_orderly [OF Cons.prems(1)] release_orderly [OF own] putReserved_cases [OF put]
        putReserved_orderly [OF Cons.prems(1)] put reg
      by (subst (asm) put_entry.simps) (auto split: option.splits if_splits bool.splits)
  qed
qed

lemma put_acquire_ok:
  "orderly weigh (q, ls) \<Longrightarrow> put_acquire weigh ctx w look rounds reg (q, ls) = Some ((q', ls'), n, rest, reg', res) \<Longrightarrow>
     (case res of Inl e \<Rightarrow> orderly weigh (q', ls') | Inr r \<Rightarrow> orderly weigh (q', r # ls'))"
proof (induction rounds arbitrary: q ls look reg)
  case Nil
  obtain b e where acq: "tryAcquire (q_budget q) w = (b, e)" by (cases "tryAcquire (q_budget q) w")
  obtain q1 ok where reg: "wait_for_bytes reg q = (q1, ok)" by (cases "wait_for_bytes reg q")
  show ?case using Nil acquire_orderly [OF Nil.prems(1)] acq reg same_books_orderly [OF registering(1) [OF reg]]
    by (subst (asm) put_acquire.simps) (auto split: option.splits if_splits sum.splits bool.splits)
next
  case (Cons round more)
  obtain b e where acq: "tryAcquire (q_budget q) w = (b, e)" by (cases "tryAcquire (q_budget q) w")
  obtain q1 ok where reg: "wait_for_bytes reg q = (q1, ok)" by (cases "wait_for_bytes reg q")
  have own1: "orderly weigh (q1, ls)" using Cons.prems(1) same_books_orderly [OF registering(1) [OF reg]] by blast
  obtain q2 ls2 where r2: "run_round weigh round (q1, ls) = (q2, ls2)" by (cases "run_round weigh round (q1, ls)")
  have own: "orderly weigh (q2, ls2)" using steps_orderly [OF own1, of "round_ops round"] r2 by (simp add: run_round_def)
  show ?case
    using Cons.prems Cons.IH [OF own] own own1 acquire_orderly [OF Cons.prems(1)] acq reg r2
    by (subst (asm) put_acquire.simps) (auto simp: Let_def split: option.splits if_splits sum.splits wake.splits bool.splits)
qed

text \<open>What a taker that returns has got.\<close>

definition take_result :: "('a \<Rightarrow> int option) \<Rightarrow> 'a queue_system \<Rightarrow> wait_error + 'a cell \<Rightarrow> bool" where
  "take_result weigh s res = (case res of
     Inl (WaitQueue e) \<Rightarrow> e = QueueStopped \<and> q_stopped (fst s) \<and> queue_values (fst s) = []
   | Inl (WaitContext c) \<Rightarrow> True
   | Inr c \<Rightarrow> (\<exists>v r. c = Cell v r \<and> r \<in> set (snd s) \<and> live (q_budget (fst s)) r = weigh v))"

lemma take_now:
  assumes ok: "orderly weigh (q, ls)" and take: "TryTake q = (q', Some c)"
  shows "orderly weigh (q', case cell_permit c of None \<Rightarrow> ls | Some r \<Rightarrow> r # ls) \<and>
    take_result weigh (q', case cell_permit c of None \<Rightarrow> ls | Some r \<Rightarrow> r # ls) (Inr c)"
proof -
  have wf: "wf_queue weigh q" using ok by (simp add: orderly_def system_ok_def)
  moreover have "q_count q \<noteq> 0" using take by (simp add: TryTake_def split: if_splits)
  ultimately obtain v r where c: "c = Cell v r" "live (q_budget q) r = weigh v" "q_budget q' = q_budget q"
    using TryTake_cases [OF wf] take by fastforce
  then show ?thesis using step_orderly [OF ok, of OpTake] take by (simp add: cell_permit_def take_result_def)
qed

lemma take_loop_ok:
  "orderly weigh (q, ls) \<Longrightarrow> take_loop weigh ctx look rounds (q, ls) = Some (s', n, res) \<Longrightarrow>
     orderly weigh s' \<and> take_result weigh s' res"
proof (induction rounds arbitrary: q ls look)
  case Nil
  obtain q1 c where t: "TryTake q = (q1, c)" by (cases "TryTake q")
  show ?case
    using Nil take_now [OF Nil.prems(1)] t TryTake_none [of q q1] queue_values_Nil [of q]
    by (subst (asm) take_loop.simps) (auto simp: take_result_def split: option.splits if_splits)
next
  case (Cons round rest)
  obtain q1 c where t: "TryTake q = (q1, c)" by (cases "TryTake q")
  obtain q2 ls2 where r2: "run_round weigh round (q, ls) = (q2, ls2)" by (cases "run_round weigh round (q, ls)")
  have own: "orderly weigh (q2, ls2)" using steps_orderly [OF Cons.prems(1), of "round_ops round"] r2 by (simp add: run_round_def)
  show ?case
  proof (cases "ctx look = None \<and> c = None \<and> \<not> (q_stopped q \<and> q_count q = 0)")
    case True
    then have "q1 = q" using t TryTake_none [of q q1] by simp
    then show ?thesis using Cons.prems(2) Cons.IH [OF own] own True t r2
      by (subst (asm) take_loop.simps) (auto simp: Let_def take_result_def split: wake.splits)
  next
    case False
    then show ?thesis
      using Cons.prems take_now [OF Cons.prems(1)] t TryTake_none [of q q1] queue_values_Nil [of q]
      by (subst (asm) take_loop.simps) (auto simp: take_result_def split: option.splits if_splits)
  qed
qed


text \<open>Who is registered: nobody, or the caller, waiting for bytes or for an entry.\<close>

definition waiter_state :: "'a bqueue \<Rightarrow> bool \<times> nat \<times> nat" where
  "waiter_state q = (q_putWaiter q, q_entryWaiters q, q_byteWaiters q)"

definition registered_as :: "bool \<Rightarrow> bool \<Rightarrow> 'a bqueue \<Rightarrow> bool" where
  "registered_as registered entry q \<longleftrightarrow>
     waiter_state q = (if registered then (True, if entry then 1 else 0, if entry then 0 else 1) else (False, 0, 0))"

lemma TryTake_waiters: "waiter_state (fst (TryTake q)) = waiter_state q"
  by (simp add: TryTake_def waiter_state_def)

lemma enqueue_waiters [simp]: "waiter_state (enqueue v r q) = waiter_state q"
  by (simp add: enqueue_def waiter_state_def)

lemma waiter_state_update [simp]:
  "waiter_state (q\<lparr>q_budget := b\<rparr>) = waiter_state q" "waiter_state (q\<lparr>q_reservations := n\<rparr>) = waiter_state q"
  "waiter_state (q\<lparr>q_handles := hs\<rparr>) = waiter_state q"
  by (simp_all add: waiter_state_def)

lemma putReserved_waiters: "putReserved weigh q v owned = (q', e) \<Longrightarrow> waiter_state q' = waiter_state q"
  by (auto simp: putReserved_def split: option.splits if_splits)

lemma tryReserve_waiters: "waiter_state (fst (tryReserve weigh q v)) = waiter_state q"
  by (simp add: tryReserve_def split: option.split prod.split)

lemma TryPut_waiters: "waiter_state (fst (TryPut weigh q v)) = waiter_state q"
  using tryReserve_waiters [of weigh q v]
  by (auto simp: TryPut_def dest!: putReserved_waiters split: sum.splits prod.splits option.splits)

lemma queue_step_waiters: "waiter_state (fst (queue_step weigh op (q, ls))) = waiter_state q"
proof (cases op)
  case OpTake
  then show ?thesis using TryTake_waiters [of q] by (auto split: prod.splits option.splits cell.splits)
next
  case (OpReserve w)
  then show ?thesis by (simp add: tryReserveCapacity_def waiter_state_def split: prod.splits sum.splits)
next
  case (OpCommit h v)
  have "waiter_state (fst (reservation_commit weigh q h v)) = waiter_state q"
    by (auto simp: reservation_commit_def waiter_state_def enqueue_def split: prod.splits sum.splits option.splits)
  then show ?thesis using OpCommit by simp
next
  case (OpCancel h)
  then show ?thesis by (simp add: reservation_release_def waiter_state_def split: prod.splits)
next
  case OpClose
  then show ?thesis by (simp add: queue_Close_def waiter_state_def)
qed (simp_all add: TryPut_waiters)

lemma run_round_waiters: "run_round weigh round (q, ls) = (q', ls') \<Longrightarrow> waiter_state q' = waiter_state q"
proof -
  have "waiter_state (fst (fold (queue_step weigh) ops s)) = waiter_state (fst s)" for ops and s :: "'a queue_system"
    by (induction ops arbitrary: s) (use queue_step_waiters in \<open>auto simp del: queue_step.simps\<close>)
  then show "run_round weigh round (q, ls) = (q', ls') \<Longrightarrow> waiter_state q' = waiter_state q"
    unfolding run_round_def by (metis fst_conv)
qed

lemma registers:
  "registered_as reg False q \<Longrightarrow> wait_for_bytes reg q = (q', ok) \<Longrightarrow> ok \<and> registered_as True False q'"
  "registered_as reg entry q \<Longrightarrow> entry \<longrightarrow> reg \<Longrightarrow> wait_for_entry reg entry q = (q', ok) \<Longrightarrow> ok \<and> registered_as True True q'"
  by (auto simp: registered_as_def waiter_state_def wait_for_bytes_def wait_for_entry_def registerPutWaiter_def
      switchPutWaiterToEntry_def Let_def split: if_splits)

lemma clears: "registered_as reg entry q \<Longrightarrow> registered_as False False (fst (deferred_clear reg entry (q, ls)))"
  by (auto simp: registered_as_def waiter_state_def deferred_clear_def clearPutWaiter_def Let_def split: if_splits)

lemma put_acquire_waiters:
  "registered_as reg False q \<Longrightarrow> put_acquire weigh ctx w look rounds reg (q, ls) = Some ((q', ls'), n, rest, reg', res) \<Longrightarrow>
     registered_as reg' False q'"
proof (induction rounds arbitrary: q ls look reg)
  case Nil
  obtain q1 ok where reg: "wait_for_bytes reg q = (q1, ok)" by (cases "wait_for_bytes reg q")
  show ?case using Nil reg registers(1) [OF Nil.prems(1) reg]
    by (subst (asm) put_acquire.simps) (auto simp: registered_as_def split: option.splits if_splits prod.splits sum.splits)
next
  case (Cons round more)
  obtain q1 ok where reg: "wait_for_bytes reg q = (q1, ok)" by (cases "wait_for_bytes reg q")
  obtain q2 ls2 where r2: "run_round weigh round (q1, ls) = (q2, ls2)" by (cases "run_round weigh round (q1, ls)")
  have own: "ok" "registered_as True False q2"
    using registers(1) [OF Cons.prems(1) reg] run_round_waiters [OF r2] by (simp_all add: registered_as_def)
  show ?case
    using Cons.prems Cons.IH [OF own(2)] own reg r2
    by (subst (asm) put_acquire.simps)
      (auto simp: Let_def registered_as_def split: option.splits if_splits prod.splits sum.splits wake.splits)
qed

lemma put_entry_waiters:
  "registered_as reg entry q \<Longrightarrow> entry \<longrightarrow> reg \<Longrightarrow>
     put_entry weigh ctx v r look rounds reg entry (q, ls) = Some ((q', ls'), n, reg', entry', res) \<Longrightarrow> registered_as reg' entry' q'"
proof (induction rounds arbitrary: q ls look reg entry)
  case Nil
  obtain q1 e where put: "putReserved weigh q v (Some r) = (q1, e)" by (cases "putReserved weigh q v (Some r)")
  obtain q2 ok where reg: "wait_for_entry reg entry q1 = (q2, ok)" by (cases "wait_for_entry reg entry q1")
  have q1: "registered_as reg entry q1" using Nil.prems(1) putReserved_waiters [OF put] by (simp add: registered_as_def)
  show ?case using Nil put reg q1 registers(2) [OF q1 _ reg]
    by (subst (asm) put_entry.simps) (auto simp: registered_as_def release_lease_def split: option.splits if_splits)
next
  case (Cons round rest)
  obtain q1 e where put: "putReserved weigh q v (Some r) = (q1, e)" by (cases "putReserved weigh q v (Some r)")
  obtain q2 ok where reg: "wait_for_entry reg entry q1 = (q2, ok)" by (cases "wait_for_entry reg entry q1")
  obtain q3 ls3 where r3: "run_round weigh round (q2, ls) = (q3, ls3)" by (cases "run_round weigh round (q2, ls)")
  have q1: "registered_as reg entry q1" using Cons.prems(1) putReserved_waiters [OF put] by (simp add: registered_as_def)
  have own: "ok" "registered_as True True q3"
    using registers(2) [OF q1 Cons.prems(2) reg] run_round_waiters [OF r3] by (simp_all add: registered_as_def)
  show ?case
    using Cons.prems Cons.IH [OF own(2)] own q1 put reg r3
    by (subst (asm) put_entry.simps) (auto simp: registered_as_def release_lease_def split: option.splits if_splits wake.splits)
qed

text \<open>A wait ends with its context: a look that shows an error is the last one.\<close>

lemma put_acquire_ends:
  "ctx (look + k) \<noteq> None \<Longrightarrow> k \<le> length rounds \<Longrightarrow>
     \<exists>s' n rest reg' res. put_acquire weigh ctx w look rounds reg (q, ls) = Some (s', n, rest, reg', res)
       \<and> (\<forall>r. res = Inr r \<longrightarrow> n \<le> look + k \<and> n + length rest = Suc (look + length rounds))"
proof (induction k arbitrary: look rounds q ls reg)
  case 0
  then show ?case by (subst put_acquire.simps) auto
next
  case (Suc k)
  obtain round rest where rounds: "rounds = round # rest" using Suc.prems(2) by (cases rounds) auto
  obtain b e where acq: "tryAcquire (q_budget q) w = (b, e)" by (cases "tryAcquire (q_budget q) w")
  obtain q1 ok where reg: "wait_for_bytes reg q = (q1, ok)" by (cases "wait_for_bytes reg q")
  obtain q2 ls2 where r2: "run_round weigh round (q1, ls) = (q2, ls2)" by (cases "run_round weigh round (q1, ls)")
  show ?case
  proof (cases "ctx look = None \<and> \<not> q_stopped q \<and> e = Inl QueueFull \<and> ok \<and> round_wake round = WakeSignal")
    case True
    obtain s' n rest' reg' res where IH: "put_acquire weigh ctx w (Suc look) rest True (q2, ls2) = Some (s', n, rest', reg', res)"
      "\<forall>r. res = Inr r \<longrightarrow> n \<le> Suc look + k \<and> n + length rest' = Suc (Suc look + length rest)"
      using Suc.IH [of "Suc look" rest True q2 ls2] Suc.prems rounds by auto
    show ?thesis
      using True acq reg r2 rounds IH by (subst put_acquire.simps) (auto simp: Let_def)
  next
    case False
    then show ?thesis using acq reg r2 rounds Suc.prems
      by (subst put_acquire.simps) (auto simp: Let_def split: option.splits sum.splits wake.splits bool.splits)
  qed
qed

lemma put_entry_ends:
  "ctx (look + k) \<noteq> None \<Longrightarrow> k \<le> length rounds \<Longrightarrow> \<exists>s'. put_entry weigh ctx v r look rounds reg entry (q, ls) = Some s'"
proof (induction k arbitrary: look rounds q ls reg entry)
  case 0
  then show ?case by (subst put_entry.simps) auto
next
  case (Suc k)
  obtain round rest where rounds: "rounds = round # rest" using Suc.prems(2) by (cases rounds) auto
  obtain q1 e where put: "putReserved weigh q v (Some r) = (q1, e)" by (cases "putReserved weigh q v (Some r)")
  obtain q2 ok where reg: "wait_for_entry reg entry q1 = (q2, ok)" by (cases "wait_for_entry reg entry q1")
  obtain q3 ls3 where r3: "run_round weigh round (q2, ls) = (q3, ls3)" by (cases "run_round weigh round (q2, ls)")
  have "\<exists>s'. put_entry weigh ctx v r (Suc look) rest True True (q3, ls3) = Some s'"
    using Suc.IH [of "Suc look" rest True True q3 ls3] Suc.prems rounds by auto
  then show ?case using put reg r3 rounds by (subst put_entry.simps) (auto split: option.splits wake.splits bool.splits)
qed

lemma take_loop_ends:
  "ctx (look + k) \<noteq> None \<Longrightarrow> k \<le> length rounds \<Longrightarrow> \<exists>s'. take_loop weigh ctx look rounds (q, ls) = Some s'"
proof (induction k arbitrary: look rounds q ls)
  case 0
  then show ?case by (subst take_loop.simps) auto
next
  case (Suc k)
  obtain round rest where rounds: "rounds = round # rest" using Suc.prems(2) by (cases rounds) auto
  obtain q1 c where t: "TryTake q = (q1, c)" by (cases "TryTake q")
  obtain q2 ls2 where r2: "run_round weigh round (q1, ls) = (q2, ls2)" by (cases "run_round weigh round (q1, ls)")
  have "\<exists>s'. take_loop weigh ctx (Suc look) rest (q2, ls2) = Some s'"
    using Suc.IH [of "Suc look" rest q2 ls2] Suc.prems rounds by auto
  then show ?case using t r2 rounds by (subst take_loop.simps) (auto simp: Let_def split: option.splits wake.splits)
qed

section \<open>Properties\<close>

lemma blocking_Put_cases:
  assumes "blocking_Put weigh context v rounds s = Some (s', n, res)"
  obtains (refused) e where "s' = s" "res = Inl e"
  | (acquire) ctx w s1 rest reg e where "put_acquire weigh ctx w 0 rounds False s = Some (s1, n, rest, reg, Inl e)"
      "s' = deferred_clear reg False s1" "res = Inl e"
  | (entry) ctx w s1 look rest reg r s2 reg2 entry2 where "put_acquire weigh ctx w 0 rounds False s = Some (s1, look, rest, reg, Inr r)"
      "put_entry weigh ctx v r look rest reg False s1 = Some (s2, n, reg2, entry2, res)" "s' = deferred_clear reg2 entry2 s2"
  using assms by (auto simp: blocking_Put_def split: option.splits if_splits sum.splits prod.splits)

lemma deferred_orderly: "orderly weigh (deferred_clear reg entry s) = orderly weigh s"
    "queue_values (fst (deferred_clear reg entry s)) = queue_values (fst s)"
  using same_books_orderly [OF deferred_clear_same(1) [of "fst s" reg entry "snd s"]] deferred_clear_same(2) [of reg entry "fst s" "snd s"]
  by (metis prod.collapse)+

lemma blocking_Put_ok:
  assumes "orderly weigh s" "blocking_Put weigh context v rounds s = Some (s', n, res)"
  shows "orderly weigh s' \<and> (res = Inr () \<longrightarrow> (\<exists>vs. queue_values (fst s') = vs @ [v]))"
  using assms(2)
proof (cases rule: blocking_Put_cases)
  case (refused e)
  then show ?thesis using assms(1) by simp
next
  case (acquire ctx w s1 rest reg e)
  then have "orderly weigh s1" using put_acquire_ok [of weigh "fst s" "snd s" ctx w 0 rounds False "fst s1" "snd s1"] assms(1) by simp
  then show ?thesis using acquire by (simp add: deferred_orderly)
next
  case (entry ctx w s1 look rest reg r s2 reg2 entry2)
  then have "orderly weigh (fst s1, r # snd s1)"
    using put_acquire_ok [of weigh "fst s" "snd s" ctx w 0 rounds False "fst s1" "snd s1"] assms(1) by simp
  then show ?thesis using put_entry_ok [of weigh "fst s1" r "snd s1" ctx v look rest reg False "fst s2" "snd s2"] entry
    by (simp add: deferred_orderly)
qed

text \<open>C26: However the other goroutines interleave, a blocking Put that returns leaves the queue consistent and its byte
budget balanced: every live permit pays for an entry, an open reservation or a lease someone else holds, so the permit
Put acquired is in the queue with the value, as its last entry, or has been given back. Put neither leaks bytes on any of
its error paths nor touches a lease of another.\<close>
theorem blocking_put_balanced:
  assumes "orderly weigh s" "blocking_Put weigh context v rounds s = Some (s', n, res)"
  shows "orderly weigh s' \<and> (res = Inr () \<longrightarrow> (\<exists>vs. queue_values (fst s') = vs @ [v]))"
  by (rule blocking_Put_ok [OF assms])

text \<open>C27: A blocking Put leaves no waiter behind: with nobody registered before, nobody is registered after it returns,
on every path, so the next producer can wait.\<close>
theorem put_leaves_no_waiter:
  assumes "registered_as False False (fst s)" "blocking_Put weigh context v rounds s = Some (s', n, res)"
  shows "registered_as False False (fst s')"
  using assms(2)
proof (cases rule: blocking_Put_cases)
  case (refused e)
  then show ?thesis using assms(1) by simp
next
  case (acquire ctx w s1 rest reg e)
  then have "registered_as reg False (fst s1)"
    using put_acquire_waiters [of False "fst s" weigh ctx w 0 rounds "snd s" "fst s1" "snd s1"] assms(1) by simp
  then show ?thesis using acquire(2) clears [of reg False "fst s1" "snd s1"] by simp
next
  case (entry ctx w s1 look rest reg r s2 reg2 entry2)
  then have "registered_as reg False (fst s1)"
    using put_acquire_waiters [of False "fst s" weigh ctx w 0 rounds "snd s" "fst s1" "snd s1"] assms(1) by simp
  then have "registered_as reg2 entry2 (fst s2)"
    using put_entry_waiters [of reg False "fst s1" weigh ctx v r look rest "snd s1" "fst s2" "snd s2"] entry(2) by simp
  then show ?thesis using entry(3) clears [of reg2 entry2 "fst s2" "snd s2"] by simp
qed

lemma new_orderly:
  assumes "newByteBudget i c = Inr b" "newBoundedQueue n b = Inr q"
  shows "orderly weigh (q, [])"
proof -
  have q: "wf_queue weigh q" "contents q = []" "q_budget q = b"
    using newByteBudget_wf [OF assms(1)] newBoundedQueue_wf [OF _ assms(2), of weigh] by auto
  moreover have "q_handles q = []" "live b = Map.empty"
    using assms by (auto simp: newBoundedQueue_def newByteBudget_def live_def owns_ref_def fun_eq_iff split: if_splits)
  ultimately show ?thesis
    by (simp add: orderly_def system_ok_def balanced_def held_def entry_permits_def active_permits_def map_filter_simps del: contents_Nil)
qed

text \<open>A queue of two entries and a hundred bytes that holds 90, a producer of 30 and a consumer that takes the 90 and
gives its bytes back during the first wait.\<close>

definition busy_queue :: "int bqueue" where
  "busy_queue = fst (TryPut Some sample_queue 90)"

theorem put_leaves_no_waiter_witness:
  "\<exists>s' n. blocking_Put Some (Some (\<lambda>_. None)) 70 [Round [] WakeSignal, Round [] WakeStopped] (busy_queue, []) = Some (s', n, Inl (WaitQueue QueueStopped))
     \<and> registered_as False False (fst s')"
proof -
  have r: "registered_as False False busy_queue" by code_simp
  have "case blocking_Put Some (Some (\<lambda>_. None)) 70 [Round [] WakeSignal, Round [] WakeStopped] (busy_queue, []) of
      Some (s', n, res) \<Rightarrow> n = 2 \<and> res = Inl (WaitQueue QueueStopped) | None \<Rightarrow> False" by code_simp
  then obtain s' where s': "blocking_Put Some (Some (\<lambda>_. None)) 70 [Round [] WakeSignal, Round [] WakeStopped] (busy_queue, [])
      = Some (s', 2, Inl (WaitQueue QueueStopped))" by (auto split: option.splits)
  with put_leaves_no_waiter [OF _ s'] r show ?thesis by auto
qed

lemma sample_orderly: "orderly Some (sample_queue, [])"
proof -
  obtain b where "newByteBudget 0 100 = Inr b" "newBoundedQueue 2 b = Inr sample_queue"
    by (simp add: sample_queue_def newByteBudget_def newBoundedQueue_def)
  then show ?thesis by (rule new_orderly)
qed

lemma busy_orderly: "orderly Some (busy_queue, [])"
  using step_orderly [OF sample_orderly, of "OpPut 90"] by (simp add: busy_queue_def)

theorem blocking_put_balanced_witness:
  "\<exists>s'. blocking_Put Some (Some (\<lambda>_. None)) 30 [Round [OpTake, OpDone 0] WakeSignal] (busy_queue, []) = Some (s', 3, Inr ())
     \<and> orderly Some s' \<and> (\<exists>vs. queue_values (fst s') = vs @ [30])"
proof -
  have "case blocking_Put Some (Some (\<lambda>_. None)) 30 [Round [OpTake, OpDone 0] WakeSignal] (busy_queue, []) of
      Some (s', n, res) \<Rightarrow> n = 3 \<and> res = Inr () | None \<Rightarrow> False" by code_simp
  then obtain s' where s': "blocking_Put Some (Some (\<lambda>_. None)) 30 [Round [OpTake, OpDone 0] WakeSignal] (busy_queue, []) = Some (s', 3, Inr ())"
    by (auto split: option.splits)
  with blocking_put_balanced [OF busy_orderly s'] show ?thesis by blast
qed

text \<open>C28: A blocking Take that returns an entry hands over a value together with a live permit charged with exactly its weight,
which joins the outstanding leases; it reports a stopped queue only when the queue is stopped and empty, so nothing that was
accepted is lost by closing. The books stay balanced in every case.\<close>
theorem blocking_take_owns_lease:
  assumes "orderly weigh s" "blocking_Take weigh (Some ctx) rounds s = Some (s', n, res)"
  shows "orderly weigh s' \<and> take_result weigh s' res"
  using assms take_loop_ok [of weigh "fst s" "snd s" ctx 0 rounds s' n res] by (simp add: blocking_Take_def)

theorem blocking_take_owns_lease_witness:
  "\<exists>s'. blocking_Take Some (Some (\<lambda>_. None)) [Round [OpPut 70, OpClose] WakeStopped] (sample_queue, []) = Some (s', 2, Inr (Cell 70 (PermitRef 0 0)))
     \<and> orderly Some s' \<and> take_result Some s' (Inr (Cell 70 (PermitRef 0 0)))"
proof -
  have "case blocking_Take Some (Some (\<lambda>_. None)) [Round [OpPut 70, OpClose] WakeStopped] (sample_queue, []) of
      Some (s', n, res) \<Rightarrow> n = 2 \<and> res = Inr (Cell 70 (PermitRef 0 0)) | None \<Rightarrow> False" by code_simp
  then obtain s' where s': "blocking_Take Some (Some (\<lambda>_. None)) [Round [OpPut 70, OpClose] WakeStopped] (sample_queue, [])
      = Some (s', 2, Inr (Cell 70 (PermitRef 0 0)))" by (auto split: option.splits)
  with blocking_take_owns_lease [OF sample_orderly s'] show ?thesis by blast
qed

text \<open>C29: A wait does not outlive its context: if the context shows an error at look k, then Put and Take have returned after at
most k wake-ups, whatever the other goroutines did in between.\<close>
theorem cancelled_wait_returns:
  assumes "ctx k \<noteq> None" "k \<le> length rounds"
  shows "blocking_Put weigh (Some ctx) v rounds s \<noteq> None \<and> blocking_Take weigh (Some ctx) rounds s \<noteq> None"
proof
  obtain q ls where s: "s = (q, ls)" by (cases s)
  show "blocking_Put weigh (Some ctx) v rounds s \<noteq> None"
  proof (cases "weigh v")
    case (Some w)
    obtain s' n rest reg res where a: "put_acquire weigh ctx w 0 rounds False (q, ls) = Some (s', n, rest, reg, res)"
      "\<forall>r. res = Inr r \<longrightarrow> n \<le> k \<and> n + length rest = Suc (length rounds)"
      using put_acquire_ends [of ctx 0 k rounds weigh w False q ls] assms by auto
    show ?thesis
    proof (cases res)
      case (Inr r)
      then have "n + (k - n) = k" "k - n \<le> length rest" using a(2) assms(2) by auto
      then show ?thesis
        using put_entry_ends [of ctx n "k - n" rest weigh v r reg False "fst s'" "snd s'"] assms(1) a(1) s Some Inr
        by (auto simp: blocking_Put_def)
    qed (use a s Some in \<open>simp add: blocking_Put_def\<close>)
  qed (simp add: blocking_Put_def)
  show "blocking_Take weigh (Some ctx) rounds s \<noteq> None"
    using take_loop_ends [of ctx 0 k rounds weigh q ls] assms s by (auto simp: blocking_Take_def)
qed

theorem cancelled_wait_returns_witness:
  "blocking_Put Some (Some (\<lambda>n. if n = 0 then None else Some ContextCanceled)) 30 [Round [] WakeSignal] (busy_queue, []) \<noteq> None"
  using cancelled_wait_returns [of "\<lambda>n. if n = 0 then None else Some ContextCanceled" 1 "[Round [] WakeSignal]" Some 30 "(busy_queue, [])"]
  by simp

text \<open>With a context that shows no error, Put does exactly what TryPut does whenever TryPut accepts the value: it does not
wait, whatever the schedule offers and whether or not another producer waits, and leaves the same queue.\<close>
theorem put_without_waiting:
  assumes "ctx 0 = None" "ctx 1 = None" "TryPut weigh q v = (q', None)"
  shows "blocking_Put weigh (Some ctx) v rounds (q, ls) = Some ((q', ls), 2, Inr ())"
proof -
  obtain w b r where w: "\<not> q_stopped q" "weigh v = Some w" "0 < w" "tryAcquire (q_budget q) w = (b, Inr r)"
    "putReserved weigh (q\<lparr>q_budget := b\<rparr>) v (Some r) = (q', None)"
    using assms(3) by (auto simp: TryPut_def tryReserve_def split: if_splits option.splits sum.splits prod.splits)
  then have "w \<le> bud_capacity (q_budget q)" by (auto simp: tryAcquire_def split: if_splits)
  moreover have "put_acquire weigh ctx w 0 rounds False (q, ls) = Some ((q\<lparr>q_budget := b\<rparr>, ls), 1, rounds, False, Inr r)"
    using w assms(1) by (subst put_acquire.simps) simp
  moreover have "put_entry weigh ctx v r 1 rounds False False (q\<lparr>q_budget := b\<rparr>, ls) = Some ((q', ls), 2, False, False, Inr ())"
    using w(5) assms(2) by (subst put_entry.simps) simp
  ultimately show ?thesis using w by (simp add: blocking_Put_def deferred_clear_def)
qed

theorem put_without_waiting_witness:
  "blocking_Put Some (Some (\<lambda>_. None)) 30 [] (sample_queue, []) = Some ((fst (TryPut Some sample_queue 30), []), 2, Inr ())"
proof -
  have "snd (TryPut Some sample_queue 30) = None" by code_simp
  then have "TryPut Some sample_queue 30 = (fst (TryPut Some sample_queue 30), None)" by (simp add: prod_eq_iff)
  from put_without_waiting [OF _ _ this, of "\<lambda>_. None"] show ?thesis by simp
qed

end
