(* ===== verification/Writer.thy ===== *)
theory Writer
  imports Decisions Waiting
begin

text \<open>
  The writer of the service (\<open>internal/service/writer.go\<close>): the retention of a batch, its commit, the prune of the chats it
  touched, the announcement of the committed messages, the results it reports and the batches it collects from its two
  queues. The store and the policy are those of theory \<open>Decisions\<close>; a theorem that speaks of the writer alone is proved
  in the contract of the store, and for the in-memory store by the interpretation.
\<close>

section \<open>A bounded batch\<close>

definition remember_chat :: "chat_id list \<Rightarrow> chat_id \<Rightarrow> chat_id list" where
  "remember_chat chats c = (if \<exists>k \<in> set chats. chat_id_value k = chat_id_value c then chats else chats @ [c])"

text \<open>The decisions on the messages of a batch. An error leaves with the number of messages discarded so far.\<close>

fun decide_batch :: "('s, 'e) message_store \<Rightarrow> retention_policy \<Rightarrow> int \<Rightarrow> 8 word \<Rightarrow> 's environment \<Rightarrow> message list
    \<Rightarrow> message list \<Rightarrow> chat_id list \<Rightarrow> int \<Rightarrow> 's world \<Rightarrow> 's world \<times> (int \<times> 'e task_error + message list \<times> chat_id list \<times> int)" where
  "decide_batch ms rp limit origin env [] retained chats discarded w = (w, Inr (retained, chats, discarded))"
| "decide_batch ms rp limit origin env (m # rest) retained chats discarded w =
     (case look_context env w of
        (w1, Some c) \<Rightarrow> (w1, Inl (discarded, TaskContext c))
      | (w1, None) \<Rightarrow>
          case decide_message ms rp (Some limit) origin env m w1 of
            (w2, Inl e) \<Rightarrow> (w2, Inl (discarded, e))
          | (w2, Inr d) \<Rightarrow>
              case downstream d m of
                None \<Rightarrow> (w2, Inl (discarded, TaskQueue QueueInvariant))
              | Some kept \<Rightarrow>
                  decide_batch ms rp limit origin env rest
                    (case kept of None \<Rightarrow> retained | Some n \<Rightarrow> retained @ [n])
                    (remember_chat chats (msg_chatID m))
                    (case kept of None \<Rightarrow> discarded + 1 | Some _ \<Rightarrow> discarded) w2)"

definition write_retained :: "('s, 'e) message_store \<Rightarrow> 8 word \<Rightarrow> 's environment \<Rightarrow> message list
    \<Rightarrow> 's world \<Rightarrow> 's world \<times> ('e task_error + live_event list)" where
  "write_retained ms origin env retained w =
     (if retained = [] then (w, Inr [])
      else
        case NewWriteBatch origin retained of
          Inl e \<Rightarrow> (w, Inl (TaskModel e))
        | Inr filtered \<Rightarrow>
            if origin = WriteRealtime
            then (case ticked env (\<lambda>c. ms_WriteRealtime ms (seen c) filtered) w of
                (w1, Inl e) \<Rightarrow> (w1, Inl (TaskStore e)) | (w1, Inr committed) \<Rightarrow> (w1, Inr committed))
            else (case ticked env (\<lambda>c. ms_Write ms (seen c) filtered) w of
                (w1, Some e) \<Rightarrow> (w1, Inl (TaskStore e)) | (w1, None) \<Rightarrow> (w1, Inr [])))"

definition prune_chat :: "('s, 'e) message_store \<Rightarrow> retention_policy \<Rightarrow> int \<Rightarrow> 8 word \<Rightarrow> 's environment \<Rightarrow> chat_id
    \<Rightarrow> 's world \<Rightarrow> 's world \<times> 'e task_error option" where
  "prune_chat ms rp limit origin env cid w =
     (case look_context env w of
        (w1, Some c) \<Rightarrow> (w1, Some (TaskContext c))
      | (w1, None) \<Rightarrow>
          case take_snapshot ms env cid w1 of
            (w2, Inl e) \<Rightarrow> (w2, Some (TaskStore e))
          | (w2, Inr p) \<Rightarrow>
              if over_limit (Some limit) p then (w2, Some (TaskQueue QueueInvariant))
              else
                case take_usage ms env w2 of
                  (w3, Inl e) \<Rightarrow> (w3, Some (TaskStore e))
                | (w3, Inr u) \<Rightarrow>
                    (case read_clock env w3 of
                       (w4, now) \<Rightarrow>
                         (case rp_PlanPrune rp p \<lparr>rst_Now = now, rst_NewerBodies = 0, rst_Usage = u, rst_Origin = origin\<rparr> of
                            Inl e \<Rightarrow> (w4, Some (TaskModel e))
                          | Inr plan \<Rightarrow>
                              (case ticked env (\<lambda>c. ms_ApplyPrune ms (seen c) plan) w4 of
                                 (w5, Inl e) \<Rightarrow> (w5, Some (TaskStore e))
                               | (w5, Inr r) \<Rightarrow> (w5, None)))))"

fun prune_chats :: "('s, 'e) message_store \<Rightarrow> retention_policy \<Rightarrow> int \<Rightarrow> 8 word \<Rightarrow> 's environment \<Rightarrow> chat_id list
    \<Rightarrow> 's world \<Rightarrow> 's world \<times> 'e task_error option" where
  "prune_chats ms rp limit origin env [] w = (w, None)"
| "prune_chats ms rp limit origin env (cid # cids) w =
     (case prune_chat ms rp limit origin env cid w of
        (w1, Some e) \<Rightarrow> (w1, Some e)
      | (w1, None) \<Rightarrow> prune_chats ms rp limit origin env cids w1)"

text \<open>The five results of \<open>applyBoundedBatch\<close>.\<close>

record 'e batch_outcome =
  bo_Written :: int
  bo_Discarded :: int
  bo_Committed :: "live_event list"
  bo_Succeeded :: bool
  bo_Error :: "'e task_error option"

definition applyBoundedBatch :: "('s, 'e) message_store \<Rightarrow> retention_policy \<Rightarrow> int \<Rightarrow> write_batch \<Rightarrow> 's environment
    \<Rightarrow> 's world \<Rightarrow> 's world \<times> 'e batch_outcome" where
  "applyBoundedBatch ms rp limit b env w =
     (case decide_batch ms rp limit (batch_origin b) env (batch_messages b) [] [] 0 w of
        (w1, Inl (discarded, e)) \<Rightarrow>
          (w1, \<lparr>bo_Written = 0, bo_Discarded = discarded, bo_Committed = [], bo_Succeeded = False, bo_Error = Some e\<rparr>)
      | (w1, Inr (retained, chats, discarded)) \<Rightarrow>
          (case write_retained ms (batch_origin b) env retained w1 of
             (w2, Inl e) \<Rightarrow>
               (w2, \<lparr>bo_Written = 0, bo_Discarded = discarded, bo_Committed = [], bo_Succeeded = False, bo_Error = Some e\<rparr>)
           | (w2, Inr committed) \<Rightarrow>
               (case prune_chats ms rp limit (batch_origin b) env chats w2 of
                  (w3, err) \<Rightarrow>
                    (w3, \<lparr>bo_Written = len retained, bo_Discarded = discarded, bo_Committed = committed,
                       bo_Succeeded = (retained \<noteq> []), bo_Error = err\<rparr>))))"

section \<open>What a batch does to the stored messages\<close>

text \<open>The other goroutines keep the store in order and do not write messages: the writer is the only one who does.\<close>

definition fair :: "('s \<Rightarrow> bool) \<Rightarrow> ('s \<Rightarrow> message_view) \<Rightarrow> 's environment \<Rightarrow> bool" where
  "fair ok msgs env \<longleftrightarrow> (\<forall>t s. ok s \<longrightarrow> ok (env_others env t s) \<and> msgs (env_others env t s) = msgs s)"

text \<open>Realtime retention keeps a body that is recent enough and not behind enough newer ones; the rest loses its body.\<close>

definition retains :: "policy \<Rightarrow> instant \<Rightarrow> message_view \<Rightarrow> message \<Rightarrow> bool" where
  "retains q now V m \<longleftrightarrow> now - pol_maxAge q \<le> msg_sentAt m
     \<and> int (card {n \<in> ran (V (chat_key m)). msg_bodyRetained n \<and> store_newer n m}) < pol_messagesPerChat q"

definition retained_form :: "policy \<Rightarrow> 8 word \<Rightarrow> 's environment \<Rightarrow> message_view \<Rightarrow> message \<Rightarrow> message \<Rightarrow> bool" where
  "retained_form q origin env V m n \<longleftrightarrow>
     (\<exists>t. n = (if retains q (env_now env t) V m then m else message_WithoutBody m)
        \<or> origin = WriteHistory \<and> n = message_WithoutBody m)"

definition pruned_at :: "policy \<Rightarrow> instant \<Rightarrow> string \<Rightarrow> message_view \<Rightarrow> message_view" where
  "pruned_at q now ck V = V(ck := V ck |` retained_keys q now (V ck))"

text \<open>The chats of a batch, in the order of their first messages, and the view with some chats pruned one after the other.\<close>

definition touched :: "message list \<Rightarrow> chat_id list \<Rightarrow> chat_id list" where
  "touched ms chats = fold (\<lambda>m cs. remember_chat cs (msg_chatID m)) ms chats"

fun prune_all :: "policy \<Rightarrow> (instant \<times> string) list \<Rightarrow> message_view \<Rightarrow> message_view" where
  "prune_all q [] V = V"
| "prune_all q ((now, ck) # rest) V = prune_all q rest (pruned_at q now ck V)"

lemma remember_chat_facts:
  "distinct (map chat_id_value chats) \<Longrightarrow> distinct (map chat_id_value (remember_chat chats c))"
  "set chats \<subseteq> set (remember_chat chats c)" "set (remember_chat chats c) \<subseteq> insert c (set chats)"
  "\<exists>k \<in> set (remember_chat chats c). chat_id_value k = chat_id_value c"
  by (auto simp: remember_chat_def)

lemma touched_distinct: "distinct (map chat_id_value chats) \<Longrightarrow> distinct (map chat_id_value (touched ms chats))"
  unfolding touched_def by (induction ms arbitrary: chats) (simp_all add: remember_chat_facts(1))

lemma touched_set: "set (touched ms chats) \<subseteq> set chats \<union> msg_chatID ` set ms"
  unfolding touched_def
proof (induction ms arbitrary: chats)
  case (Cons m ms)
  then show ?case using remember_chat_facts(3) [of chats "msg_chatID m"] by fastforce
qed simp

lemma touched_keeps: "set chats \<subseteq> set (touched ms chats)"
  unfolding touched_def
proof (induction ms arbitrary: chats)
  case (Cons m ms)
  then show ?case using remember_chat_facts(2) [of chats "msg_chatID m"] by fastforce
qed simp

lemma touched_covers: "m \<in> set ms \<Longrightarrow> \<exists>cid \<in> set (touched ms chats). chat_id_value cid = chat_key m"
proof (induction ms arbitrary: chats)
  case (Cons n ms)
  show ?case
  proof (cases "m = n")
    case True
    then show ?thesis using remember_chat_facts(4) [of chats "msg_chatID m"] touched_keeps [of "remember_chat chats (msg_chatID n)" ms]
      by (auto simp: touched_def)
  next
    case False
    then show ?thesis using Cons.IH [of "remember_chat chats (msg_chatID n)"] Cons.prems by (simp add: touched_def)
  qed
qed simp

lemma ticked_pair: "ticked env call w = (w', r) \<longleftrightarrow>
    (\<exists>s. call (env_ctx env (w_tick w)) (env_others env (w_tick w) (w_store w)) = (s, r) \<and> w' = \<lparr>w_tick = Suc (w_tick w), w_store = s\<rparr>)"
  by (auto simp: ticked_def split: prod.splits)

text \<open>
  What a batch makes of the messages \<open>V0\<close>. A batch that failed before its commit leaves them alone. One that committed has
  applied every message, in order and with or without its body as the policy decided, announced the new ones if it was a
  realtime batch, and pruned its chats in the order of their first messages: all of them, or up to the error.
\<close>

definition batch_effect :: "policy \<Rightarrow> write_batch \<Rightarrow> 's environment \<Rightarrow> message_view \<Rightarrow> 'e batch_outcome \<Rightarrow> message_view \<Rightarrow> bool" where
  "batch_effect q b env V0 out V' \<longleftrightarrow>
     (if \<not> bo_Succeeded out then V' = V0 \<and> bo_Error out \<noteq> None \<and> bo_Written out = 0 \<and> bo_Committed out = []
      else \<exists>kept V nows. list_all2 (retained_form q (batch_origin b) env V0) (batch_messages b) kept
        \<and> apply_messages V0 kept = Some V \<and> bo_Written out = len (batch_messages b) \<and> bo_Discarded out = 0
        \<and> map (\<lambda>e. place (live_message e)) (bo_Committed out)
            = (if batch_origin b = WriteRealtime then map place (newly_inserted V0 kept) else [])
        \<and> set nows \<subseteq> range (env_now env) \<and> length nows \<le> length (touched (batch_messages b) [])
        \<and> (bo_Error out = None \<longrightarrow> length nows = length (touched (batch_messages b) []))
        \<and> V' = prune_all q (zip nows (map chat_id_value (touched (batch_messages b) []))) (cleared V))"

context message_store_contract begin

abbreviation steady :: "'s world \<Rightarrow> 's world \<Rightarrow> bool" where
  "steady w w' \<equiv> ok (w_store w') \<and> msgs (w_store w') = msgs (w_store w)"

lemma quiet_steps:
  assumes "fair ok msgs env" "ok (w_store w)"
  shows "look_context env w = (w', c) \<Longrightarrow> steady w w'" "read_clock env w = (w', now) \<Longrightarrow> steady w w' \<and> now = env_now env (w_tick w)"
    "take_snapshot ms env cid w = (w', p) \<Longrightarrow> steady w w' \<and> p = ms_RetentionSnapshot ms (seen (env_ctx env (w_tick w))) cid (w_store w')"
    "take_usage ms env w = (w', u) \<Longrightarrow> steady w w'"
  using assms by (auto simp: look_context_def read_clock_def take_snapshot_def take_usage_def ticked_pair fair_def)

lemma decide_message_ok:
  assumes env: "fair ok msgs env" and ok: "ok (w_store w)" and m: "wf_message m"
    and dec: "decide_message ms (real_policy q) limit origin env m w = (w', res)"
  shows "steady w w' \<and> (\<forall>d. res = Inr d \<longrightarrow> (\<exists>t n. downstream d m = Some (Some n) \<and> retained_form q origin env (msgs (w_store w)) m n))"
proof -
  obtain w1 p where snap: "take_snapshot ms env (msg_chatID m) w = (w1, p)" by (cases "take_snapshot ms env (msg_chatID m) w")
  have s1: "steady w w1" and snapped: "p = ms_RetentionSnapshot ms (seen (env_ctx env (w_tick w))) (msg_chatID m) (w_store w1)"
    using quiet_steps(3) [OF env ok snap] by simp_all
  have ok1: "ok (w_store w1)" using s1 by simp
  show ?thesis
  proof (cases "\<exists>p'. p = Inr p' \<and> \<not> over_limit limit p'")
    case False
    then show ?thesis using dec snap s1 by (auto simp: decide_message_def split: sum.splits)
  next
    case True
    then obtain p' where p': "p = Inr p'" "\<not> over_limit limit p'" by blast
    obtain w2 u where use: "take_usage ms env w1 = (w2, u)" by (cases "take_usage ms env w1")
    note s2 = quiet_steps(4) [OF env ok1 use]
    have ok2: "ok (w_store w2)" using s2 by simp
    show ?thesis
    proof (cases u)
      case (Inl e)
      then show ?thesis using dec snap s1 use s2 p' by (auto simp: decide_message_def)
    next
      case (Inr u')
      obtain w3 now where clock: "read_clock env w2 = (w3, now)" by (cases "read_clock env w2")
      note s3 = quiet_steps(2) [OF env ok2 clock]
      let ?st = "\<lparr>rst_Now = now, rst_NewerBodies = countNewerBodies p' m, rst_Usage = u', rst_Origin = origin\<rparr>"
      have w': "w' = w3" and res: "res = (case policy_Decide (Some q) m ?st of Inl e \<Rightarrow> Inl (TaskModel e) | Inr d \<Rightarrow> Inr d)"
        using dec snap use clock p' Inr by (simp_all add: decide_message_def real_policy_def)
      have count: "countNewerBodies p' m = int (card {n \<in> ran (msgs (w_store w1) (chat_key m)). msg_bodyRetained n \<and> store_newer n m})"
        using snapshot_counts [OF ok1 m] snapped p' by metis
      have form: "\<exists>n. downstream d m = Some (Some n) \<and> retained_form q origin env (msgs (w_store w)) m n"
        if d: "policy_Decide (Some q) m ?st = Inr d" for d
      proof -
        have "d = \<lparr>dec_action = KeepBody, dec_reason = RetentionEligible\<rparr> \<and> retains q now (msgs (w_store w)) m
          \<or> dec_action d = KeepMetadata \<and> (\<not> retains q now (msgs (w_store w)) m \<or> origin = WriteHistory)"
          using d count s1 by (auto simp: policy_Decide_def Let_def retains_def NewRetentionDecision_def
              validateRetentionAction_def validateRetentionReason_def split: if_splits option.splits)
        then show ?thesis using s3 by (auto simp: downstream_def retained_form_def KeepBody_def KeepMetadata_def)
      qed
      then show ?thesis using s1 s2 s3 unfolding w' res by (auto split: sum.splits)
    qed
  qed
qed

lemma decide_batch_ok:
  assumes env: "fair ok msgs env"
  shows "ok (w_store w) \<Longrightarrow> \<forall>m \<in> set rest. wf_message m \<Longrightarrow>
    decide_batch ms (real_policy q) limit origin env rest retained chats discarded w = (w', res) \<Longrightarrow>
    steady w w' \<and> (\<forall>r c d. res = Inr (r, c, d) \<longrightarrow> d = discarded \<and> c = touched rest chats
      \<and> (\<exists>kept. r = retained @ kept \<and> list_all2 (retained_form q origin env (msgs (w_store w))) rest kept))"
proof (induction rest arbitrary: retained chats w)
  case Nil
  then show ?case by (auto simp: touched_def)
next
  case (Cons m rest)
  obtain w1 c where look: "look_context env w = (w1, c)" by (cases "look_context env w")
  have s1: "steady w w1" by (rule quiet_steps(1) [OF env Cons.prems(1) look])
  then have ok1: "ok (w_store w1)" by simp
  obtain w2 d where dec: "decide_message ms (real_policy q) (Some limit) origin env m w1 = (w2, d)"
    by (cases "decide_message ms (real_policy q) (Some limit) origin env m w1")
  have m: "wf_message m" using Cons.prems(2) by simp
  note s2 = decide_message_ok [OF env ok1 m dec]
  have ok2: "ok (w_store w2)" "msgs (w_store w2) = msgs (w_store w)" using s1 s2 by simp_all
  show ?case
  proof (cases "\<exists>d'. c = None \<and> d = Inr d'")
    case False
    then show ?thesis using Cons.prems(3) look dec s1 s2 by (cases c; cases d) auto
  next
    case True
    then obtain d' n where d: "c = None" "d = Inr d'" "downstream d' m = Some (Some n)"
      "retained_form q origin env (msgs (w_store w)) m n" using s1 s2 by auto
    then have "decide_batch ms (real_policy q) limit origin env rest (retained @ [n]) (remember_chat chats (msg_chatID m)) discarded w2 = (w', res)"
      using Cons.prems(3) look dec by simp
    from Cons.IH [OF ok2(1) _ this] have IH: "steady w2 w'" "\<forall>r c d. res = Inr (r, c, d) \<longrightarrow> d = discarded
        \<and> c = touched rest (remember_chat chats (msg_chatID m))
        \<and> (\<exists>kept. r = (retained @ [n]) @ kept \<and> list_all2 (retained_form q origin env (msgs (w_store w2))) rest kept)"
      using Cons.prems(2) by simp_all
    have "\<exists>kept. r = retained @ kept \<and> list_all2 (retained_form q origin env (msgs (w_store w))) (m # rest) kept"
      if "res = Inr (r, c, d)" for r c d
    proof -
      obtain kept where "r = (retained @ [n]) @ kept" "list_all2 (retained_form q origin env (msgs (w_store w2))) rest kept"
        using IH(2) \<open>res = Inr (r, c, d)\<close> by blast
      then show ?thesis using d(4) ok2(2) by (intro exI [of _ "n # kept"]) simp
    qed
    then show ?thesis using IH ok2 by (auto simp: touched_def)
  qed
qed

lemma retained_form_wf: "retained_form q origin env V m n \<Longrightarrow> wf_message m \<Longrightarrow> wf_message n"
  by (auto simp: retained_form_def wf_updates)

lemma retained_forms_wf: "list_all2 (retained_form q origin env V) ms' kept \<Longrightarrow> \<forall>m \<in> set ms'. wf_message m \<Longrightarrow> \<forall>n \<in> set kept. wf_message n"
  by (induction rule: list_all2_induct) (auto dest: retained_form_wf)

lemma write_retained_ok:
  assumes env: "fair ok msgs env" and ok: "ok (w_store w)" and kept: "\<forall>m \<in> set kept. wf_message m" "kept \<noteq> []"
    "len kept \<le> MaxWriteBatchMessages" "validateWriteOrigin origin = None"
    and written: "write_retained ms origin env kept w = (w', res)"
  shows "(\<forall>e. res = Inl e \<longrightarrow> steady w w')
    \<and> (\<forall>events. res = Inr events \<longrightarrow> ok (w_store w')
        \<and> (\<exists>V. apply_messages (msgs (w_store w)) kept = Some V \<and> msgs (w_store w') = cleared V)
        \<and> map (\<lambda>e. place (live_message e)) events
            = (if origin = WriteRealtime then map place (newly_inserted (msgs (w_store w)) kept) else []))"
proof -
  let ?b = "\<lparr>batch_origin = origin, batch_messages = kept, batch_byteSize = records_charge writeBatchRecordBytes (message_charges kept)\<rparr>"
  let ?s = "env_others env (w_tick w) (w_store w)" and ?c = "seen (env_ctx env (w_tick w))"
  have built: "NewWriteBatch origin kept = Inr ?b" by (rule NewWriteBatch_wf [OF kept(1,3,4)])
  have b: "wf_batch ?b" "batch_messages ?b \<noteq> []" "batch_messages ?b = kept" using kept by (simp_all add: wf_batch_def)
  have s: "ok ?s" "msgs ?s = msgs (w_store w)" using env ok by (simp_all add: fair_def)
  show ?thesis
  proof (cases "origin = WriteRealtime")
    case True
    obtain s' r where call: "ms_WriteRealtime ms ?c ?b ?s = (s', r)" by (cases "ms_WriteRealtime ms ?c ?b ?s")
    then have w': "w' = \<lparr>w_tick = Suc (w_tick w), w_store = s'\<rparr>" "res = (case r of Inl e \<Rightarrow> Inl (TaskStore e) | Inr ev \<Rightarrow> Inr ev)"
      using written kept(2) built True by (auto simp: write_retained_def ticked_def split: sum.splits)
    show ?thesis
    proof (cases r)
      case (Inl e)
      then show ?thesis using failed_writes(2) call s w' by fastforce
    next
      case (Inr ev)
      then show ?thesis using realtime_commits [OF s(1) b(1,2)] call s(2) w' b(3) True by fastforce
    qed
  next
    case False
    obtain s' r where call: "ms_Write ms ?c ?b ?s = (s', r)" by (cases "ms_Write ms ?c ?b ?s")
    then have w': "w' = \<lparr>w_tick = Suc (w_tick w), w_store = s'\<rparr>" "res = (case r of Some e \<Rightarrow> Inl (TaskStore e) | None \<Rightarrow> Inr [])"
      using written kept(2) built False by (auto simp: write_retained_def ticked_def split: option.splits)
    show ?thesis
    proof (cases r)
      case (Some e)
      then show ?thesis using failed_writes(1) call s w' by fastforce
    next
      case None
      then show ?thesis using write_commits [OF s(1) b(1,2)] call s(2) w' b(3) False by fastforce
    qed
  qed
qed

lemma prune_chat_ok:
  assumes env: "fair ok msgs env" and ok: "ok (w_store w)" and cid: "valid_identifier (chat_id_value cid)" and q: "wf_policy q"
    and pruned: "prune_chat ms (real_policy q) limit origin env cid w = (w', err)"
  shows "ok (w_store w') \<and> (err \<noteq> None \<longrightarrow> msgs (w_store w') = msgs (w_store w))
    \<and> (err = None \<longrightarrow> (\<exists>now. now \<in> range (env_now env) \<and> msgs (w_store w') = pruned_at q now (chat_id_value cid) (msgs (w_store w))
        \<and> int (card (dom (msgs (w_store w') (chat_id_value cid)))) \<le> pol_messagesPerChat q))"
proof -
  obtain w1 c where look: "look_context env w = (w1, c)" by (cases "look_context env w")
  have s1: "steady w w1" by (rule quiet_steps(1) [OF env ok look])
  obtain w2 p where snap: "take_snapshot ms env cid w1 = (w2, p)" by (cases "take_snapshot ms env cid w1")
  have s2: "steady w1 w2" and snapped: "p = ms_RetentionSnapshot ms (seen (env_ctx env (w_tick w1))) cid (w_store w2)"
    using quiet_steps(3) [OF env _ snap] s1 by simp_all
  obtain w3 u where use: "take_usage ms env w2 = (w3, u)" by (cases "take_usage ms env w2")
  have s3: "steady w2 w3" using quiet_steps(4) [OF env _ use] s2 by simp
  obtain w4 now where clock: "read_clock env w3 = (w4, now)" by (cases "read_clock env w3")
  have s4: "steady w3 w4" "now \<in> range (env_now env)" using quiet_steps(2) [OF env _ clock] s3 by simp_all
  note steady = s1 s2 s3 s4(1)
  show ?thesis
  proof (cases "\<exists>p' u' plan. c = None \<and> p = Inr p' \<and> \<not> over_limit (Some limit) p' \<and> u = Inr u' \<and>
      policy_PlanPrune (Some q) p' \<lparr>rst_Now = now, rst_NewerBodies = 0, rst_Usage = u', rst_Origin = origin\<rparr> = Inr plan")
    case False
    have err: "err \<noteq> None \<and> w' \<in> {w1, w2, w3, w4}"
      using pruned look snap use clock False
      by (auto simp: prune_chat_def real_policy_def split: option.splits sum.splits if_splits)
    then show ?thesis using steady by auto
  next
    case True
    then obtain p' u' plan where t: "c = None" "p = Inr p'" "\<not> over_limit (Some limit) p'" "u = Inr u'"
      "policy_PlanPrune (Some q) p' \<lparr>rst_Now = now, rst_NewerBodies = 0, rst_Usage = u', rst_Origin = origin\<rparr> = Inr plan" by blast
    let ?ck = "chat_id_value cid" and ?s = "env_others env (w_tick w4) (w_store w4)" and ?c = "seen (env_ctx env (w_tick w4))"
    have ok2: "ok (w_store w2)" using steady by simp
    have plan: "wf_plan plan" "plan_chatID plan = cid" "msgs (w_store w2) ?ck |` (- listed plan)
        = msgs (w_store w2) ?ck |` retained_keys q now (msgs (w_store w2) ?ck)"
      using snapshot_plans [OF ok2 cid q _ t(5)] snapped t(2) by auto
    have s5: "ok ?s" "msgs ?s = msgs (w_store w)" using env steady by (simp_all add: fair_def)
    have w2: "msgs (w_store w2) = msgs (w_store w)" using steady by simp
    obtain s' r where call: "ms_ApplyPrune ms ?c plan ?s = (s', r)" by (cases "ms_ApplyPrune ms ?c plan ?s")
    then have w': "w' = \<lparr>w_tick = Suc (w_tick w4), w_store = s'\<rparr>" "err = (case r of Inl e \<Rightarrow> Some (TaskStore e) | Inr _ \<Rightarrow> None)"
      using pruned look snap use clock t by (auto simp: prune_chat_def real_policy_def ticked_def split: sum.splits)
    show ?thesis
    proof (cases r)
      case (Inl e)
      then show ?thesis using failed_prune [OF s5(1) plan(1)] call s5 w' by fastforce
    next
      case (Inr _)
      then have "ok s'" and "msgs s' = (msgs ?s)(?ck := msgs ?s ?ck |` (- listed plan))"
        using prune_applies [OF s5(1) plan(1)] call plan(2) by simp_all
      then have after: "msgs s' = pruned_at q now ?ck (msgs (w_store w))" using plan(3) s5(2) w2 by (simp add: pruned_at_def)
      have "int (card (dom (msgs s' ?ck))) \<le> pol_messagesPerChat q"
        using pruned_size [OF ok2 q, of ?ck now] w2 by (simp add: after pruned_at_def)
      then show ?thesis using \<open>ok s'\<close> after s4(2) w' Inr by auto
    qed
  qed
qed

lemma prune_chats_ok:
  assumes env: "fair ok msgs env" and q: "wf_policy q"
  shows "ok (w_store w) \<Longrightarrow> \<forall>cid \<in> set cids. valid_identifier (chat_id_value cid) \<Longrightarrow> distinct (map chat_id_value cids) \<Longrightarrow>
    prune_chats ms (real_policy q) limit origin env cids w = (w', err) \<Longrightarrow>
    ok (w_store w') \<and> (\<exists>nows. set nows \<subseteq> range (env_now env) \<and> length nows \<le> length cids \<and> (err = None \<longrightarrow> length nows = length cids)
        \<and> msgs (w_store w') = prune_all q (zip nows (map chat_id_value cids)) (msgs (w_store w)))
    \<and> (err = None \<longrightarrow> (\<forall>cid \<in> set cids. int (card (dom (msgs (w_store w') (chat_id_value cid)))) \<le> pol_messagesPerChat q))
    \<and> (\<forall>ck. ck \<notin> chat_id_value ` set cids \<longrightarrow> msgs (w_store w') ck = msgs (w_store w) ck)"
proof (induction cids arbitrary: w)
  case Nil
  then show ?case by (auto intro!: exI [of _ "[]"])
next
  case (Cons cid cids)
  obtain w1 e1 where one: "prune_chat ms (real_policy q) limit origin env cid w = (w1, e1)"
    by (cases "prune_chat ms (real_policy q) limit origin env cid w")
  have cid: "valid_identifier (chat_id_value cid)" using Cons.prems(2) by simp
  note first = prune_chat_ok [OF env Cons.prems(1) cid q one]
  show ?case
  proof (cases e1)
    case (Some e)
    then show ?thesis using Cons.prems(4) one first by (auto intro!: exI [of _ "[]"])
  next
    case None
    then obtain now where now: "now \<in> range (env_now env)" "msgs (w_store w1) = pruned_at q now (chat_id_value cid) (msgs (w_store w))"
      "int (card (dom (msgs (w_store w1) (chat_id_value cid)))) \<le> pol_messagesPerChat q" using first by blast
    have rest: "prune_chats ms (real_policy q) limit origin env cids w1 = (w', err)" using Cons.prems(4) one None by simp
    have "ok (w_store w1)" using first by blast
    from Cons.IH [OF this _ _ rest] Cons.prems(2,3) obtain nows where IH: "ok (w_store w')" "set nows \<subseteq> range (env_now env)"
      "length nows \<le> length cids" "err = None \<longrightarrow> length nows = length cids"
      "msgs (w_store w') = prune_all q (zip nows (map chat_id_value cids)) (msgs (w_store w1))"
      "err = None \<longrightarrow> (\<forall>cid \<in> set cids. int (card (dom (msgs (w_store w') (chat_id_value cid)))) \<le> pol_messagesPerChat q)"
      "\<forall>ck. ck \<notin> chat_id_value ` set cids \<longrightarrow> msgs (w_store w') ck = msgs (w_store w1) ck" by auto
    have "chat_id_value cid \<notin> chat_id_value ` set cids" using Cons.prems(3) by auto
    then have "msgs (w_store w') (chat_id_value cid) = msgs (w_store w1) (chat_id_value cid)" using IH(7) by blast
    moreover have "msgs (w_store w1) ck = msgs (w_store w) ck" if "ck \<noteq> chat_id_value cid" for ck
      using that now(2) by (simp add: pruned_at_def)
    ultimately show ?thesis using IH now
      by (intro conjI exI [of _ "now # nows"]) auto
  qed
qed

lemma applyBoundedBatch_ok:
  assumes env: "fair ok msgs env" and ok: "ok (w_store w)" and b: "wf_batch b" "batch_messages b \<noteq> []" and q: "wf_policy q"
    and batch: "applyBoundedBatch ms (real_policy q) limit b env w = (w', out)"
  shows "ok (w_store w') \<and> batch_effect q b env (msgs (w_store w)) out (msgs (w_store w'))
    \<and> (bo_Error out = None \<longrightarrow> (\<forall>m \<in> set (batch_messages b). int (card (dom (msgs (w_store w') (chat_key m)))) \<le> pol_messagesPerChat q))"
proof -
  let ?ms = "batch_messages b" and ?V = "msgs (w_store w)"
  have bm: "\<forall>m \<in> set ?ms. wf_message m" "len ?ms \<le> MaxWriteBatchMessages" "validateWriteOrigin (batch_origin b) = None"
    using b(1) by (simp_all add: wf_batch_def)
  obtain w1 r1 where dec: "decide_batch ms (real_policy q) limit (batch_origin b) env ?ms [] [] 0 w = (w1, r1)"
    by (cases "decide_batch ms (real_policy q) limit (batch_origin b) env ?ms [] [] 0 w")
  note s1 = decide_batch_ok [OF env ok bm(1) dec]
  have ok1: "ok (w_store w1)" "msgs (w_store w1) = ?V" using s1 by simp_all
  show ?thesis
  proof (cases r1)
    case (Inl e)
    then show ?thesis using batch dec ok1 by (cases e) (auto simp: applyBoundedBatch_def batch_effect_def)
  next
    case (Inr r)
    then obtain kept where kept: "r = (kept, touched ?ms [], 0)" "list_all2 (retained_form q (batch_origin b) env ?V) ?ms kept"
      using s1 by (cases r) auto
    have len: "length kept = length ?ms" using kept(2) by (simp add: list_all2_lengthD)
    then have kept_ok: "\<forall>m \<in> set kept. wf_message m" "kept \<noteq> []" "len kept \<le> MaxWriteBatchMessages"
      using retained_forms_wf [OF kept(2) bm(1)] bm(2) b(2) by auto
    obtain w2 r2 where wr: "write_retained ms (batch_origin b) env kept w1 = (w2, r2)"
      by (cases "write_retained ms (batch_origin b) env kept w1")
    note s2 = write_retained_ok [OF env ok1(1) kept_ok bm(3) wr]
    show ?thesis
    proof (cases r2)
      case (Inl e)
      then show ?thesis using batch dec \<open>r1 = Inr r\<close> kept(1) wr s2 ok1 by (auto simp: applyBoundedBatch_def batch_effect_def)
    next
      case (Inr events)
      then obtain V where V: "ok (w_store w2)" "apply_messages ?V kept = Some V" "msgs (w_store w2) = cleared V"
        "map (\<lambda>e. place (live_message e)) events = (if batch_origin b = WriteRealtime then map place (newly_inserted ?V kept) else [])"
        using s2 ok1(2) by auto
      obtain w3 err where pr: "prune_chats ms (real_policy q) limit (batch_origin b) env (touched ?ms []) w2 = (w3, err)"
        by (cases "prune_chats ms (real_policy q) limit (batch_origin b) env (touched ?ms []) w2")
      have out: "w' = w3" "out = \<lparr>bo_Written = len kept, bo_Discarded = 0, bo_Committed = events, bo_Succeeded = True, bo_Error = err\<rparr>"
        using batch dec \<open>r1 = Inr r\<close> kept(1) wr Inr pr kept_ok(2) by (auto simp: applyBoundedBatch_def)
      have ids: "\<forall>cid \<in> set (touched ?ms []). valid_identifier (chat_id_value cid)"
        using touched_set [of ?ms "[]"] bm(1) by (auto simp: wf_message_def message_parts_ok_def)
      have dist: "distinct (map chat_id_value (touched ?ms []))" using touched_distinct [of "[]" ?ms] by simp
      from prune_chats_ok [OF env q V(1) ids dist pr] obtain nows where nows: "ok (w_store w3)" "set nows \<subseteq> range (env_now env)"
        "length nows \<le> length (touched ?ms [])" "err = None \<longrightarrow> length nows = length (touched ?ms [])"
        "msgs (w_store w3) = prune_all q (zip nows (map chat_id_value (touched ?ms []))) (msgs (w_store w2))"
        "err = None \<longrightarrow> (\<forall>cid \<in> set (touched ?ms []). int (card (dom (msgs (w_store w3) (chat_id_value cid)))) \<le> pol_messagesPerChat q)"
        by blast
      have "\<exists>cid \<in> set (touched ?ms []). chat_id_value cid = chat_key m" if "m \<in> set ?ms" for m
        using touched_covers [OF that] .
      then have "err = None \<longrightarrow> (\<forall>m \<in> set ?ms. int (card (dom (msgs (w_store w3) (chat_key m)))) \<le> pol_messagesPerChat q)"
        using nows(6) by metis
      moreover have "batch_effect q b env ?V out (msgs (w_store w'))"
        unfolding batch_effect_def out using kept(2) len V nows
        by (auto intro!: exI [of _ kept] exI [of _ V] exI [of _ nows])
      ultimately show ?thesis using nows(1) by (simp add: out)
    qed
  qed
qed

end

section \<open>A live writer\<close>

text \<open>Nothing stands in the way: the context is alive and the clock runs.\<close>

definition alive :: "'s environment \<Rightarrow> bool" where
  "alive env \<longleftrightarrow> (\<forall>t. env_ctx env t = None \<and> env_now env t \<noteq> 0)"

lemma card_insert_Suc: "card (insert x A) \<le> Suc (card A)"
  by (cases "finite A") (simp_all add: card_insert_if)

lemma apply_messages_size:
  "apply_messages V ns = Some V' \<Longrightarrow> card (dom (V' ck)) \<le> card (dom (V ck)) + length ns"
proof (induction ns arbitrary: V)
  case (Cons n ns)
  then obtain V1 where V1: "apply_message V n = Some V1" "apply_messages V1 ns = Some V'" by (auto split: bind_splits)
  obtain x where "V1 = put_view V x" using V1(1) by (auto simp: apply_message_def split: option.splits if_splits)
  then have "dom (V1 ck) = dom (V ck) \<or> dom (V1 ck) = insert (message_key x) (dom (V ck))" by (simp add: put_view_def)
  then have "card (dom (V1 ck)) \<le> Suc (card (dom (V ck)))" using card_insert_Suc by (metis le_SucI order_refl)
  then show ?case using Cons.IH [OF V1(2)] by simp
qed simp

lemma dom_cleared [simp]: "dom (cleared V ck) = dom (V ck)"
  by (auto simp: cleared_def)

context responsive_store begin

lemma decide_message_answers:
  assumes env: "fair ok msgs env" "alive env" and ok: "ok (w_store w)" and m: "wf_message m" and q: "wf_policy q"
    and origin: "origin = WriteRealtime \<or> origin = WriteHistory"
    and fits: "\<forall>n. limit = Some n \<longrightarrow> int (card (dom (msgs (w_store w) (chat_key m)))) \<le> n"
  shows "\<exists>w' d. decide_message ms (real_policy q) limit origin env m w = (w', Inr d)"
proof -
  have live: "seen (env_ctx env t) = LiveContext" for t using env(2) by (simp add: alive_def seen_def)
  have id: "valid_identifier (chat_key m)" "valid_identifier (message_key m)" "msg_sentAt m \<noteq> 0"
    using m by (simp_all add: wf_message_def message_parts_ok_def)
  obtain w1 p1 where snap: "take_snapshot ms env (msg_chatID m) w = (w1, p1)" by (cases "take_snapshot ms env (msg_chatID m) w")
  note s1 = quiet_steps(3) [OF env(1) ok snap]
  have ok1: "ok (w_store w1)" using s1 by simp
  obtain p where p: "p1 = Inr p" "wf_snapshot p" "len (snap_summaries p) = int (card (dom (msgs (w_store w1) (chat_key m))))"
    using snapshot_answers [OF ok1 id(1)] s1 by (auto simp: live)
  then have within: "\<not> over_limit limit p" using fits s1 by (auto simp: over_limit_def split: option.splits)
  obtain w2 u2 where use: "take_usage ms env w1 = (w2, u2)" by (cases "take_usage ms env w1")
  have "ok (env_others env (w_tick w1) (w_store w1))" using env(1) ok1 by (simp add: fair_def)
  then obtain u where u: "u2 = Inr u" "wf_usage u" using usage_answers use by (fastforce simp: take_usage_def ticked_pair live)
  obtain w3 now where clock: "read_clock env w2 = (w3, now)" by (cases "read_clock env w2")
  have now: "now \<noteq> 0" using clock env(2) by (auto simp: read_clock_def ticked_pair alive_def)
  let ?st = "\<lparr>rst_Now = now, rst_NewerBodies = countNewerBodies p m, rst_Usage = u, rst_Origin = origin\<rparr>"
  have "0 \<le> countNewerBodies p m" unfolding countNewerBodies_def count_newer by simp
  then have "wf_state ?st" using now u(2) origin by (simp add: wf_state_def)
  then obtain d where "policy_Decide (Some q) m ?st = Inr d" using decide_reasons [OF q _ id] by blast
  then show ?thesis using snap p(1) within use u(1) clock by (auto simp: decide_message_def real_policy_def)
qed

lemma decide_batch_answers:
  assumes env: "fair ok msgs env" "alive env" and q: "wf_policy q" and origin: "origin = WriteRealtime \<or> origin = WriteHistory"
  shows "ok (w_store w) \<Longrightarrow> \<forall>m \<in> set rest. wf_message m \<and> int (card (dom (msgs (w_store w) (chat_key m)))) \<le> limit \<Longrightarrow>
    \<exists>w' r. decide_batch ms (real_policy q) limit origin env rest retained chats discarded w = (w', Inr r)"
proof (induction rest arbitrary: retained chats discarded w)
  case (Cons m rest)
  obtain w1 c where look: "look_context env w = (w1, c)" by (cases "look_context env w")
  have s1: "steady w w1" by (rule quiet_steps(1) [OF env(1) Cons.prems(1) look])
  have c: "c = None" using look env(2) by (auto simp: look_context_def ticked_pair alive_def)
  have ok1: "ok (w_store w1)" and m: "wf_message m" "\<forall>n. Some limit = Some n \<longrightarrow> int (card (dom (msgs (w_store w1) (chat_key m)))) \<le> n"
    using s1 Cons.prems(2) by simp_all
  obtain w2 d where dec: "decide_message ms (real_policy q) (Some limit) origin env m w1 = (w2, Inr d)"
    using decide_message_answers [OF env ok1 m(1) q origin m(2)] by blast
  have s2: "steady w1 w2" and "\<exists>n. downstream d m = Some (Some n)" using decide_message_ok [OF env(1) ok1 m(1) dec] by auto
  then obtain n where n: "downstream d m = Some (Some n)" by blast
  have "ok (w_store w2)" "\<forall>m \<in> set rest. wf_message m \<and> int (card (dom (msgs (w_store w2) (chat_key m)))) \<le> limit"
    using s1 s2(1) Cons.prems(2) by simp_all
  from Cons.IH [OF this, of "retained @ [n]" "remember_chat chats (msg_chatID m)" discarded] show ?case
    using look c dec n by simp
qed simp

lemma prune_chat_answers:
  assumes env: "fair ok msgs env" "alive env" and ok: "ok (w_store w)" and cid: "valid_identifier (chat_id_value cid)" and q: "wf_policy q"
    and origin: "origin = WriteRealtime \<or> origin = WriteHistory"
    and fits: "int (card (dom (msgs (w_store w) (chat_id_value cid)))) \<le> limit"
  shows "\<exists>w'. prune_chat ms (real_policy q) limit origin env cid w = (w', None)"
proof -
  have live: "seen (env_ctx env t) = LiveContext" for t using env(2) by (simp add: alive_def seen_def)
  obtain w1 c where look: "look_context env w = (w1, c)" by (cases "look_context env w")
  have s1: "steady w w1" by (rule quiet_steps(1) [OF env(1) ok look])
  have c: "c = None" using look env(2) by (auto simp: look_context_def ticked_pair alive_def)
  obtain w2 p2 where snap: "take_snapshot ms env cid w1 = (w2, p2)" by (cases "take_snapshot ms env cid w1")
  have s2: "steady w1 w2" and snapped: "p2 = ms_RetentionSnapshot ms LiveContext cid (w_store w2)"
    using quiet_steps(3) [OF env(1) _ snap] s1 by (simp_all add: live)
  have ok2: "ok (w_store w2)" using s2 by simp
  obtain p where p: "p2 = Inr p" "len (snap_summaries p) = int (card (dom (msgs (w_store w2) (chat_id_value cid))))"
    using snapshot_answers [OF ok2 cid] snapped by auto
  then have within: "\<not> over_limit (Some limit) p" using fits s1 s2 by (simp add: over_limit_def)
  obtain w3 u3 where use: "take_usage ms env w2 = (w3, u3)" by (cases "take_usage ms env w2")
  have s3: "steady w2 w3" using quiet_steps(4) [OF env(1) ok2 use] .
  have "ok (env_others env (w_tick w2) (w_store w2))" using env(1) ok2 by (simp add: fair_def)
  then obtain u where u: "u3 = Inr u" "wf_usage u" using usage_answers use by (fastforce simp: take_usage_def ticked_pair live)
  obtain w4 now where clock: "read_clock env w3 = (w4, now)" by (cases "read_clock env w3")
  have s4: "steady w3 w4" using quiet_steps(2) [OF env(1) _ clock] s3 by simp
  have now: "now \<noteq> 0" using clock env(2) by (auto simp: read_clock_def ticked_pair alive_def)
  let ?st = "\<lparr>rst_Now = now, rst_NewerBodies = 0, rst_Usage = u, rst_Origin = origin\<rparr>"
  have st: "wf_state ?st" using now u(2) origin by (simp add: wf_state_def)
  have taken: "ms_RetentionSnapshot ms LiveContext cid (w_store w2) = Inr p" using snapped p(1) by simp
  then obtain plan where plan: "policy_PlanPrune (Some q) p ?st = Inr plan" using plan_answers [OF ok2 cid q st] by blast
  then have wf: "wf_plan plan" using snapshot_plans [OF ok2 cid q taken] by blast
  have "ok (env_others env (w_tick w4) (w_store w4))" using env(1) s4 by (simp add: fair_def)
  then obtain s' r where "ms_ApplyPrune ms LiveContext plan (env_others env (w_tick w4) (w_store w4)) = (s', Inr r)"
    using prune_answers [OF _ wf] by blast
  then show ?thesis using look c snap p(1) within use u(1) clock plan
    by (simp add: prune_chat_def real_policy_def ticked_def live)
qed

lemma prune_chats_answers:
  assumes env: "fair ok msgs env" "alive env" and q: "wf_policy q" and origin: "origin = WriteRealtime \<or> origin = WriteHistory"
  shows "ok (w_store w) \<Longrightarrow> \<forall>cid \<in> set cids. valid_identifier (chat_id_value cid) \<Longrightarrow> distinct (map chat_id_value cids) \<Longrightarrow>
    \<forall>cid \<in> set cids. int (card (dom (msgs (w_store w) (chat_id_value cid)))) \<le> limit \<Longrightarrow>
    \<exists>w'. prune_chats ms (real_policy q) limit origin env cids w = (w', None)"
proof (induction cids arbitrary: w)
  case (Cons cid cids)
  have cid: "valid_identifier (chat_id_value cid)" "int (card (dom (msgs (w_store w) (chat_id_value cid)))) \<le> limit"
    using Cons.prems(2,4) by simp_all
  obtain w1 where one: "prune_chat ms (real_policy q) limit origin env cid w = (w1, None)"
    using prune_chat_answers [OF env Cons.prems(1) cid(1) q origin cid(2)] by blast
  from prune_chat_ok [OF env(1) Cons.prems(1) cid(1) q one] obtain now where
    s1: "ok (w_store w1)" "msgs (w_store w1) = pruned_at q now (chat_id_value cid) (msgs (w_store w))" by blast
  have "\<forall>k \<in> set cids. int (card (dom (msgs (w_store w1) (chat_id_value k)))) \<le> limit"
  proof
    fix k
    assume "k \<in> set cids"
    then have "chat_id_value k \<in> chat_id_value ` set cids" by (rule imageI)
    then have "chat_id_value k \<noteq> chat_id_value cid" using Cons.prems(3) by (metis distinct.simps(2) list.simps(9) list.set_map)
    moreover have "int (card (dom (msgs (w_store w) (chat_id_value k)))) \<le> limit" using \<open>k \<in> set cids\<close> Cons.prems(4) by simp
    ultimately show "int (card (dom (msgs (w_store w1) (chat_id_value k)))) \<le> limit" by (simp add: s1(2) pruned_at_def)
  qed
  from Cons.IH [OF s1(1) _ _ this] show ?case using Cons.prems(2,3) one by simp
qed simp

lemma live_batch:
  assumes env: "fair ok msgs env" "alive env" and ok: "ok (w_store w)" and b: "wf_batch b" "batch_messages b \<noteq> []" and q: "wf_policy q"
    and room: "\<forall>ck. int (card (dom (msgs (w_store w) ck))) + len (batch_messages b) \<le> limit"
    and batch: "applyBoundedBatch ms (real_policy q) limit b env w = (w', out)"
  shows "bo_Error out = None \<or> \<not> bo_Succeeded out \<and> (\<exists>e. bo_Error out = Some (TaskStore e))"
proof -
  let ?ms = "batch_messages b" and ?V = "msgs (w_store w)"
  have bm: "\<forall>m \<in> set ?ms. wf_message m" "len ?ms \<le> MaxWriteBatchMessages" "validateWriteOrigin (batch_origin b) = None"
    using b(1) by (simp_all add: wf_batch_def)
  have origin: "batch_origin b = WriteRealtime \<or> batch_origin b = WriteHistory"
    using bm(3) by (auto simp: validateWriteOrigin_def split: if_splits)
  have fits: "\<forall>m \<in> set ?ms. wf_message m \<and> int (card (dom (?V (chat_key m)))) \<le> limit"
  proof
    fix m
    assume "m \<in> set ?ms"
    moreover have "int (card (dom (?V (chat_key m)))) + len ?ms \<le> limit" using room by blast
    ultimately show "wf_message m \<and> int (card (dom (?V (chat_key m)))) \<le> limit" using bm(1) by (auto intro: order_trans [rotated])
  qed
  obtain w1 r1 where dec: "decide_batch ms (real_policy q) limit (batch_origin b) env ?ms [] [] 0 w = (w1, Inr r1)"
    using decide_batch_answers [OF env q origin ok fits] by blast
  note s1 = decide_batch_ok [OF env(1) ok bm(1) dec]
  have ok1: "ok (w_store w1)" "msgs (w_store w1) = ?V" using s1 by simp_all
  obtain kept where kept: "r1 = (kept, touched ?ms [], 0)" "list_all2 (retained_form q (batch_origin b) env ?V) ?ms kept"
    using s1 by (cases r1) auto
  have len: "length kept = length ?ms" using kept(2) by (simp add: list_all2_lengthD)
  then have kept_ok: "\<forall>m \<in> set kept. wf_message m" "kept \<noteq> []" "len kept \<le> MaxWriteBatchMessages"
    using retained_forms_wf [OF kept(2) bm(1)] bm(2) b(2) by auto
  obtain w2 r2 where wr: "write_retained ms (batch_origin b) env kept w1 = (w2, r2)"
    by (cases "write_retained ms (batch_origin b) env kept w1")
  show ?thesis
  proof (cases r2)
    case (Inl e)
    have "\<exists>e'. e = TaskStore e'"
      using wr Inl kept_ok(2) NewWriteBatch_wf [OF kept_ok(1,3) bm(3)]
      by (auto simp: write_retained_def split: if_splits sum.splits option.splits prod.splits)
    then show ?thesis using batch dec kept(1) wr Inl by (auto simp: applyBoundedBatch_def)
  next
    case (Inr events)
    then obtain V where V: "ok (w_store w2)" "apply_messages ?V kept = Some V" "msgs (w_store w2) = cleared V"
      using write_retained_ok [OF env(1) ok1(1) kept_ok bm(3) wr] ok1(2) by auto
    have ids: "\<forall>cid \<in> set (touched ?ms []). valid_identifier (chat_id_value cid)"
      using touched_set [of ?ms "[]"] bm(1) by (auto simp: wf_message_def message_parts_ok_def)
    have dist: "distinct (map chat_id_value (touched ?ms []))" using touched_distinct [of "[]" ?ms] by simp
    have "\<forall>cid \<in> set (touched ?ms []). int (card (dom (msgs (w_store w2) (chat_id_value cid)))) \<le> limit"
    proof
      fix cid
      have "int (card (dom (V (chat_id_value cid)))) \<le> int (card (dom (?V (chat_id_value cid)))) + len ?ms"
        using apply_messages_size [OF V(2), of "chat_id_value cid"] len by simp
      moreover have "int (card (dom (?V (chat_id_value cid)))) + len ?ms \<le> limit" using room by blast
      ultimately show "int (card (dom (msgs (w_store w2) (chat_id_value cid)))) \<le> limit" by (simp add: V(3))
    qed
    from prune_chats_answers [OF env q origin V(1) ids dist this]
    show ?thesis using batch dec kept(1) wr Inr by (auto simp: applyBoundedBatch_def)
  qed
qed

end

section \<open>Properties of a batch\<close>


lemma chat_key_WithoutBody [simp]: "chat_key (message_WithoutBody m) = chat_key m"
  by (simp add: message_WithoutBody_def Let_def)

lemma finite_view: "finite (dom (view mem ck))"
  by (simp add: view_def finite_dom_map_of split: option.split)

lemma chats_within:
  assumes wf: "wf_memory mem" and V: "apply_messages (view mem) kept = Some V" and kept: "\<forall>m \<in> set kept. wf_message m"
    and ck: "ck \<notin> chat_key ` set kept"
  shows "dom (V ck) = dom (view mem ck)"
proof -
  have new: "set (newly_inserted (view mem) kept) \<subseteq> set kept"
    by (auto simp: newly_inserted_def inserted_messages_def dest: set_zip_leftD)
  note ins = newly_inserted_places [OF view_wf_view [OF wf] kept V]
  then have "occupied V - occupied (view mem) = place ` set (newly_inserted (view mem) kept)" by simp
  also have "\<dots> \<subseteq> place ` set kept" by (rule image_mono [OF new])
  finally have "occupied V - occupied (view mem) \<subseteq> place ` set kept" .
  moreover have "occupied (view mem) \<subseteq> occupied V" using ins by simp
  ultimately have grows: "(ck, mk) \<in> occupied V \<longleftrightarrow> (ck, mk) \<in> occupied (view mem)" for mk
  proof -
    have "(ck, mk) \<notin> place ` set kept" using ck by auto
    then show ?thesis using \<open>occupied V - _ \<subseteq> _\<close> \<open>occupied (view mem) \<subseteq> occupied V\<close> by blast
  qed
  show ?thesis
  proof (rule set_eqI)
    fix mk
    show "mk \<in> dom (V ck) \<longleftrightarrow> mk \<in> dom (view mem ck)" using grows [of mk] by (simp add: occupied_def dom_def)
  qed
qed

lemma prune_all_dom: "dom (prune_all q ps V ck) \<subseteq> dom (V ck)"
proof (induction q ps V rule: prune_all.induct)
  case (2 q now k rest V)
  have "dom (pruned_at q now k V ck) \<subseteq> dom (V ck)" by (auto simp: pruned_at_def)
  then show ?case using 2 by simp
qed simp

text \<open>C31: A live writer keeps up: with every chat within the configured count and a snapshot limit of at least that count plus the
batch - the command configures exactly one more than that with the largest batch - the writer never trips over its own
limit. A batch either succeeds or is refused as a whole by the store, and afterwards every chat is within the count again.\<close>
theorem writer_keeps_up:
  assumes "fair wf_memory view env" "alive env" "wf_memory (w_store w)" "wf_batch b" "batch_messages b \<noteq> []" "wf_policy q"
    "\<forall>ck. int (card (dom (view (w_store w) ck))) \<le> pol_messagesPerChat q" "pol_messagesPerChat q + len (batch_messages b) \<le> limit"
    "applyBoundedBatch memory_store (real_policy q) limit b env w = (w', out)"
  shows "(bo_Error out = None \<or> view (w_store w') = view (w_store w) \<and> (\<exists>e. bo_Error out = Some (TaskStore e)))
    \<and> (\<forall>ck. int (card (dom (view (w_store w') ck))) \<le> pol_messagesPerChat q)"
proof -
  note exact = mem_store.applyBoundedBatch_ok [OF assms(1,3-6,9)]
  have "int (card (dom (view (w_store w) ck))) + len (batch_messages b) \<le> limit" for ck using assms(7,8) by (smt (verit))
  then have res: "bo_Error out = None \<or> \<not> bo_Succeeded out \<and> (\<exists>e. bo_Error out = Some (TaskStore e))"
    using mem_store.live_batch [OF assms(1-6) _ assms(9)] by blast
  have same: "view (w_store w') = view (w_store w)" if "\<not> bo_Succeeded out" using exact that by (simp add: batch_effect_def)
  have "int (card (dom (view (w_store w') ck))) \<le> pol_messagesPerChat q" for ck
  proof (cases "bo_Succeeded out")
    case False
    then show ?thesis using same assms(7) by simp
  next
    case True
    then have none: "bo_Error out = None" using res by blast
    show ?thesis
    proof (cases "ck \<in> chat_key ` set (batch_messages b)")
      case touched: True
      then show ?thesis using exact none by blast
    next
      case untouched: False
      obtain kept V ps where V: "list_all2 (retained_form q (batch_origin b) env (view (w_store w))) (batch_messages b) kept"
        "apply_messages (view (w_store w)) kept = Some V" "view (w_store w') = prune_all q ps (cleared V)"
        using exact True unfolding batch_effect_def by auto
      have bm: "\<forall>m \<in> set (batch_messages b). wf_message m" using assms(4) by (simp add: wf_batch_def)
      have "chat_key ` set kept \<subseteq> chat_key ` set (batch_messages b)"
        using V(1) by (induction rule: list_all2_induct) (auto simp: retained_form_def)
      then have "dom (V ck) = dom (view (w_store w) ck)"
        using chats_within [OF assms(3) V(2) mem_store.retained_forms_wf [OF V(1) bm]] untouched by blast
      then have dom: "dom (view (w_store w') ck) \<subseteq> dom (view (w_store w) ck)" using prune_all_dom [of q ps "cleared V" ck] V(3) by simp
      have "finite (dom (view (w_store w) ck))" by (rule finite_view)
      then have "card (dom (view (w_store w') ck)) \<le> card (dom (view (w_store w) ck))" using dom by (rule card_mono)
      then show ?thesis using assms(7) by (smt (verit) of_nat_mono)
    qed
  qed
  then show ?thesis using res same by blast
qed


text \<open>A quiet environment around the empty store.\<close>

definition quiet_env :: "memory environment" where
  "quiet_env = \<lparr>env_ctx = (\<lambda>_. None), env_now = (\<lambda>_. 10), env_others = (\<lambda>_ s. s)\<rparr>"

lemma quiet_env_ok: "fair wf_memory view quiet_env" "alive quiet_env"
  by (simp_all add: fair_def alive_def quiet_env_def)

lemma sample_batch_ne: "batch_messages sample_batch = [sample_message ''c'' ''m'' 5, sample_message ''c'' ''n'' 6]"
  by (simp add: sample_batch_def)


theorem writer_keeps_up_witness:
  "\<exists>w' out. applyBoundedBatch memory_store (real_policy sample_policy) 3 sample_batch quiet_env \<lparr>w_tick = 0, w_store = sample_store\<rparr> = (w', out)
     \<and> (\<forall>ck. int (card (dom (view (w_store w') ck))) \<le> 1)"
proof -
  let ?w = "\<lparr>w_tick = 0, w_store = sample_store\<rparr>"
  obtain w' out where run: "applyBoundedBatch memory_store (real_policy sample_policy) 3 sample_batch quiet_env ?w = (w', out)"
    by (cases "applyBoundedBatch memory_store (real_policy sample_policy) 3 sample_batch quiet_env ?w")
  from writer_keeps_up [OF quiet_env_ok _ sample_batch_wf _ samples_wf(1) _ _ run] run show ?thesis
    by (simp add: sample_store_wf(1) sample_batch_ne sample_view sample_policy_def)
qed

lemma filled_store:
  obtains mem where "wf_memory mem" "view mem ''c'' ''m'' \<noteq> None"
proof -
  obtain V where V: "apply_messages (view sample_store) (batch_messages sample_batch) = Some V"
    "fits sample_store (batch_messages sample_batch) V" using sample_applies by blast
  have ne: "batch_messages sample_batch \<noteq> []" by (simp add: sample_batch_ne)
  obtain mem ev where "write_post sample_store (batch_origin sample_batch = WriteRealtime) False (batch_messages sample_batch) V mem ev"
    using writeBatch_cases [OF sample_store_wf(1) sample_batch_wf ne, of False] V by auto
  then have post: "wf_memory mem" "view mem = cleared V" by (simp_all add: write_post_def Let_def)
  have "\<forall>m \<in> set (batch_messages sample_batch). wf_message m" using sample_batch_wf by (simp add: wf_batch_def)
  then have "\<forall>m \<in> set (batch_messages sample_batch). V (chat_key m) (message_key m) \<noteq> None"
    using apply_messages_places [OF view_wf_view [OF sample_store_wf(1)] _ V(1)] by fastforce
  then have "V ''c'' ''m'' \<noteq> None" by (simp add: sample_batch_ne)
  then show thesis using that post by (auto simp: cleared_def)
qed


end
