(* ===== verification/Transformer.thy ===== *)
theory Transformer
  imports Waiting
begin

text \<open>
  The history transformer of \<open>internal/service/history.go\<close> as a state machine. It receives history jobs from three channels of
  the source, keeps at most four of them, and turns the first active one - metadata before on-demand before bulk - into
  chunks for the history queue. Each job it receives must be handed back to the source exactly once. A step is one
  operation on a channel, one call of \<open>NextHistory\<close> with the \<open>Put\<close> of its chunk, or one step of the deferred function; the
  source sends and closes in between, and the other goroutines use the queue. \<open>tr_sent\<close> and \<open>tr_released\<close> record the jobs sent by
  the source and the calls of \<open>ReleaseHistory\<close>.
\<close>

section \<open>Jobs and slots\<close>

record job_state =
  js_job :: history_job
  js_active :: bool

datatype job_line = LineMetadata | LineOnDemand | LineBulk

fun line_class :: "job_line \<Rightarrow> 8 word" where
  "line_class LineMetadata = HistoryMetadata"
| "line_class LineOnDemand = HistoryOnDemand"
| "line_class LineBulk = HistoryBulk"

fun firstFree :: "job_state list \<Rightarrow> nat option" where
  "firstFree [] = None"
| "firstFree (s # ss) = (if \<not> js_active s then Some 0 else map_option Suc (firstFree ss))"

fun firstActive :: "job_state list \<Rightarrow> nat option" where
  "firstActive [] = None"
| "firstActive (s # ss) = (if js_active s then Some 0 else map_option Suc (firstActive ss))"

text \<open>Where the transformer stands; the deferred function empties one channel after the other.\<close>

datatype point = LoopTop | Draining job_line | Choosing | Selecting | Leaving job_line | Returned

datatype 'e feed_error = FeedWait wait_error | FeedSource 'e

record 'e transformer =
  tr_point :: point
  tr_slots :: "job_line \<Rightarrow> job_state list"
  tr_open :: "job_line \<Rightarrow> bool"
  tr_pending :: "job_line \<Rightarrow> history_job list"
  tr_closed :: "job_line \<Rightarrow> bool"
  tr_sent :: "history_job list"
  tr_released :: "history_job list"
  tr_queue :: "history_chunk queue_system"
  tr_result :: "'e feed_error option"

definition ReleaseHistory :: "history_job \<Rightarrow> 'e transformer \<Rightarrow> 'e transformer" where
  "ReleaseHistory job t = t\<lparr>tr_released := tr_released t @ [job]\<rparr>"

text \<open>\<open>ReleaseHistory\<close> of a slot's job, which becomes inactive.\<close>

definition release_slot :: "job_line \<Rightarrow> nat \<Rightarrow> 'e transformer \<Rightarrow> 'e transformer" where
  "release_slot l i t =
     (let t1 = ReleaseHistory (js_job (tr_slots t l ! i)) t
      in t1\<lparr>tr_slots := (tr_slots t1)(l := (tr_slots t1 l)[i := (tr_slots t1 l ! i)\<lparr>js_active := False\<rparr>])\<rparr>)"

definition releaseJobStates :: "job_line \<Rightarrow> 'e transformer \<Rightarrow> 'e transformer" where
  "releaseJobStates l t =
     fold (\<lambda>i t. if js_active (tr_slots t l ! i) then release_slot l i t else t) [0..<length (tr_slots t l)] t"

text \<open>The return of \<open>Run\<close>: the deferred function first releases the active jobs.\<close>

definition return_with :: "'e feed_error option \<Rightarrow> 'e transformer \<Rightarrow> 'e transformer" where
  "return_with e t =
     (releaseJobStates LineBulk (releaseJobStates LineOnDemand (releaseJobStates LineMetadata t)))
       \<lparr>tr_point := Leaving LineMetadata, tr_result := e\<rparr>"

definition admitHistoryJob :: "job_line \<Rightarrow> history_job \<Rightarrow> 'e transformer \<Rightarrow> 'e transformer \<times> service_error option" where
  "admitHistoryJob l job t =
     (if job_class job \<noteq> line_class l then (ReleaseHistory job t, Some QueueInvariant)
      else
        case firstFree (tr_slots t l) of
          None \<Rightarrow> (t, Some QueueInvariant)
        | Some i \<Rightarrow>
            (t\<lparr>tr_slots := (tr_slots t)(l := (tr_slots t l)[i := \<lparr>js_job = job, js_active = True\<rparr>])\<rparr>, None))"

datatype received = JobReceived history_job | ChannelClosed | ChannelEmpty

definition receive_job :: "job_line \<Rightarrow> 'e transformer \<Rightarrow> 'e transformer \<times> received" where
  "receive_job l t =
     (case tr_pending t l of
        job # rest \<Rightarrow> (t\<lparr>tr_pending := (tr_pending t)(l := rest)\<rparr>, JobReceived job)
      | [] \<Rightarrow> (t, if tr_closed t l then ChannelClosed else ChannelEmpty))"

definition admit_or_return :: "job_line \<Rightarrow> history_job \<Rightarrow> point \<Rightarrow> 'e transformer \<Rightarrow> 'e transformer" where
  "admit_or_return l job p t =
     (case admitHistoryJob l job t of
        (t', Some e) \<Rightarrow> return_with (Some (FeedWait (WaitQueue e))) t'
      | (t', None) \<Rightarrow> t'\<lparr>tr_point := p\<rparr>)"

section \<open>The loop\<close>

fun after_draining :: "job_line \<Rightarrow> point" where
  "after_draining LineMetadata = Draining LineOnDemand"
| "after_draining LineOnDemand = Draining LineBulk"
| "after_draining LineBulk = Choosing"

text \<open>One turn of the loop of \<open>drainJobChannel\<close>.\<close>

definition drainJobChannel :: "job_line \<Rightarrow> 'e transformer \<Rightarrow> 'e transformer" where
  "drainJobChannel l t =
     (if firstFree (tr_slots t l) = None \<or> \<not> tr_open t l then t\<lparr>tr_point := after_draining l\<rparr>
      else
        case receive_job l t of
          (t1, ChannelEmpty) \<Rightarrow> t1\<lparr>tr_point := after_draining l\<rparr>
        | (t1, ChannelClosed) \<Rightarrow> t1\<lparr>tr_open := (tr_open t1)(l := False), tr_point := after_draining l\<rparr>
        | (t1, JobReceived job) \<Rightarrow> admit_or_return l job (Draining l) t1)"

definition chosen_job :: "'e transformer \<Rightarrow> (job_line \<times> nat) option" where
  "chosen_job t =
     (case firstActive (tr_slots t LineMetadata) of
        Some i \<Rightarrow> Some (LineMetadata, i)
      | None \<Rightarrow>
          case firstActive (tr_slots t LineOnDemand) of
            Some i \<Rightarrow> Some (LineOnDemand, i)
          | None \<Rightarrow> map_option (Pair LineBulk) (firstActive (tr_slots t LineBulk)))"

text \<open>
  The work on the chosen job, given the answer of \<open>NextHistory\<close> - a chunk, perhaps empty, and whether the job is done - and
  the schedule of the \<open>Put\<close>. \<open>None\<close>: the \<open>Put\<close> is still waiting.
\<close>

definition work :: "'e + history_chunk \<times> bool \<Rightarrow> looks \<Rightarrow> history_chunk round list \<Rightarrow> job_line \<Rightarrow> nat \<Rightarrow> 'e transformer
    \<Rightarrow> 'e transformer option" where
  "work answer ctx rounds l i t =
     (let settle = (\<lambda>finished t. (if finished then release_slot l i t else t)\<lparr>tr_point := LoopTop\<rparr>) in
      case answer of
        Inl e \<Rightarrow> Some (return_with (Some (FeedSource e)) (release_slot l i t))
      | Inr (chunk, finished) \<Rightarrow>
          if chunk_messages chunk = [] \<and> \<not> finished
          then Some (return_with (Some (FeedWait (WaitQueue QueueInvariant))) (release_slot l i t))
          else if chunk_messages chunk \<noteq> [] then
            (case blocking_Put weighChunk (Some ctx) chunk rounds (tr_queue t) of
               None \<Rightarrow> None
             | Some (s, _, Inl e) \<Rightarrow> Some (return_with (Some (FeedWait e)) (t\<lparr>tr_queue := s\<rparr>))
             | Some (s, _, Inr _) \<Rightarrow> Some (settle finished (t\<lparr>tr_queue := s\<rparr>)))
          else Some (settle finished t))"

text \<open>With no active job: the end, or the \<open>select\<close> on the open channels.\<close>

definition idle :: "'e transformer \<Rightarrow> 'e transformer" where
  "idle t =
     (if \<not> tr_open t LineMetadata \<and> \<not> tr_open t LineOnDemand \<and> \<not> tr_open t LineBulk then return_with None t
      else t\<lparr>tr_point := Selecting\<rparr>)"

definition select_job :: "job_line \<Rightarrow> 'e transformer \<Rightarrow> 'e transformer option" where
  "select_job l t =
     (case receive_job l t of
        (t1, ChannelEmpty) \<Rightarrow> None
      | (t1, ChannelClosed) \<Rightarrow> Some (t1\<lparr>tr_open := (tr_open t1)(l := False), tr_point := LoopTop\<rparr>)
      | (t1, JobReceived job) \<Rightarrow> Some (admit_or_return l job LoopTop t1))"

fun after_leaving :: "job_line \<Rightarrow> 'e transformer \<Rightarrow> 'e transformer" where
  "after_leaving LineMetadata t = t\<lparr>tr_point := Leaving LineOnDemand\<rparr>"
| "after_leaving LineOnDemand t = t\<lparr>tr_point := Leaving LineBulk\<rparr>"
| "after_leaving LineBulk t = t\<lparr>tr_point := Returned, tr_queue := (queue_Close (fst (tr_queue t)), snd (tr_queue t))\<rparr>"

text \<open>One turn of the loop of \<open>drainHistoryJobs\<close>; the queue is closed after the last channel.\<close>

definition drainHistoryJobs :: "job_line \<Rightarrow> 'e transformer \<Rightarrow> 'e transformer" where
  "drainHistoryJobs l t =
     (if \<not> tr_open t l then after_leaving l t
      else
        case receive_job l t of
          (t1, JobReceived job) \<Rightarrow> ReleaseHistory job t1
        | (t1, _) \<Rightarrow> after_leaving l t1)"

definition send_job :: "job_line \<Rightarrow> history_job \<Rightarrow> 'e transformer \<Rightarrow> 'e transformer" where
  "send_job l job t = t\<lparr>tr_pending := (tr_pending t)(l := tr_pending t l @ [job]), tr_sent := tr_sent t @ [job]\<rparr>"

inductive transformer_step :: "'e transformer \<Rightarrow> 'e transformer \<Rightarrow> bool" where
  run_ended: "tr_point t = LoopTop \<Longrightarrow> transformer_step t (return_with (Some (FeedWait (WaitContext c))) t)"
| run_begin: "tr_point t = LoopTop \<Longrightarrow> transformer_step t (t\<lparr>tr_point := Draining LineMetadata\<rparr>)"
| run_drain: "tr_point t = Draining l \<Longrightarrow> transformer_step t (drainJobChannel l t)"
| run_work: "tr_point t = Choosing \<Longrightarrow> chosen_job t = Some (l, i) \<Longrightarrow> work answer ctx rounds l i t = Some t' \<Longrightarrow> transformer_step t t'"
| run_idle: "tr_point t = Choosing \<Longrightarrow> chosen_job t = None \<Longrightarrow> transformer_step t (idle t)"
| select_ended: "tr_point t = Selecting \<Longrightarrow> transformer_step t (return_with (Some (FeedWait (WaitContext c))) t)"
| select_received: "tr_point t = Selecting \<Longrightarrow> tr_open t l \<Longrightarrow> select_job l t = Some t' \<Longrightarrow> transformer_step t t'"
| run_leave: "tr_point t = Leaving l \<Longrightarrow> transformer_step t (drainHistoryJobs l t)"
| source_sends: "\<not> tr_closed t l \<Longrightarrow> transformer_step t (send_job l job t)"
| source_closes: "transformer_step t (t\<lparr>tr_closed := (tr_closed t)(l := True)\<rparr>)"
| others_use_queue: "transformer_step t (t\<lparr>tr_queue := queue_step weighChunk op (tr_queue t)\<rparr>)"

text \<open>The start; a nil channel is one that is closed and not read.\<close>

definition zero_job_slot :: job_state where
  "zero_job_slot = \<lparr>js_job = \<lparr>job_id = HistoryJobID '''', job_class = 0\<rparr>, js_active = False\<rparr>"

fun start_slots :: "job_line \<Rightarrow> job_state list" where
  "start_slots LineMetadata = [zero_job_slot, zero_job_slot]"
| "start_slots LineOnDemand = [zero_job_slot]"
| "start_slots LineBulk = [zero_job_slot]"

definition start_transformer :: "(job_line \<Rightarrow> bool) \<Rightarrow> history_chunk queue_system \<Rightarrow> 'e transformer" where
  "start_transformer channel s =
     \<lparr>tr_point = LoopTop, tr_slots = start_slots, tr_open = channel, tr_pending = (\<lambda>_. []), tr_closed = (\<lambda>l. \<not> channel l),
      tr_sent = [], tr_released = [], tr_queue = s, tr_result = None\<rparr>"

inductive reachable_transformer :: "'e transformer \<Rightarrow> 'e transformer \<Rightarrow> bool" for t0 where
  "reachable_transformer t0 t0"
| "reachable_transformer t0 t \<Longrightarrow> transformer_step t t' \<Longrightarrow> reachable_transformer t0 t'"

section \<open>The ledger of jobs\<close>

definition active_in :: "job_state list \<Rightarrow> history_job list" where
  "active_in ss = map js_job (filter js_active ss)"

definition active_jobs :: "'e transformer \<Rightarrow> history_job list" where
  "active_jobs t = active_in (tr_slots t LineMetadata) @ active_in (tr_slots t LineOnDemand) @ active_in (tr_slots t LineBulk)"

definition pending_jobs :: "'e transformer \<Rightarrow> history_job list" where
  "pending_jobs t = tr_pending t LineMetadata @ tr_pending t LineOnDemand @ tr_pending t LineBulk"

text \<open>Every job the source sent was handed back, or is in a slot, or is still in a channel; once each.\<close>

definition ledger :: "'e transformer \<Rightarrow> bool" where
  "ledger t \<longleftrightarrow> mset (tr_sent t) = mset (tr_released t) + mset (active_jobs t) + mset (pending_jobs t)"

definition slots_ok :: "'e transformer \<Rightarrow> bool" where
  "slots_ok t \<longleftrightarrow> (\<forall>l. tr_slots t l \<noteq> [] \<and> (\<forall>s \<in> set (tr_slots t l). js_active s \<longrightarrow> job_class (js_job s) = line_class l))"

definition channels_ok :: "'e transformer \<Rightarrow> bool" where
  "channels_ok t \<longleftrightarrow> (\<forall>l. \<not> tr_open t l \<longrightarrow> tr_closed t l \<and> tr_pending t l = [])"

definition leaving :: "'e transformer \<Rightarrow> bool" where
  "leaving t \<longleftrightarrow> tr_point t = Returned \<or> (\<exists>l. tr_point t = Leaving l)"

definition transformer_ok :: "'e transformer \<Rightarrow> bool" where
  "transformer_ok t \<longleftrightarrow> ledger t \<and> slots_ok t \<and> channels_ok t \<and> orderly weighChunk (tr_queue t)
     \<and> (tr_point t = Selecting \<or> leaving t \<longrightarrow> active_jobs t = [])
     \<and> (tr_point t = Returned \<longrightarrow> q_stopped (fst (tr_queue t)))
     \<and> (leaving t \<and> tr_result t = None \<longrightarrow> (\<forall>l. \<not> tr_open t l))"

lemma firstFree_facts:
  "firstFree ss = Some i \<Longrightarrow> i < length ss \<and> \<not> js_active (ss ! i)"
  "firstFree ss = None \<longleftrightarrow> (\<forall>s \<in> set ss. js_active s)"
  by (induction ss arbitrary: i) (auto split: if_splits)

lemma firstActive_facts:
  "firstActive ss = Some i \<Longrightarrow> i < length ss \<and> js_active (ss ! i)"
  "firstActive ss = None \<longleftrightarrow> (\<forall>s \<in> set ss. \<not> js_active s)"
  by (induction ss arbitrary: i) (auto split: if_splits)

lemma active_in_Nil: "active_in ss = [] \<longleftrightarrow> (\<forall>s \<in> set ss. \<not> js_active s)"
  by (simp add: active_in_def filter_empty_conv)

lemma active_in_update:
  assumes "i < length ss"
  shows "mset (active_in (ss[i := s])) + (if js_active (ss ! i) then {#js_job (ss ! i)#} else {#})
    = mset (active_in ss) + (if js_active s then {#js_job s#} else {#})"
proof -
  have "active_in ss = active_in (take i ss @ ss ! i # drop (Suc i) ss)" using id_take_nth_drop [OF assms] by simp
  then show ?thesis by (simp add: upd_conv_take_nth_drop [OF assms] active_in_def)
qed

text \<open>What changes when one line's slots change.\<close>

lemma active_jobs_line:
  "mset (active_jobs (t\<lparr>tr_slots := (tr_slots t)(l := ss)\<rparr>)) + mset (active_in (tr_slots t l)) = mset (active_jobs t) + mset (active_in ss)"
  by (cases l) (simp_all add: active_jobs_def)

lemma pending_jobs_line:
  "mset (pending_jobs (t\<lparr>tr_pending := (tr_pending t)(l := ps)\<rparr>)) + mset (tr_pending t l) = mset (pending_jobs t) + mset ps"
  by (cases l) (simp_all add: pending_jobs_def)

lemma jobs_update [simp]:
  "active_jobs (t\<lparr>tr_point := p\<rparr>) = active_jobs t" "active_jobs (t\<lparr>tr_released := rs\<rparr>) = active_jobs t"
  "active_jobs (t\<lparr>tr_pending := ps\<rparr>) = active_jobs t" "active_jobs (t\<lparr>tr_queue := s\<rparr>) = active_jobs t"
  "active_jobs (t\<lparr>tr_open := f\<rparr>) = active_jobs t" "active_jobs (t\<lparr>tr_result := e\<rparr>) = active_jobs t"
  "active_jobs (t\<lparr>tr_closed := f\<rparr>) = active_jobs t" "active_jobs (t\<lparr>tr_sent := js\<rparr>) = active_jobs t"
  "pending_jobs (t\<lparr>tr_point := p\<rparr>) = pending_jobs t" "pending_jobs (t\<lparr>tr_released := rs\<rparr>) = pending_jobs t"
  "pending_jobs (t\<lparr>tr_slots := ss\<rparr>) = pending_jobs t" "pending_jobs (t\<lparr>tr_queue := s\<rparr>) = pending_jobs t"
  "pending_jobs (t\<lparr>tr_open := f\<rparr>) = pending_jobs t" "pending_jobs (t\<lparr>tr_result := e\<rparr>) = pending_jobs t"
  "pending_jobs (t\<lparr>tr_closed := f\<rparr>) = pending_jobs t" "pending_jobs (t\<lparr>tr_sent := js\<rparr>) = pending_jobs t"
  by (simp_all add: active_jobs_def pending_jobs_def)

lemma releaseJobStates_eq:
  "releaseJobStates l t = t\<lparr>tr_released := tr_released t @ active_in (tr_slots t l),
     tr_slots := (tr_slots t)(l := map (\<lambda>s. s\<lparr>js_active := False\<rparr>) (tr_slots t l))\<rparr>"
proof -
  let ?ss = "tr_slots t l"
  have "fold (\<lambda>i t. if js_active (tr_slots t l ! i) then release_slot l i t else t) [0..<n] t
      = t\<lparr>tr_released := tr_released t @ active_in (take n ?ss),
         tr_slots := (tr_slots t)(l := map (\<lambda>s. s\<lparr>js_active := False\<rparr>) (take n ?ss) @ drop n ?ss)\<rparr>" if "n \<le> length ?ss" for n
    using that
  proof (induction n)
    case (Suc n)
    have drop: "drop n ?ss = ?ss ! n # drop (Suc n) ?ss" using Suc.prems by (simp add: Cons_nth_drop_Suc)
    have same: "\<not> js_active s \<Longrightarrow> s\<lparr>js_active := False\<rparr> = s" for s :: job_state by simp
    from Suc show ?case
      by (simp add: take_Suc_conv_app_nth drop nth_append list_update_append active_in_def release_slot_def ReleaseHistory_def same Let_def fun_upd_def cong: if_cong)
  qed (simp add: active_in_def)
  then show ?thesis by (simp add: releaseJobStates_def)
qed

lemma return_with_ok:
  assumes "ledger t" "slots_ok t" "channels_ok t" "orderly weighChunk (tr_queue t)" "e = None \<Longrightarrow> \<forall>l. \<not> tr_open t l"
  shows "transformer_ok (return_with e t)"
proof -
  let ?off = "map (\<lambda>s :: job_state. s\<lparr>js_active := False\<rparr>)"
  have r: "return_with e t = t\<lparr>tr_point := Leaving LineMetadata, tr_result := e, tr_released := tr_released t @ active_jobs t,
      tr_slots := (\<lambda>l. ?off (tr_slots t l))\<rparr>"
  proof -
    have all: "((tr_slots t)(LineMetadata := a, LineOnDemand := b, LineBulk := c)) = (\<lambda>l. case l of LineMetadata \<Rightarrow> a | LineOnDemand \<Rightarrow> b | LineBulk \<Rightarrow> c)"
      for a b c by (auto simp: fun_eq_iff split: job_line.split)
    have "(\<lambda>l. case l of LineMetadata \<Rightarrow> ?off (tr_slots t LineMetadata) | LineOnDemand \<Rightarrow> ?off (tr_slots t LineOnDemand)
        | LineBulk \<Rightarrow> ?off (tr_slots t LineBulk)) = (\<lambda>l. ?off (tr_slots t l))" by (auto simp: fun_eq_iff split: job_line.split)
    then show ?thesis by (simp add: return_with_def releaseJobStates_eq active_jobs_def all)
  qed
  have none: "active_in (?off ss) = []" for ss by (simp add: active_in_Nil)
  show ?thesis
    using assms by (auto simp: transformer_ok_def r ledger_def slots_ok_def channels_ok_def leaving_def active_jobs_def none pending_jobs_def)
qed

lemma queue_step_stays_stopped: "q_stopped (fst s) \<Longrightarrow> q_stopped (fst (queue_step weigh op s))"
proof -
  assume stopped: "q_stopped (fst s)"
  obtain q ls where s: "s = (q, ls)" by (cases s)
  show ?thesis
  proof (cases op)
    case OpTake
    then show ?thesis using stopped s by (auto simp: TryTake_def split: cell.split)
  qed (use stopped s in \<open>auto simp: TryPut_def tryReserveCapacity_def reservation_commit_def reservation_release_def queue_Close_def
      split: option.split sum.split prod.split\<close>)
qed

text \<open>A received job is admitted or handed back.\<close>

lemma admit_or_return_ok:
  assumes "mset (tr_sent t) = mset (tr_released t) + mset (active_jobs t) + mset (pending_jobs t) + {#job#}"
    "slots_ok t" "channels_ok t" "orderly weighChunk (tr_queue t)" "firstFree (tr_slots t l) \<noteq> None"
    "p \<noteq> Selecting" "p \<noteq> Returned" "\<And>l. p \<noteq> Leaving l"
  shows "transformer_ok (admit_or_return l job p t)"
proof (cases "job_class job = line_class l")
  case False
  then show ?thesis
    using assms by (auto simp: admit_or_return_def admitHistoryJob_def ReleaseHistory_def ledger_def slots_ok_def channels_ok_def
        intro!: return_with_ok)
next
  case True
  obtain i where i: "firstFree (tr_slots t l) = Some i" using assms(5) by blast
  let ?ss = "(tr_slots t l)[i := \<lparr>js_job = job, js_active = True\<rparr>]"
  note free = firstFree_facts(1) [OF i]
  have "mset (active_in ?ss) = mset (active_in (tr_slots t l)) + {#job#}"
    using active_in_update [of i "tr_slots t l" "\<lparr>js_job = job, js_active = True\<rparr>"] free by simp
  then have "mset (active_jobs (t\<lparr>tr_slots := (tr_slots t)(l := ?ss)\<rparr>)) = mset (active_jobs t) + {#job#}"
    using active_jobs_line [of t l ?ss] by simp
  moreover have "admit_or_return l job p t = t\<lparr>tr_slots := (tr_slots t)(l := ?ss)\<rparr>\<lparr>tr_point := p\<rparr>"
    by (simp add: admit_or_return_def admitHistoryJob_def True i)
  moreover have "slots_ok (t\<lparr>tr_slots := (tr_slots t)(l := ?ss)\<rparr>)"
    using assms(2) True by (auto simp: slots_ok_def dest!: set_update_subset_insert [THEN subsetD])
  ultimately show ?thesis
    using assms by (simp add: transformer_ok_def ledger_def slots_ok_def channels_ok_def leaving_def)
qed

lemma receive_cases:
  assumes "receive_job l t = (t1, r)"
  obtains (job) job rest where "r = JobReceived job" "tr_pending t l = job # rest" "t1 = t\<lparr>tr_pending := (tr_pending t)(l := rest)\<rparr>"
      "mset (pending_jobs t) = mset (pending_jobs t1) + {#job#}"
  | (quiet) "t1 = t" "tr_pending t l = []" "r = (if tr_closed t l then ChannelClosed else ChannelEmpty)"
proof (cases "tr_pending t l")
  case Nil
  then have "t1 = t" "r = (if tr_closed t l then ChannelClosed else ChannelEmpty)" using assms by (auto simp: receive_job_def)
  then show ?thesis using quiet Nil by blast
next
  case (Cons j rest)
  then have t1: "t1 = t\<lparr>tr_pending := (tr_pending t)(l := rest)\<rparr>" "r = JobReceived j" using assms by (simp_all add: receive_job_def)
  moreover have "mset (pending_jobs t) = mset (pending_jobs t1) + {#j#}"
    using pending_jobs_line [of t l rest] Cons t1(1) by simp
  ultimately show ?thesis using job Cons by blast
qed

lemma channels_received: "channels_ok t \<Longrightarrow> tr_open t l \<Longrightarrow> channels_ok (t\<lparr>tr_pending := (tr_pending t)(l := rest)\<rparr>)"
  by (auto simp: channels_ok_def)

lemma drainJobChannel_ok:
  assumes ok: "transformer_ok t" and point: "tr_point t = Draining l"
  shows "transformer_ok (drainJobChannel l t)"
proof -
  have parts: "ledger t" "slots_ok t" "channels_ok t" "orderly weighChunk (tr_queue t)" using ok by (simp_all add: transformer_ok_def)
  have on: "transformer_ok (t\<lparr>tr_point := after_draining l\<rparr>)"
    using parts by (cases l) (simp_all add: transformer_ok_def ledger_def slots_ok_def channels_ok_def leaving_def)
  show ?thesis
  proof (cases "firstFree (tr_slots t l) = None \<or> \<not> tr_open t l")
    case True
    then show ?thesis using on by (simp add: drainJobChannel_def)
  next
    case False
    obtain t1 r where rec: "receive_job l t = (t1, r)" by (cases "receive_job l t")
    then show ?thesis
    proof (cases rule: receive_cases)
      case (job j rest)
      have "transformer_ok (admit_or_return l j (Draining l) t1)"
        using parts job False channels_received [of t l rest]
        by (intro admit_or_return_ok) (auto simp: ledger_def slots_ok_def)
      then show ?thesis using rec job False by (auto simp: drainJobChannel_def)
    next
      case quiet
      have "transformer_ok (t\<lparr>tr_open := (tr_open t)(l := False), tr_point := after_draining l\<rparr>)" if "tr_closed t l"
        using parts quiet(2) that by (cases l) (auto simp: transformer_ok_def ledger_def slots_ok_def channels_ok_def leaving_def)
      then show ?thesis using rec quiet False on by (auto simp: drainJobChannel_def)
    qed
  qed
qed

lemma select_job_ok:
  assumes ok: "transformer_ok t" and point: "tr_point t = Selecting" "tr_open t l" and t': "select_job l t = Some t'"
  shows "transformer_ok t'"
proof -
  have parts: "ledger t" "slots_ok t" "channels_ok t" "orderly weighChunk (tr_queue t)" "active_jobs t = []"
    using ok point by (simp_all add: transformer_ok_def)
  have "active_in (tr_slots t l) = []" using parts(5) by (cases l) (simp_all add: active_jobs_def)
  then have free: "firstFree (tr_slots t l) \<noteq> None"
    using parts(2) firstFree_facts(2) [of "tr_slots t l"] by (auto simp: active_in_Nil slots_ok_def)
  obtain t1 r where rec: "receive_job l t = (t1, r)" by (cases "receive_job l t")
  then show ?thesis
  proof (cases rule: receive_cases)
    case (job j rest)
    have "transformer_ok (admit_or_return l j LoopTop t1)"
      using parts job free point channels_received [of t l rest] by (intro admit_or_return_ok) (auto simp: ledger_def slots_ok_def)
    then show ?thesis using rec job t' by (simp add: select_job_def)
  next
    case quiet
    have "transformer_ok (t\<lparr>tr_open := (tr_open t)(l := False), tr_point := LoopTop\<rparr>)" if "tr_closed t l"
      using parts quiet(2) that by (auto simp: transformer_ok_def ledger_def slots_ok_def channels_ok_def leaving_def)
    then show ?thesis using rec quiet t' by (auto simp: select_job_def split: if_splits)
  qed
qed

lemma release_slot_ok:
  assumes "ledger t" "slots_ok t" "i < length (tr_slots t l)" "js_active (tr_slots t l ! i)"
  shows "ledger (release_slot l i t)" "slots_ok (release_slot l i t)"
proof -
  let ?ss = "(tr_slots t l)[i := (tr_slots t l ! i)\<lparr>js_active := False\<rparr>]"
  have eq: "release_slot l i t = t\<lparr>tr_released := tr_released t @ [js_job (tr_slots t l ! i)], tr_slots := (tr_slots t)(l := ?ss)\<rparr>"
    by (simp add: release_slot_def ReleaseHistory_def Let_def)
  have "mset (active_in ?ss) + {#js_job (tr_slots t l ! i)#} = mset (active_in (tr_slots t l))"
    using active_in_update [OF assms(3), of "(tr_slots t l ! i)\<lparr>js_active := False\<rparr>"] assms(4) by simp
  then have "add_mset (js_job (tr_slots t l ! i)) (mset (active_jobs (t\<lparr>tr_slots := (tr_slots t)(l := ?ss)\<rparr>))) + mset (active_in ?ss)
      = mset (active_jobs t) + mset (active_in ?ss)"
    using active_jobs_line [of t l ?ss] by (simp flip: \<open>_ = mset (active_in (tr_slots t l))\<close>)
  then have less: "mset (active_jobs t) = add_mset (js_job (tr_slots t l ! i)) (mset (active_jobs (t\<lparr>tr_slots := (tr_slots t)(l := ?ss)\<rparr>)))"
    by (rule add_right_imp_eq [symmetric])
  have "active_jobs (release_slot l i t) = active_jobs (t\<lparr>tr_slots := (tr_slots t)(l := ?ss)\<rparr>)" by (simp add: eq active_jobs_def)
  then show "ledger (release_slot l i t)" using assms(1) by (simp add: ledger_def less) (simp add: eq)
  show "slots_ok (release_slot l i t)"
    using assms(2) by (auto simp: slots_ok_def eq dest!: set_update_subset_insert [THEN subsetD])
qed

lemma chosen_active:
  assumes "chosen_job t = Some (l, i)"
  shows "i < length (tr_slots t l) \<and> js_active (tr_slots t l ! i)"
  using assms firstActive_facts(1) by (auto simp: chosen_job_def split: option.splits)

lemma chosen_none: "chosen_job t = None \<Longrightarrow> active_jobs t = []"
  using firstActive_facts(2) by (auto simp: chosen_job_def active_jobs_def active_in_Nil split: option.splits)

lemma released_rest [simp]:
  "channels_ok (release_slot l i t) = channels_ok t" "tr_queue (release_slot l i t) = tr_queue t"
  by (simp_all add: release_slot_def ReleaseHistory_def channels_ok_def Let_def)

lemma queue_rest [simp]:
  "ledger (t\<lparr>tr_queue := s\<rparr>) = ledger t" "slots_ok (t\<lparr>tr_queue := s\<rparr>) = slots_ok t" "channels_ok (t\<lparr>tr_queue := s\<rparr>) = channels_ok t"
  "ledger (t\<lparr>tr_point := p\<rparr>) = ledger t" "slots_ok (t\<lparr>tr_point := p\<rparr>) = slots_ok t" "channels_ok (t\<lparr>tr_point := p\<rparr>) = channels_ok t"
  by (simp_all add: ledger_def slots_ok_def channels_ok_def)

lemma work_ok:
  assumes ok: "transformer_ok t" and chosen: "chosen_job t = Some (l, i)" and w: "work answer ctx rounds l i t = Some t'"
  shows "transformer_ok t'"
proof -
  have parts: "ledger t" "slots_ok t" "channels_ok t" "orderly weighChunk (tr_queue t)" using ok by (simp_all add: transformer_ok_def)
  have i: "i < length (tr_slots t l)" "js_active (tr_slots t l ! i)" using chosen_active [OF chosen] by simp_all
  let ?settle = "\<lambda>finished t. (if finished then release_slot l i t else t)\<lparr>tr_point := LoopTop\<rparr>"
  have settled: "transformer_ok (?settle finished (t\<lparr>tr_queue := s\<rparr>))" if "orderly weighChunk s" for finished s
    using parts i that release_slot_ok [of "t\<lparr>tr_queue := s\<rparr>" i l] by (simp add: transformer_ok_def leaving_def)
  have stop: "transformer_ok (return_with (Some e) (release_slot l i t))" for e
    using parts release_slot_ok [OF parts(1,2) i] by (intro return_with_ok) simp_all
  have failed: "transformer_ok (return_with (Some e) (t\<lparr>tr_queue := s\<rparr>))" if "orderly weighChunk s" for e s
    using parts that by (intro return_with_ok) simp_all
  show ?thesis
  proof (cases answer)
    case (Inl e)
    then show ?thesis using w stop by (auto simp: work_def Let_def)
  next
    case (Inr a)
    obtain chunk finished where a: "a = (chunk, finished)" by (cases a)
    show ?thesis
    proof (cases "chunk_messages chunk = []")
      case True
      then show ?thesis using w Inr a stop settled [OF parts(4), of finished] by (auto simp: work_def Let_def split: if_splits)
    next
      case False
      then obtain s n res where put: "blocking_Put weighChunk (Some ctx) chunk rounds (tr_queue t) = Some (s, n, res)"
        using w Inr a by (auto simp: work_def Let_def split: option.splits)
      have own: "orderly weighChunk s" using blocking_Put_ok [OF parts(4) put] by blast
      show ?thesis
        using w Inr a False put settled [OF own, of finished] failed [OF own] by (cases res) (auto simp: work_def Let_def)
    qed
  qed
qed

lemma after_leaving_ok:
  assumes "transformer_ok t" "tr_point t = Leaving l"
  shows "transformer_ok (after_leaving l t)"
proof -
  have "orderly weighChunk (queue_step weighChunk OpClose (tr_queue t))"
    using steps_orderly [of weighChunk "tr_queue t" "[OpClose]"] assms(1) by (simp add: transformer_ok_def)
  then have "orderly weighChunk (queue_Close (fst (tr_queue t)), snd (tr_queue t))" by (cases "tr_queue t") simp
  then show ?thesis using assms by (cases l) (auto simp: transformer_ok_def leaving_def queue_Close_def)
qed

lemma drainHistoryJobs_ok:
  assumes ok: "transformer_ok t" and point: "tr_point t = Leaving l"
  shows "transformer_ok (drainHistoryJobs l t)"
proof (cases "tr_open t l")
  case False
  then show ?thesis using after_leaving_ok [OF ok point] by (simp add: drainHistoryJobs_def)
next
  case True
  obtain t1 r where rec: "receive_job l t = (t1, r)" by (cases "receive_job l t")
  then show ?thesis
  proof (cases rule: receive_cases)
    case (job j rest)
    have "transformer_ok (ReleaseHistory j t1)"
      using ok job point True channels_received [of t l rest]
      by (auto simp: transformer_ok_def ledger_def slots_ok_def channels_ok_def ReleaseHistory_def leaving_def)
    then show ?thesis using rec job True by (simp add: drainHistoryJobs_def)
  next
    case quiet
    then show ?thesis using rec True after_leaving_ok [OF ok point] by (auto simp: drainHistoryJobs_def)
  qed
qed

lemma transformer_step_ok:
  assumes "transformer_step t t'" "transformer_ok t"
  shows "transformer_ok t'"
  using assms
proof (induction rule: transformer_step.induct)
  case (run_ended t c)
  then show ?case by (intro return_with_ok) (simp_all add: transformer_ok_def)
next
  case (run_begin t)
  then show ?case by (simp add: transformer_ok_def leaving_def)
next
  case (run_drain t l)
  then show ?case by (intro drainJobChannel_ok)
next
  case (run_work t l i answer ctx rounds t')
  show ?case by (rule work_ok [OF run_work(4,2,3)])
next
  case (run_idle t)
  have "transformer_ok (return_with None t)" if "\<forall>l. \<not> tr_open t l"
    using run_idle that by (intro return_with_ok) (simp_all add: transformer_ok_def)
  moreover have "(\<forall>l. \<not> tr_open t l) \<longleftrightarrow> \<not> tr_open t LineMetadata \<and> \<not> tr_open t LineOnDemand \<and> \<not> tr_open t LineBulk"
    by (metis job_line.exhaust)
  ultimately show ?case using run_idle chosen_none [OF run_idle(2)] by (auto simp: idle_def transformer_ok_def leaving_def)
next
  case (select_ended t c)
  then show ?case by (intro return_with_ok) (simp_all add: transformer_ok_def)
next
  case (select_received t l t')
  show ?case by (rule select_job_ok [OF select_received(4,1,2,3)])
next
  case (run_leave t l)
  then show ?case by (intro drainHistoryJobs_ok)
next
  case (source_sends t l job)
  have "mset (pending_jobs (send_job l job t)) = mset (pending_jobs t) + {#job#}"
    using pending_jobs_line [of t l "tr_pending t l @ [job]"] by (cases l) (simp_all add: send_job_def pending_jobs_def)
  moreover have "active_jobs (send_job l job t) = active_jobs t" by (simp add: send_job_def active_jobs_def)
  moreover have "tr_sent (send_job l job t) = tr_sent t @ [job]" "tr_released (send_job l job t) = tr_released t"
    by (simp_all add: send_job_def)
  ultimately have "ledger (send_job l job t)" using source_sends(2) by (simp add: transformer_ok_def ledger_def)
  moreover have "channels_ok (send_job l job t)" using source_sends by (auto simp: transformer_ok_def channels_ok_def send_job_def)
  moreover have "slots_ok (send_job l job t)" "leaving (send_job l job t) = leaving t"
    using source_sends(2) by (simp_all add: transformer_ok_def slots_ok_def leaving_def send_job_def)
  ultimately show ?case using source_sends(2) \<open>active_jobs (send_job l job t) = active_jobs t\<close>
    by (simp add: transformer_ok_def) (simp add: send_job_def)
next
  case (source_closes t l)
  then show ?case by (auto simp: transformer_ok_def ledger_def slots_ok_def channels_ok_def leaving_def)
next
  case (others_use_queue t op)
  define s where "s = queue_step weighChunk op (tr_queue t)"
  have "orderly weighChunk s" unfolding s_def using others_use_queue by (intro step_orderly_system) (simp add: transformer_ok_def)
  moreover have "q_stopped (fst (tr_queue t)) \<Longrightarrow> q_stopped (fst s)" unfolding s_def by (rule queue_step_stays_stopped)
  ultimately have "transformer_ok (t\<lparr>tr_queue := s\<rparr>)" using others_use_queue by (simp add: transformer_ok_def leaving_def)
  then show ?case unfolding s_def .
qed

lemma start_transformer_ok: "orderly weighChunk s \<Longrightarrow> transformer_ok (start_transformer channel s)"
proof -
  assume s: "orderly weighChunk s"
  have "start_slots l \<noteq> [] \<and> (\<forall>s \<in> set (start_slots l). \<not> js_active s)" for l by (cases l) (simp_all add: zero_job_slot_def)
  then show ?thesis
    using s by (auto simp: transformer_ok_def start_transformer_def ledger_def slots_ok_def channels_ok_def leaving_def active_jobs_def
        pending_jobs_def active_in_def zero_job_slot_def)
qed

lemma reachable_transformer_ok:
  "reachable_transformer t0 t \<Longrightarrow> transformer_ok t0 \<Longrightarrow> transformer_ok t"
  by (induction rule: reachable_transformer.induct) (auto intro: transformer_step_ok)

section \<open>Every job is handed back once\<close>

text \<open>C33: The history transformer neither loses a job nor hands one back twice: in every reachable state, whatever the source sends and
closes, whatever \<open>NextHistory\<close> answers and however \<open>Put\<close> waits, the jobs sent are those handed back with \<open>ReleaseHistory\<close>, those in
a slot - each in a slot of its own class - and those still in a channel. When \<open>Run\<close> has returned, no slot is active and the
history queue is closed; after a return without error every job ever sent has been handed back.\<close>
theorem history_jobs_released_once:
  assumes "reachable_transformer (start_transformer channel s) t" "orderly weighChunk s"
  shows "mset (tr_sent t) = mset (tr_released t) + mset (active_jobs t) + mset (pending_jobs t)
    \<and> (\<forall>l. \<forall>slot \<in> set (tr_slots t l). js_active slot \<longrightarrow> job_class (js_job slot) = line_class l)
    \<and> (tr_point t = Returned \<longrightarrow> active_jobs t = [] \<and> q_stopped (fst (tr_queue t)))
    \<and> (tr_point t = Returned \<and> tr_result t = None \<longrightarrow> mset (tr_sent t) = mset (tr_released t))
    \<and> orderly weighChunk (tr_queue t)"
proof -
  have ok: "transformer_ok t" by (rule reachable_transformer_ok [OF assms(1) start_transformer_ok [OF assms(2)]])
  have "pending_jobs t = []" if "\<forall>l. \<not> tr_open t l" using ok that by (simp add: transformer_ok_def channels_ok_def pending_jobs_def)
  then show ?thesis using ok by (auto simp: transformer_ok_def ledger_def slots_ok_def leaving_def)
qed

text \<open>C36: The transformer works on history by priority: the job it hands to \<open>NextHistory\<close> is active, and no active job is of a more
urgent class - metadata before on-demand before bulk.\<close>
theorem urgent_history_first:
  assumes "reachable_transformer (start_transformer channel s) t" "orderly weighChunk s" "chosen_job t = Some (l, i)"
  shows "js_job (tr_slots t l ! i) \<in> set (active_jobs t)
    \<and> (\<forall>job \<in> set (active_jobs t). job_class (js_job (tr_slots t l ! i)) \<le> job_class job)"
proof -
  have "transformer_ok t" by (rule reachable_transformer_ok [OF assms(1) start_transformer_ok [OF assms(2)]])
  then have slots: "\<forall>l. \<forall>slot \<in> set (tr_slots t l). js_active slot \<longrightarrow> job_class (js_job slot) = line_class l"
    by (auto simp: transformer_ok_def slots_ok_def)
  have i: "i < length (tr_slots t l)" "js_active (tr_slots t l ! i)" using chosen_active [OF assms(3)] by simp_all
  then have job: "js_job (tr_slots t l ! i) \<in> set (active_in (tr_slots t l))" by (simp add: active_in_def)
  then have "js_job (tr_slots t l ! i) \<in> set (active_jobs t)" by (cases l) (simp_all add: active_jobs_def)
  moreover have "line_class l \<le> job_class j" if "j \<in> set (active_jobs t)" for j
  proof -
    from that slots assms(3) firstActive_facts(2) show ?thesis
      by (auto simp: active_jobs_def active_in_def chosen_job_def HistoryMetadata_def HistoryOnDemand_def HistoryBulk_def split: option.splits)
  qed
  moreover have "job_class (js_job (tr_slots t l ! i)) = line_class l" using slots i by simp
  ultimately show ?thesis by simp
qed

text \<open>A source that puts a bulk job into the metadata channel, and one that puts a metadata job there.\<close>

definition sample_job :: "8 word \<Rightarrow> history_job" where
  "sample_job c = \<lparr>job_id = HistoryJobID ''j'', job_class = c\<rparr>"

definition sample_chunks :: "history_chunk bqueue" where
  "sample_chunks = (case newByteBudget 0 262144 of Inr b \<Rightarrow> (case newBoundedQueue 4 b of Inr q \<Rightarrow> q))"

lemma sample_chunks_orderly: "orderly weighChunk (sample_chunks, [])"
proof -
  obtain b where "newByteBudget 0 262144 = Inr b" "newBoundedQueue 4 b = Inr sample_chunks"
    by (simp add: sample_chunks_def newByteBudget_def newBoundedQueue_def)
  then show ?thesis by (rule new_orderly)
qed

definition sample_start :: "unit transformer" where
  "sample_start = start_transformer (\<lambda>_. True) (sample_chunks, [])"

lemma sample_received: "reachable_transformer sample_start
    (drainJobChannel LineMetadata ((send_job LineMetadata job sample_start)\<lparr>tr_point := Draining LineMetadata\<rparr>))"
proof -
  have r0: "reachable_transformer sample_start sample_start" by (rule reachable_transformer.intros)
  have r1: "reachable_transformer sample_start (send_job LineMetadata job sample_start)"
    by (rule reachable_transformer.intros(2) [OF r0 source_sends]) (simp add: sample_start_def start_transformer_def)
  have r2: "reachable_transformer sample_start ((send_job LineMetadata job sample_start)\<lparr>tr_point := Draining LineMetadata\<rparr>)"
    by (rule reachable_transformer.intros(2) [OF r1 run_begin]) (simp add: sample_start_def start_transformer_def send_job_def)
  show ?thesis by (rule reachable_transformer.intros(2) [OF r2 run_drain]) simp
qed

theorem history_jobs_released_once_witness:
  "\<exists>t. reachable_transformer sample_start t \<and> tr_point t = Returned \<and> tr_sent t = [sample_job HistoryBulk]
     \<and> tr_released t = [sample_job HistoryBulk] \<and> active_jobs t = [] \<and> q_stopped (fst (tr_queue t))"
proof -
  let ?t3 = "drainJobChannel LineMetadata ((send_job LineMetadata (sample_job HistoryBulk) sample_start)\<lparr>tr_point := Draining LineMetadata\<rparr>)"
  note defs = drainJobChannel_def receive_job_def admit_or_return_def admitHistoryJob_def send_job_def sample_start_def start_transformer_def
    return_with_def releaseJobStates_eq ReleaseHistory_def drainHistoryJobs_def zero_job_slot_def sample_job_def HistoryBulk_def HistoryMetadata_def
    active_in_def
  have p3: "tr_point ?t3 = Leaving LineMetadata" by (simp add: defs)
  let ?t4 = "drainHistoryJobs LineMetadata ?t3" and ?t5 = "drainHistoryJobs LineOnDemand (drainHistoryJobs LineMetadata ?t3)"
  let ?t6 = "drainHistoryJobs LineBulk ?t5"
  have p4: "tr_point ?t4 = Leaving LineOnDemand" by (simp add: defs)
  have p5: "tr_point ?t5 = Leaving LineBulk" by (simp add: defs)
  have p6: "tr_point ?t6 = Returned \<and> tr_sent ?t6 = [sample_job HistoryBulk] \<and> tr_released ?t6 = [sample_job HistoryBulk]"
    by (simp add: defs)
  have "reachable_transformer sample_start ?t4" by (rule reachable_transformer.intros(2) [OF sample_received run_leave [OF p3]])
  then have "reachable_transformer sample_start ?t5" by (rule reachable_transformer.intros(2) [OF _ run_leave [OF p4]])
  then have r6: "reachable_transformer sample_start ?t6" by (rule reachable_transformer.intros(2) [OF _ run_leave [OF p5]])
  from history_jobs_released_once [OF r6 [unfolded sample_start_def] sample_chunks_orderly] p6 r6 show ?thesis
    by (intro exI [of _ ?t6]) (simp add: sample_start_def)
qed

theorem urgent_history_first_witness:
  "\<exists>t. reachable_transformer sample_start t \<and> chosen_job t = Some (LineMetadata, 0)
     \<and> js_job (tr_slots t LineMetadata ! 0) \<in> set (active_jobs t)"
proof -
  let ?t3 = "drainJobChannel LineMetadata ((send_job LineMetadata (sample_job HistoryMetadata) sample_start)\<lparr>tr_point := Draining LineMetadata\<rparr>)"
  have c: "chosen_job ?t3 = Some (LineMetadata, 0)"
    by (simp add: drainJobChannel_def receive_job_def admit_or_return_def admitHistoryJob_def send_job_def sample_start_def
        start_transformer_def zero_job_slot_def sample_job_def chosen_job_def)
  from urgent_history_first [OF sample_received [unfolded sample_start_def] sample_chunks_orderly c [unfolded sample_start_def]] c
  show ?thesis using sample_received by (metis sample_start_def)
qed

end
