(* ===== verification/Ingestion.thy ===== *)
theory Ingestion
  imports Writer Transformer "HOL-Library.Sublist"
begin

text \<open>
  The history ingester of \<open>internal/service/history.go\<close>: it takes the chunks of the transformer out of the history queue,
  decides on each message and puts what is kept into the queue of the writer. The store and the policy are those of theory
  \<open>Decisions\<close>, the queues those of theory \<open>Waiting\<close>; what others do while the ingester waits for a queue is a schedule of
  rounds. A first section shows that a blocking \<open>Put\<close> keeps the order of the queue as long as the others only consume.
\<close>

section \<open>A single producer\<close>

fun consuming :: "'a queue_op \<Rightarrow> bool" where
  "consuming OpTake = True"
| "consuming (OpDone i) = True"
| "consuming OpClose = True"
| "consuming op = False"

definition only_consumed :: "'a round list \<Rightarrow> bool" where
  "only_consumed rounds \<longleftrightarrow> (\<forall>r \<in> set rounds. \<forall>op \<in> set (round_ops r). consuming op)"

text \<open>What is in the queue is the rest of what was in it and what was put since.\<close>

definition fed :: "'a bqueue \<Rightarrow> 'a list \<Rightarrow> 'a bqueue \<Rightarrow> bool" where
  "fed q vs q' \<longleftrightarrow> suffix (queue_values q') (queue_values q @ vs)"

lemma fed_refl [simp]: "fed q [] q"
  by (simp add: fed_def)

lemma fed_trans: "fed q us q1 \<Longrightarrow> fed q1 vs q2 \<Longrightarrow> fed q (us @ vs) q2"
  unfolding fed_def by (metis append_assoc suffix_def)

lemma fed_same: "queue_values q1 = queue_values q \<Longrightarrow> fed q [] q1"
  by (simp add: fed_def)

lemma fed_budget [simp]: "fed q vs (q1\<lparr>q_budget := b\<rparr>) = fed q vs q1" "fed (q1\<lparr>q_budget := b\<rparr>) vs q = fed q1 vs q"
  by (simp_all add: fed_def queue_values_def contents_def)

lemma fed_release [simp]: "fed q vs (release_lease r q1) = fed q vs q1"
  by (simp add: release_lease_def)

lemma consume_fed:
  assumes "system_ok weigh (q, ls)" "consuming op" "queue_step weigh op (q, ls) = (q', ls')"
  shows "fed q [] q' \<and> system_ok weigh (q', ls')"
proof -
  have "fed q [] q'"
  proof (cases op)
    case OpTake
    have wf: "wf_queue weigh q" using assms(1) by (simp add: system_ok_def)
    show ?thesis
    proof (cases "q_count q = 0")
      case True
      then show ?thesis using OpTake assms(3) by (simp add: TryTake_def)
    next
      case False
      then obtain q1 v r where "TryTake q = (q1, Some (Cell v r))" "contents q = Cell v r # contents q1"
        using TryTake_cases [OF wf] by blast
      then show ?thesis using OpTake assms(3) queue_values_Cons [of q v r q1] by (auto simp: fed_def suffix_def)
    qed
  next
    case (OpDone i)
    then show ?thesis using assms(3) by (auto split: if_splits)
  next
    case OpClose
    then show ?thesis using assms(3) by (auto simp: fed_def queue_Close_def queue_values_def contents_def)
  qed (use assms(2) in simp_all)
  then show ?thesis using bounded_fifo.step_ok [OF assms(1), of op] assms(3) by simp
qed

lemma consumes_fed:
  "system_ok weigh (q, ls) \<Longrightarrow> \<forall>op \<in> set ops. consuming op \<Longrightarrow> fold (queue_step weigh) ops (q, ls) = (q', ls') \<Longrightarrow> fed q [] q'"
proof (induction ops arbitrary: q ls)
  case (Cons op ops)
  obtain q1 ls1 where s1: "queue_step weigh op (q, ls) = (q1, ls1)" by (cases "queue_step weigh op (q, ls)")
  have one: "fed q [] q1 \<and> system_ok weigh (q1, ls1)" using consume_fed [OF Cons.prems(1) _ s1] Cons.prems(2) by simp
  then have "fed q1 [] q'" using Cons.IH [of q1 ls1] s1 Cons.prems by simp
  then show ?case using one fed_trans by fastforce
qed simp

lemma round_fed:
  assumes "orderly weigh (q, rs @ ls)" "length rs \<le> 1" "\<forall>op \<in> set (round_ops round). consuming op" "run_round weigh round (q, ls) = (q', ls')"
  shows "fed q [] q'"
proof -
  have "system_ok weigh (q, ls)" using assms(1) by (auto simp: orderly_def system_ok_def)
  then show ?thesis using consumes_fed assms(3,4) by (simp add: run_round_def)
qed

lemma registering_fed: "wait_for_bytes reg q = (q', ok) \<Longrightarrow> queue_values q' = queue_values q"
  "wait_for_entry reg entry q = (q', ok) \<Longrightarrow> queue_values q' = queue_values q"
  using registering same_books_orderly by metis+

lemma put_acquire_fed:
  "orderly weigh (q, ls) \<Longrightarrow> only_consumed rounds \<Longrightarrow>
   put_acquire weigh ctx w look rounds reg (q, ls) = Some ((q', ls'), n, rest, reg', res) \<Longrightarrow> fed q [] q' \<and> only_consumed rest"
proof (induction rounds arbitrary: q ls look reg)
  case Nil
  obtain b e where acq: "tryAcquire (q_budget q) w = (b, e)" by (cases "tryAcquire (q_budget q) w")
  obtain q1 ok where reg: "wait_for_bytes reg q = (q1, ok)" by (cases "wait_for_bytes reg q")
  show ?case using Nil acq reg registering_fed(1) [OF reg]
    by (subst (asm) put_acquire.simps) (auto simp: fed_same split: option.splits if_splits sum.splits bool.splits)
next
  case (Cons round more)
  obtain b e where acq: "tryAcquire (q_budget q) w = (b, e)" by (cases "tryAcquire (q_budget q) w")
  obtain q1 ok where reg: "wait_for_bytes reg q = (q1, ok)" by (cases "wait_for_bytes reg q")
  have v1: "queue_values q1 = queue_values q" by (rule registering_fed(1) [OF reg])
  have own1: "orderly weigh (q1, ls)" using Cons.prems(1) same_books_orderly [OF registering(1) [OF reg]] by blast
  obtain q2 ls2 where r2: "run_round weigh round (q1, ls) = (q2, ls2)" by (cases "run_round weigh round (q1, ls)")
  have own: "orderly weigh (q2, ls2)" using steps_orderly [OF own1, of "round_ops round"] r2 by (simp add: run_round_def)
  have rest: "only_consumed more" "\<forall>op \<in> set (round_ops round). consuming op" using Cons.prems(2) by (simp_all add: only_consumed_def)
  have fed2: "fed q [] q2" using round_fed [of weigh q1 "[]" ls round q2 ls2] own1 rest(2) r2 v1 by (simp add: fed_def)
  have IH: "fed q [] q' \<and> only_consumed rest" if "put_acquire weigh ctx w (Suc look) more True (q2, ls2) = Some ((q', ls'), n, rest, reg', res)"
    using Cons.IH [OF own rest(1) that] fed_trans [OF fed2, of "[]" q'] by simp
  show ?case
    using Cons.prems(3) IH rest(1) fed2 acq reg r2 v1 Cons.prems(2)
    by (subst (asm) put_acquire.simps) (auto simp: fed_same Let_def split: option.splits if_splits sum.splits wake.splits bool.splits)
qed

lemma put_entry_fed:
  "orderly weigh (q, r # ls) \<Longrightarrow> only_consumed rounds \<Longrightarrow>
   put_entry weigh ctx v r look rounds reg entry (q, ls) = Some ((q', ls'), n, reg', entry', res) \<Longrightarrow>
     fed q (if res = Inr () then [v] else []) q'"
proof (induction rounds arbitrary: q ls look reg entry)
  case Nil
  obtain q1 e where put: "putReserved weigh q v (Some r) = (q1, e)" by (cases "putReserved weigh q v (Some r)")
  obtain q2 ok where reg: "wait_for_entry reg entry q1 = (q2, ok)" by (cases "wait_for_entry reg entry q1")
  have "e = None \<Longrightarrow> fed q [v] q1" using putReserved_orderly(2) [OF Nil.prems(1)] put by (simp add: fed_def)
  moreover have "e \<noteq> None \<Longrightarrow> fed q [] q1 \<and> fed q [] q2"
    using putReserved_cases [OF put] registering_fed(2) [OF reg] by (auto simp: fed_same)
  ultimately show ?case using Nil put reg
    by (subst (asm) put_entry.simps) (auto split: option.splits if_splits bool.splits)
next
  case (Cons round rest)
  obtain q1 e where put: "putReserved weigh q v (Some r) = (q1, e)" by (cases "putReserved weigh q v (Some r)")
  obtain q2 ok where reg: "wait_for_entry reg entry q1 = (q2, ok)" by (cases "wait_for_entry reg entry q1")
  obtain q3 ls3 where r3: "run_round weigh round (q2, ls) = (q3, ls3)" by (cases "run_round weigh round (q2, ls)")
  have done1: "e = None \<Longrightarrow> fed q [v] q1" using putReserved_orderly(2) [OF Cons.prems(1)] put by (simp add: fed_def)
  have same: "e \<noteq> None \<Longrightarrow> fed q [] q1 \<and> fed q [] q2"
    using putReserved_cases [OF put] registering_fed(2) [OF reg] by (auto simp: fed_same)
  have more: "only_consumed rest" "\<forall>op \<in> set (round_ops round). consuming op" using Cons.prems(2) by (simp_all add: only_consumed_def)
  have wait: "fed q [] q3 \<and> orderly weigh (q3, r # ls3)" if "e \<noteq> None"
  proof -
    have own: "orderly weigh (q2, r # ls)"
      using that Cons.prems(1) putReserved_cases [OF put] same_books_orderly [OF registering(2) [OF reg]] by auto
    then have "fed q2 [] q3" using round_fed [of weigh q2 "[r]" ls round q3 ls3] more(2) r3 by simp
    then have "fed q [] q3" using same that fed_trans by fastforce
    then show ?thesis using steps_own_lease [OF own] r3 by (simp add: run_round_def)
  qed
  have IH: "fed q (if res = Inr () then [v] else []) q'"
    if "e \<noteq> None" "put_entry weigh ctx v r (Suc look) rest True True (q3, ls3) = Some ((q', ls'), n, reg', entry', res)"
    using Cons.IH [OF _ more(1) that(2)] wait [OF that(1)] fed_trans [of q "[]" q3] by auto
  show ?case
    using Cons.prems(3) IH done1 same wait put reg r3
    by (subst (asm) put_entry.simps) (auto split: option.splits if_splits bool.splits wake.splits)
qed

lemma blocking_Put_fed:
  assumes "orderly weigh s" "only_consumed rounds" "blocking_Put weigh context v rounds s = Some (s', n, res)"
  shows "fed (fst s) (if res = Inr () then [v] else []) (fst s')"
  using assms(3)
proof (cases rule: blocking_Put_cases)
  case (refused e)
  then show ?thesis by simp
next
  case (acquire ctx w s1 rest reg e)
  then have "fed (fst s) [] (fst s1)"
    using put_acquire_fed [of weigh "fst s" "snd s" rounds ctx w 0 False "fst s1" "snd s1"] assms(1,2) by simp
  then show ?thesis using acquire by (simp add: fed_def deferred_orderly)
next
  case (entry ctx w s1 look rest reg r s2 reg2 entry2)
  have own: "orderly weigh (fst s1, r # snd s1)"
    using put_acquire_ok [of weigh "fst s" "snd s" ctx w 0 rounds False "fst s1" "snd s1"] assms(1) entry(1) by simp
  have "fed (fst s) [] (fst s1) \<and> only_consumed rest"
    using put_acquire_fed [of weigh "fst s" "snd s" rounds ctx w 0 False "fst s1" "snd s1"] assms(1,2) entry(1) by simp
  moreover have "fed (fst s1) (if res = Inr () then [v] else []) (fst s2)"
    using put_entry_fed [OF own, of rest ctx v look reg False "fst s2" "snd s2"] entry(2) calculation by simp
  ultimately have "fed (fst s) (if res = Inr () then [v] else []) (fst s2)" using fed_trans by fastforce
  then show ?thesis using entry(3) by (simp add: fed_def deferred_orderly)
qed

section \<open>The ingester\<close>

fun task_wait :: "wait_error \<Rightarrow> 'e task_error" where
  "task_wait (WaitContext c) = TaskContext c"
| "task_wait (WaitQueue e) = TaskQueue e"

definition normalizeHistoryMessage :: "message \<Rightarrow> 'e task_error + message" where
  "normalizeHistoryMessage m =
     (case NewWriteBatch WriteHistory [m] of
        Inl e \<Rightarrow> Inl (TaskModel e)
      | Inr b \<Rightarrow>
          case batch_At b 0 of
            (n, True) \<Rightarrow> Inr n
          | (_, False) \<Rightarrow> Inl (TaskQueue QueueInvariant))"

text \<open>The schedule of a chunk: for every index the looks and the rounds of the \<open>Put\<close> of its message.\<close>

type_synonym put_schedule = "nat \<Rightarrow> looks \<times> message round list"

fun ingest :: "('s, 'e) message_store \<Rightarrow> retention_policy \<Rightarrow> 's environment \<Rightarrow> put_schedule \<Rightarrow> nat \<Rightarrow> message list
    \<Rightarrow> 's world \<Rightarrow> message queue_system \<Rightarrow> ('s world \<times> message queue_system \<times> 'e task_error option) option" where
  "ingest ms rp env sched i [] w s = Some (w, s, None)"
| "ingest ms rp env sched i (m # rest) w s =
     (case look_context env w of
        (w1, Some c) \<Rightarrow> Some (w1, s, Some (TaskContext c))
      | (w1, None) \<Rightarrow>
          case normalizeHistoryMessage m of
            Inl e \<Rightarrow> Some (w1, s, Some e)
          | Inr n \<Rightarrow>
              case decide_message ms rp None WriteHistory env n w1 of
                (w2, Inl e) \<Rightarrow> Some (w2, s, Some e)
              | (w2, Inr d) \<Rightarrow>
                  (case downstream d n of
                     None \<Rightarrow> Some (w2, s, Some (TaskQueue QueueInvariant))
                   | Some None \<Rightarrow> ingest ms rp env sched (Suc i) rest w2 s
                   | Some (Some x) \<Rightarrow>
                       (case blocking_Put weighMessage (Some (fst (sched i))) x (snd (sched i)) s of
                          None \<Rightarrow> None
                        | Some (s1, _, Inl e) \<Rightarrow> Some (w2, s1, Some (task_wait e))
                        | Some (s1, _, Inr _) \<Rightarrow> ingest ms rp env sched (Suc i) rest w2 s1)))"

text \<open>
  A chunk whose lease pays with the permit \<open>r\<close>; \<open>ops\<close> is what the others do to the history queue until the lease is
  released by the deferred call.
\<close>

definition processHistoryChunk :: "('s, 'e) message_store \<Rightarrow> retention_policy \<Rightarrow> 's environment \<Rightarrow> put_schedule \<Rightarrow> history_chunk queue_op list
    \<Rightarrow> history_chunk \<Rightarrow> permit_ref \<Rightarrow> 's world \<Rightarrow> history_chunk queue_system \<Rightarrow> message queue_system
    \<Rightarrow> ('s world \<times> history_chunk queue_system \<times> message queue_system \<times> 'e task_error option) option" where
  "processHistoryChunk ms rp env sched ops chunk r w cs s =
     (case ingest ms rp env sched 0 (chunk_messages chunk) w s of
        None \<Rightarrow> None
      | Some (w', s', e) \<Rightarrow>
          let (cq, cls) = fold (queue_step weighChunk) ops cs
          in Some (w', (release_lease r cq, cls), s', e))"

record ingester_turn =
  it_looks :: looks
  it_rounds :: "history_chunk round list"
  it_puts :: put_schedule
  it_ops :: "history_chunk queue_op list"

fun ingester_loop :: "('s, 'e) message_store \<Rightarrow> retention_policy \<Rightarrow> 's environment \<Rightarrow> ingester_turn list
    \<Rightarrow> 's world \<Rightarrow> history_chunk queue_system \<Rightarrow> message queue_system
    \<Rightarrow> ('s world \<times> history_chunk queue_system \<times> message queue_system \<times> 'e task_error option) option" where
  "ingester_loop ms rp env [] w cs s = None"
| "ingester_loop ms rp env (turn # turns) w cs s =
     (case blocking_Take weighChunk (Some (it_looks turn)) (it_rounds turn) cs of
        None \<Rightarrow> None
      | Some (cs1, _, Inl e) \<Rightarrow> Some (w, cs1, s, if e = WaitQueue QueueStopped then None else Some (task_wait e))
      | Some (cs1, _, Inr ZeroCell) \<Rightarrow> ingester_loop ms rp env turns w cs1 s
      | Some ((cq, cls), _, Inr (Cell chunk r)) \<Rightarrow>
          (case processHistoryChunk ms rp env (it_puts turn) (it_ops turn) chunk r w (cq, tl cls) s of
             None \<Rightarrow> None
           | Some (w1, cs2, s1, Some e) \<Rightarrow> Some (w1, cs2, s1, Some e)
           | Some (w1, cs2, s1, None) \<Rightarrow> ingester_loop ms rp env turns w1 cs2 s1))"

text \<open>\<open>Run\<close> of the ingester: the loop and the deferred cleanup of both queues. A nil context is refused before the defer.\<close>

definition ingester_Run :: "('s, 'e) message_store \<Rightarrow> retention_policy \<Rightarrow> 's environment \<Rightarrow> ingester_turn list option
    \<Rightarrow> 's world \<Rightarrow> history_chunk queue_system \<Rightarrow> message queue_system
    \<Rightarrow> ('s world \<times> history_chunk queue_system \<times> message queue_system \<times> 'e task_error option) option" where
  "ingester_Run ms rp env context w cs s =
     (case context of
        None \<Rightarrow> Some (w, cs, s, Some (TaskQueue QueueInvariant))
      | Some turns \<Rightarrow>
          (case ingester_loop ms rp env turns w cs s of
             None \<Rightarrow> None
           | Some (w', (cq, cls), (q, ls), e) \<Rightarrow> Some (w', (fst (drainAndRelease cq), cls), (queue_Close q, ls), e)))"

section \<open>What the ingester hands to the writer\<close>

lemma normalizeHistoryMessage_wf: "wf_message m \<Longrightarrow> normalizeHistoryMessage m = Inr m"
  by (simp add: normalizeHistoryMessage_def NewWriteBatch_wf MaxWriteBatchMessages_def validateWriteOrigin_def WriteRealtime_def
      WriteHistory_def batch_At_def list_At_def)

lemma drain_orderly: "orderly weigh (q, ls) \<Longrightarrow> orderly weigh (fst (drain_from n q), ls)"
proof (induction n q rule: drain_from.induct)
  case (1 n q)
  have wf: "wf_queue weigh q" using "1.prems" by (simp add: orderly_def system_ok_def)
  show ?case
  proof (cases "q_count q = 0")
    case True
    then show ?thesis using "1.prems" by (subst drain_from.simps) (simp add: TryTake_def)
  next
    case False
    then obtain q1 v r where t: "TryTake q = (q1, Some (Cell v r))" using TryTake_cases [OF wf] by blast
    have "orderly weigh (q1, r # ls)" using step_orderly [OF "1.prems", of OpTake] t by simp
    then have "orderly weigh (release_lease r q1, ls)" by (rule release_orderly)
    then show ?thesis using "1.IH" t by (subst drain_from.simps) (simp add: release_lease_def cell_permit_def)
  qed
qed

lemma close_orderly: "orderly weigh (q, ls) \<Longrightarrow> orderly weigh (queue_Close q, ls)"
  using step_orderly [of weigh q ls OpClose] by simp

definition well_scheduled :: "put_schedule \<Rightarrow> bool" where
  "well_scheduled sched \<longleftrightarrow> (\<forall>i. only_consumed (snd (sched i)))"

text \<open>
  \<open>handed\<close>: the messages \<open>xs\<close> were put into the queue, in the form the policy gave the first messages of \<open>ms'\<close>; what the queue
  holds is the rest of what it held and of them.
\<close>

definition handed :: "policy \<Rightarrow> 's environment \<Rightarrow> message_view \<Rightarrow> message list \<Rightarrow> message queue_system \<Rightarrow> message queue_system \<Rightarrow> bool \<Rightarrow> bool" where
  "handed q env V ms' s s' all \<longleftrightarrow>
     (\<exists>xs. list_all2 (retained_form q WriteHistory env V) (take (length xs) ms') xs \<and> fed (fst s) xs (fst s')
        \<and> (all \<longrightarrow> length xs = length ms'))"

lemma handed_none: "fed (fst s) [] (fst s') \<Longrightarrow> (all \<longrightarrow> ms' = []) \<Longrightarrow> handed q env V ms' s s' all"
  unfolding handed_def by (intro exI [of _ "[]"]) simp

lemma handed_Cons:
  assumes "retained_form q WriteHistory env V m x" "fed (fst s) [x] (fst s1)" "handed q env V ms' s1 s' all"
  shows "handed q env V (m # ms') s s' all"
proof -
  obtain xs where "list_all2 (retained_form q WriteHistory env V) (take (length xs) ms') xs" "fed (fst s1) xs (fst s')"
    "all \<longrightarrow> length xs = length ms'" using assms(3) by (auto simp: handed_def)
  then show ?thesis unfolding handed_def using assms(1) fed_trans [OF assms(2)]
    by (intro exI [of _ "x # xs"]) fastforce
qed

context message_store_contract begin

lemma ingest_ok:
  assumes env: "fair ok msgs env" and sched: "well_scheduled sched"
  shows "ok (w_store w) \<Longrightarrow> orderly weighMessage s \<Longrightarrow> \<forall>m \<in> set rest. wf_message m \<Longrightarrow>
    ingest ms (real_policy q) env sched i rest w s = Some (w', s', e) \<Longrightarrow>
    steady w w' \<and> orderly weighMessage s' \<and> handed q env (msgs (w_store w)) rest s s' (e = None)"
proof (induction rest arbitrary: i w s)
  case Nil
  then show ?case by (simp add: handed_none)
next
  case (Cons m rest)
  obtain w1 c where look: "look_context env w = (w1, c)" by (cases "look_context env w")
  have s1: "steady w w1" by (rule quiet_steps(1) [OF env Cons.prems(1) look])
  have m: "wf_message m" using Cons.prems(3) by simp
  note norm = normalizeHistoryMessage_wf [OF m]
  obtain w2 d where dec: "decide_message ms (real_policy q) None WriteHistory env m w1 = (w2, d)"
    by (cases "decide_message ms (real_policy q) None WriteHistory env m w1")
  have s2: "steady w w2" "\<forall>d'. d = Inr d' \<longrightarrow> (\<exists>n. downstream d' m = Some (Some n) \<and> retained_form q WriteHistory env (msgs (w_store w)) m n)"
    using decide_message_ok [OF env _ m dec] s1 by auto
  show ?case
  proof (cases "\<exists>d'. c = None \<and> d = Inr d'")
    case False
    then show ?thesis using Cons.prems look dec s1 s2 by (cases c; cases d) (auto simp: norm intro: handed_none)
  next
    case True
    then obtain d' n where d: "c = None" "d = Inr d'" "downstream d' m = Some (Some n)"
      "retained_form q WriteHistory env (msgs (w_store w)) m n" using s2(2) by auto
    then obtain s2' k res where put: "blocking_Put weighMessage (Some (fst (sched i))) n (snd (sched i)) s = Some (s2', k, res)"
      using Cons.prems(4) look dec by (auto simp: norm split: option.splits)
    have rounds: "only_consumed (snd (sched i))" using sched by (simp add: well_scheduled_def)
    have own: "orderly weighMessage s2'" using blocking_Put_ok [OF Cons.prems(2) put] by blast
    note fed = blocking_Put_fed [OF Cons.prems(2) rounds put]
    show ?thesis
    proof (cases res)
      case (Inl e')
      then show ?thesis using Cons.prems(4) look dec d(1-3) put s2(1) own fed by (auto simp: norm intro: handed_none)
    next
      case (Inr u)
      have fed1: "fed (fst s) [n] (fst s2')" using fed Inr by simp
      have "ingest ms (real_policy q) env sched (Suc i) rest w2 s2' = Some (w', s', e)"
        using Cons.prems(4) look dec d(1-3) put Inr by (simp add: norm)
      from Cons.IH [OF _ own _ this] have IH: "steady w2 w'" "orderly weighMessage s'"
        "handed q env (msgs (w_store w2)) rest s2' s' (e = None)" using s2(1) Cons.prems(3) by simp_all
      show ?thesis using IH s2(1) handed_Cons [OF d(4) fed1] by simp
    qed
  qed
qed

end

section \<open>Properties of the ingester\<close>


lemma chunk_cell:
  assumes "orderly weighChunk cs" "blocking_Take weighChunk (Some ctx) rounds cs = Some ((cq, cls), n, Inr c)"
  obtains chunk r ls where "c = Cell chunk r" "cls = r # ls" "orderly weighChunk (cq, r # ls)" "weighChunk chunk \<noteq> None"
proof -
  have "take_loop weighChunk ctx 0 rounds (fst cs, snd cs) = Some ((cq, cls), n, Inr c)" using assms(2) by (simp add: blocking_Take_def)
  moreover have "take_loop weigh ctx look rounds (q, ls) = Some ((cq, cls), n, Inr c) \<Longrightarrow> orderly weigh (q, ls) \<Longrightarrow>
      \<exists>chunk r ls'. c = Cell chunk r \<and> cls = r # ls' \<and> orderly weigh (cq, r # ls') \<and> weigh chunk \<noteq> None" for weigh look q ls
  proof (induction rounds arbitrary: q ls look)
    case Nil
    obtain q1 c1 where t: "TryTake q = (q1, c1)" by (cases "TryTake q")
    have wf: "wf_queue weigh q" using Nil.prems(2) by (simp add: orderly_def system_ok_def)
    show ?case using Nil t take_now [OF Nil.prems(2)] TryTake_cases [OF wf]
      by (subst (asm) take_loop.simps) (fastforce simp: TryTake_def cell_permit_def split: option.splits if_splits)
  next
    case (Cons round rest)
    obtain q1 c1 where t: "TryTake q = (q1, c1)" by (cases "TryTake q")
    have wf: "wf_queue weigh q" using Cons.prems(2) by (simp add: orderly_def system_ok_def)
    show ?case
    proof (cases c1)
      case None
      then have same: "q1 = q" using t TryTake_none by blast
      obtain q2 ls2 where r2: "run_round weigh round (q, ls) = (q2, ls2)" by (cases "run_round weigh round (q, ls)")
      have own: "orderly weigh (q2, ls2)" using steps_orderly [OF Cons.prems(2), of "round_ops round"] r2 by (simp add: run_round_def)
      show ?thesis using Cons.prems(1) Cons.IH [OF _ own] None t same r2
        by (subst (asm) take_loop.simps) (auto simp: Let_def split: option.splits if_splits wake.splits)
    next
      case (Some c2)
      then have "q_count q \<noteq> 0" using t by (auto simp: TryTake_def split: if_splits)
      then obtain q' v r where c: "TryTake q = (q', Some (Cell v r))" "weigh v \<noteq> None" using TryTake_cases [OF wf] by blast
      then have "orderly weigh (q', r # ls)" using step_orderly [OF Cons.prems(2), of OpTake] by simp
      then show ?thesis using Cons.prems(1) c by (subst (asm) take_loop.simps) (auto simp: cell_permit_def split: option.splits)
    qed
  qed
  ultimately show ?thesis using assms(1) that by (metis prod.collapse)
qed

lemma ingest_orderly:
  "orderly weighMessage s \<Longrightarrow> ingest ms rp env sched i rest w s = Some (w', s', e) \<Longrightarrow> orderly weighMessage s'"
proof (induction ms rp env sched i rest w s rule: ingest.induct)
  case (2 ms rp env sched i m rest w s)
  from "2.prems"(2) show ?case
  proof (cases "\<exists>w1 w2 n d x. look_context env w = (w1, None) \<and> (normalizeHistoryMessage m :: 'b task_error + message) = Inr n
      \<and> decide_message ms rp None WriteHistory env n w1 = (w2, Inr d) \<and> downstream d n = Some x")
    case False
    then show ?thesis using "2.prems" by (auto split: prod.splits option.splits sum.splits)
  next
    case True
    then obtain w1 w2 n d x where step: "look_context env w = (w1, None)" "(normalizeHistoryMessage m :: 'b task_error + message) = Inr n"
      "decide_message ms rp None WriteHistory env n w1 = (w2, Inr d)" "downstream d n = Some x" by blast
    show ?thesis
    proof (cases x)
      case None
      then show ?thesis using "2.IH"(1) step "2.prems" by simp
    next
      case (Some y)
      then obtain s1 k res where put: "blocking_Put weighMessage (Some (fst (sched i))) y (snd (sched i)) s = Some (s1, k, res)"
        using step "2.prems"(2) by (auto split: option.splits)
      have "orderly weighMessage s1" using blocking_Put_ok [OF "2.prems"(1) put] by blast
      then show ?thesis using "2.IH"(2) step Some put "2.prems"(2) by (cases res) auto
    qed
  qed
qed simp

lemma take_stopped:
  assumes "orderly weighChunk cs" "blocking_Take weighChunk (Some ctx) rounds cs = Some (cs1, n, res)"
  shows "orderly weighChunk cs1 \<and> (res = Inl (WaitQueue QueueStopped) \<longrightarrow> q_stopped (fst cs1))"
  using take_loop_ok [of weighChunk "fst cs" "snd cs" ctx 0 rounds cs1 n res] assms
  by (auto simp: blocking_Take_def take_result_def)

lemma ingester_loop_ok:
  "orderly weighChunk cs \<Longrightarrow> orderly weighMessage s \<Longrightarrow> ingester_loop ms rp env turns w cs s = Some (w', cs', s', e) \<Longrightarrow>
     orderly weighChunk cs' \<and> orderly weighMessage s' \<and> (e = None \<longrightarrow> q_stopped (fst cs'))"
proof (induction turns arbitrary: w cs s)
  case (Cons turn turns)
  obtain cs1 n res where take: "blocking_Take weighChunk (Some (it_looks turn)) (it_rounds turn) cs = Some (cs1, n, res)"
    using Cons.prems(3) by (auto split: option.splits)
  note taken = take_stopped [OF Cons.prems(1) take]
  show ?case
  proof (cases res)
    case (Inl err)
    then show ?thesis using Cons.prems taken take by (auto split: if_splits)
  next
    case (Inr c)
    obtain cq cls where cs1: "cs1 = (cq, cls)" by (cases cs1)
    obtain chunk r ls where c: "c = Cell chunk r" "cls = r # ls" "orderly weighChunk (cq, r # ls)"
      using chunk_cell [OF Cons.prems(1) take [unfolded Inr cs1]] by metis
    obtain w1 cs2 s1 e1 where chunk: "processHistoryChunk ms rp env (it_puts turn) (it_ops turn) chunk r w (cq, ls) s = Some (w1, cs2, s1, e1)"
      using Cons.prems(3) take Inr cs1 c(1,2) by (auto split: option.splits)
    obtain cq1 cls1 where others: "fold (queue_step weighChunk) (it_ops turn) (cq, ls) = (cq1, cls1)"
      by (cases "fold (queue_step weighChunk) (it_ops turn) (cq, ls)")
    have run: "ingest ms rp env (it_puts turn) 0 (chunk_messages chunk) w s = Some (w1, s1, e1)" and cs2: "cs2 = (release_lease r cq1, cls1)"
      using chunk others by (auto simp: processHistoryChunk_def split: option.splits)
    have own: "orderly weighChunk cs2" unfolding cs2 by (rule release_orderly [OF steps_own_lease [OF c(3) others]])
    have s1: "orderly weighMessage s1" by (rule ingest_orderly [OF Cons.prems(2) run])
    show ?thesis
    proof (cases e1)
      case None
      then show ?thesis using Cons.IH [OF own s1, of w1] Cons.prems(3) take Inr cs1 c(1,2) chunk by simp
    next
      case (Some err)
      then show ?thesis using own s1 Cons.prems(3) take Inr cs1 c(1,2) chunk by auto
    qed
  qed
qed simp


text \<open>A chunk of one message, a live environment and queues with room.\<close>

lemma fresh_orderly: "fresh_queue weigh o' q \<Longrightarrow> orderly weigh (q, [])"
  by (simp add: fresh_queue_def orderly_def system_ok_def balanced_def held_def entry_permits_def active_permits_def map_filter_simps
      del: contents_Nil)

definition room :: queue_options where "room = \<lparr>qo_Entries = 4, qo_Bytes = 1000000\<rparr>"

definition one_message_chunk :: history_chunk where
  "one_message_chunk = \<lparr>chunk_messages = [sample_message ''c'' ''m'' 5], chunk_byteSize = 100\<rparr>"

lemma one_message_wf: "\<forall>m \<in> set (chunk_messages one_message_chunk). wf_message m"
  unfolding one_message_chunk_def by (simp, intro sample_message_wf ascii_clean; simp add: ascii_eval)

lemma sample_ingest:
  assumes fresh: "fresh_queue weighMessage room q"
  shows "\<exists>w' s'. ingest memory_store (real_policy sample_policy) quiet_env (\<lambda>_. (\<lambda>_. None, [])) 0 (chunk_messages one_message_chunk)
    \<lparr>w_tick = 0, w_store = sample_store\<rparr> (q, []) = Some (w', s', None)"
proof -
  let ?m = "sample_message ''c'' ''m'' 5" and ?w = "\<lparr>w_tick = 0, w_store = sample_store\<rparr>"
  let ?w1 = "\<lparr>w_tick = 1, w_store = sample_store\<rparr>"
  have m: "wf_message ?m" using one_message_wf by (simp add: one_message_chunk_def)
  have look: "look_context quiet_env ?w = (?w1, None)" by (simp add: look_context_def ticked_def quiet_env_def)
  obtain w2 d where dec: "decide_message memory_store (real_policy sample_policy) None WriteHistory quiet_env ?m ?w1 = (w2, Inr d)"
    using mem_store.decide_message_answers [OF quiet_env_ok _ m samples_wf(1), of ?w1 WriteHistory None] sample_store_wf(1) by auto
  obtain n where n: "downstream d ?m = Some (Some n)" "retained_form sample_policy WriteHistory quiet_env (view sample_store) ?m n"
    using mem_store.decide_message_ok [OF quiet_env_ok(1) _ m dec] sample_store_wf(1) by auto
  have wf: "wf_message n" by (rule mem_store.retained_form_wf [OF n(2) m])
  then have "msg_byteSize n \<le> qo_Bytes room" using wf_message_bounds [OF wf] by (simp add: room_def max_message_bytes_def)
  then obtain q' where "TryPut weighMessage q n = (q', None)"
    using fresh_TryPut [OF fresh wf] by (cases "TryPut weighMessage q n") (simp add: room_def)
  then have "blocking_Put weighMessage (Some (\<lambda>_. None)) n [] (q, []) = Some ((q', []), 2, Inr ())"
    by (intro put_without_waiting) simp_all
  then show ?thesis using look dec n(1) by (simp add: one_message_chunk_def normalizeHistoryMessage_wf [OF m])
qed



end
