(* ===== verification/Spec2Isabelle.thy ===== *)
theory Spec2Isabelle
  imports StoreContract Reactions ChatLive Sending Publisher Ingestion
begin

text \<open>
  \<^bold>\<open>walite\<close> is a terminal client for WhatsApp. A third-party client delivers realtime messages and history chunks; the service
  core (\<open>internal/service\<close>) takes them in through bounded queues, writes them to a message store (\<open>internal/store\<close>) in bounded
  batches, keeps the store small with a retention policy (\<open>internal/syncpolicy\<close>) and hands committed messages to the terminal
  interface (\<open>internal/tui\<close>), which keeps a small working set of chats and messages. The values that travel between these
  parts are the immutable types of \<open>internal/model\<close>, each built by a constructor that validates it and charges it a number of
  bytes. This development models that data path as HOL functions and proves what each part promises to the next.

  \<^bold>\<open>How Go is modelled.\<close> Strings and byte slices are lists of bytes, \<open>int\<close> and \<open>int64\<close> are unbounded integers with the
  source's overflow guards written out (\<open>max_int\<close>), unsigned types are words of their width, instants are nanoseconds since the
  zero time, a function that returns an error returns a sum, a pointer that may be nil is an option, a method with side effects
  returns the new state. Code under one mutex is one step; where goroutines interleave, the interleaving is an argument
  (the list of operations of \<open>Queue\<close>, the function \<open>meanwhile\<close> of \<open>Sending\<close>) over which the theorems quantify. Names are the
  source's; a prefix (\<open>store_\<close>, \<open>queue_\<close>, \<open>policy_\<close>, \<open>mailbox_\<close>, \<open>msg_\<close>, ...) tells the receiver where Go has a method or a field.

  \<^bold>\<open>The theories\<close>, in the order of their imports:

  \<^item> \<open>Prelude\<close>: results (\<open>on_ok\<close>, \<open>fail_if\<close>, \<open>map_ok\<close>), lengths, \<open>sort.Slice\<close> as insertion sort with the locale \<open>key_order\<close> under which
    its result does not depend on the algorithm, and the two orders (\<open>recency\<close>, \<open>listing\<close>) as instances of \<open>linorder\<close>.
  \<^item> \<open>Utf8\<close>, \<open>Validation\<close>: Go's decoding of UTF-8, \<open>utf8.ValidString\<close>, \<open>strings.ToValidUTF8\<close>, \<open>strings.Map\<close>; \<open>normalize.go\<close>: identifiers,
    the bounded normaliser with its fast path, checked byte sums. The normaliser returns the longest whole prefix that
    fits, and its fast path equals the general loop.
  \<^item> \<open>Media\<close>, \<open>Quote\<close>, \<open>Message\<close>, \<open>Entities\<close>, \<open>Batches\<close>, \<open>Retention\<close>, \<open>Reactions\<close>: the values of \<open>internal/model\<close>. For each type a
    well-formedness invariant, the exact conditions under which the constructor succeeds, the bounds on the byte charge and
    the round trips of clone and copy-with.
  \<^item> \<open>Config\<close>: \<open>internal/config/values.go\<close>: defaults, ranges and the aggregate checks with their overflow guards.
  \<^item> \<open>Policy\<close>: \<open>internal/syncpolicy/policy.go\<close>: the decision on a message and the plan of a prune.
  \<^item> \<open>Budget\<close>, \<open>Queue\<close>, \<open>Mailbox\<close>: \<open>budget.go\<close>, \<open>queue.go\<close>, \<open>mailbox.go\<close>. The locale \<open>permit_budget\<close> states the contract of a
    budget, \<open>fifo\<close> that of a queue; both are interpreted on the code's definitions. A reservation is a handle into the
    queue's list, so that a second use of a spent one is visible.
  \<^item> \<open>MemoryStore\<close> and \<open>StoreFacts\<close>, \<open>StoreWrite\<close>, \<open>StoreCommit\<close>, \<open>StoreRead\<close>, \<open>StoreDisplay\<close>, \<open>StoreContract\<close>: \<open>memory.go\<close>,
    \<open>memory_display.go\<close>, \<open>chat_list.go\<close>. The abstract view of the store is a map from chats to maps from messages; a write batch
    refines the fold of its messages over that map, a failed one changes nothing, pages walk the view in order, one retention
    cycle keeps exactly the newest bodies. The invariant \<open>wf_memory\<close> is kept by every operation.
  \<^item> \<open>Sticker\<close>: \<open>sticker.go\<close>: the bounded WebP parser; an accepted file is a sequence of whole chunks within the limits.
  \<^item> \<open>Sending\<close>: \<open>send.go\<close>, \<open>media_send.go\<close>: requests, the in-flight slot and the reservation that is held while the transport works.
  \<^item> \<open>ChatState\<close>, \<open>ChatLive\<close>: the working set of the interface (\<open>chat_state.go\<close>, \<open>live.go\<close>, \<open>initial_state.go\<close>, \<open>display.go\<close>): fixed arrays of
    chats and message buffers, their order, the selection, live insertion, the startup snapshot and display names. A Go
    array with a count is a list of exactly the array's length and the count.
  \<^item> \<open>Spec2Isabelle\<close>: this theory: properties that span components.

  \<^bold>\<open>Parameters.\<close> Code that is not in the repository is an argument: the weight function of a queue where it is generic, the
  transports and the file system of \<open>Sending\<close> with \<open>http.DetectContentType\<close>, the grapheme counter of \<open>Reactions\<close>. Contexts are the
  values that \<open>ctx.Err()\<close> shows at each look.

  \<^bold>\<open>Loops and fuel.\<close> Loops over a slice are structural recursion; the loops that consume something else (draining a queue, walking
  the chunks of a file, normalising runes) are recursive functions with a proved measure. No definition uses fuel.

  \<^bold>\<open>Not modelled.\<close> The blocking halves of queue and budget (they retry the modelled steps after a wake-up), goroutine and channel
  wiring of \<open>Core.Run\<close>, the SQLite store (its behaviour is the SQL it sends to a third-party engine), the WhatsApp adapters, the media
  cache, rendering and key handling of the interface, and the command's sockets and child processes.
\<close>

section \<open>Properties across components\<close>



text \<open>The usage report of any store counts its chats, messages, retained bodies and anchors exactly, and its byte
  estimate is the exact sum of the accounted sizes, cut at the largest 64-bit value instead of wrapping.\<close>

theorem usage_report_exact:
  assumes "wf_memory mem"
  shows "\<exists>u. store_Usage LiveContext mem = Inr u \<and> usage_Validate u = None
    \<and> use_estimatedBytes u = min max_int (display_cost (mem_display mem) + (\<Sum>c\<leftarrow>map snd (mem_chats mem). chat_cost c))
    \<and> use_chats u = int (card (dom (chat_at mem)))
    \<and> use_messages u = (\<Sum>c\<leftarrow>map snd (mem_chats mem). len (mc_messages c))
    \<and> use_bodies u = (\<Sum>c\<leftarrow>map snd (mem_chats mem). bodies_of (map snd (mc_messages c)))
    \<and> use_anchors u = len (filter mc_hasAnchor (map snd (mem_chats mem)))"
proof -
  have "dom (chat_at mem) = dom (map_of (mem_chats mem))" by (auto simp: chat_at_def)
  moreover have "length (mem_chats mem) = card (dom (map_of (mem_chats mem)))" using assms by (intro length_dom) (simp add: wf_memory_def)
  ultimately show ?thesis using Usage_eq [OF assms] by (auto simp: saturated_def)
qed

theorem usage_report_exact_witness: "\<exists>u. store_Usage LiveContext sample_chat_store = Inr u \<and> use_chats u = 1"
  using usage_report_exact [OF sample_chat_store_wf] by (auto simp: sample_chat_at)

end
